(* ===== verification/Prelude.thy ===== *)
theory Prelude
  imports Main "HOL-Library.Word" "HOL-Library.AList"
begin

text \<open>
  Shared vocabulary of the development: the machine types of the Go source, big-endian
  byte access, addresses as bit sequences, and the generic facts the component theories
  use.  Go's \<open>uint64\<close> is \<open>64 word\<close>, a \<open>byte\<close> is \<open>8 word\<close>, a byte slice is a list of bytes,
  \<open>net.IP\<close> is such a list (empty for nil), a Go string is a \<open>string\<close> (a list of 8-bit
  characters, one per byte).
\<close>

unbundle bit_operations_syntax

type_synonym byte = "8 word"
type_synonym u64 = "64 word"
type_synonym u16 = "16 word"
type_synonym ip = "byte list"

named_theorems addr_simps \<open>bit-level laws of addresses\<close>
named_theorems alist_simps \<open>laws of the association lists that model Go maps\<close>

section \<open>Addresses as bit sequences\<close>

text \<open>Bit 0 of an address is the most significant bit of its first byte.\<close>

definition addr_bit :: "byte list \<Rightarrow> nat \<Rightarrow> bool" where
  "addr_bit bs c = bit (bs ! (c div 8)) (7 - c mod 8)"

definition addr_bits :: "byte list \<Rightarrow> bool list" where
  "addr_bits bs = map (addr_bit bs) [0..<8 * length bs]"

text \<open>\<open>in_prefix n pre ip\<close>: the 16-byte address \<open>ip\<close> lies in the network \<open>pre/n\<close>.\<close>

definition in_prefix :: "nat \<Rightarrow> ip \<Rightarrow> ip \<Rightarrow> bool" where
  "in_prefix n pre ip \<longleftrightarrow> length ip = 16 \<and> take n (addr_bits ip) = take n (addr_bits pre)"

lemma length_addr_bits [simp]: "length (addr_bits bs) = 8 * length bs"
  by (simp add: addr_bits_def)

lemma nth_addr_bits [addr_simps]: "c < 8 * length bs \<Longrightarrow> addr_bits bs ! c = addr_bit bs c"
  by (simp add: addr_bits_def)

lemma in_prefixI:
  assumes "length pre = 16" "length ip = 16" "n \<le> 128"
    and "\<And>c. c < n \<Longrightarrow> addr_bit ip c = addr_bit pre c"
  shows "in_prefix n pre ip"
  unfolding in_prefix_def using assms by (auto intro!: nth_equalityI simp: addr_simps)

lemma in_prefixD:
  assumes "in_prefix n pre ip" "length pre = 16" "n \<le> 128" "c < n"
  shows "addr_bit ip c = addr_bit pre c"
proof -
  have len: "length ip = 16" and "take n (addr_bits ip) ! c = take n (addr_bits pre) ! c"
    using assms(1) by (simp_all add: in_prefix_def)
  then have "addr_bits ip ! c = addr_bits pre ! c" using assms(4) by simp
  with assms len show ?thesis by (simp add: nth_addr_bits)
qed

lemma addr_bits_eq_iff:
  assumes "length xs = 16" "length ys = 16"
  shows "xs = ys \<longleftrightarrow> (\<forall>c<128. addr_bit xs c = addr_bit ys c)"
proof
  assume *: "\<forall>c<128. addr_bit xs c = addr_bit ys c"
  show "xs = ys"
  proof (rule nth_equalityI)
    fix i assume i: "i < length xs"
    show "xs ! i = ys ! i"
    proof (rule bit_word_eqI)
      fix n assume "n < LENGTH(8)"
      then have n: "n < 8" by simp
      with i assms have "8 * i + (7 - n) < 128" by simp
      with * have "addr_bit xs (8 * i + (7 - n)) = addr_bit ys (8 * i + (7 - n))" by blast
      moreover have "(8 * i + (7 - n)) div 8 = i" "(8 * i + (7 - n)) mod 8 = 7 - n"
        using n by (simp_all only: div_mult_self4 mod_mult_self4) simp_all
      ultimately show "bit (xs ! i) n = bit (ys ! i) n" using n by (simp add: addr_bit_def)
    qed
  qed (simp add: assms)
qed simp

section \<open>Big-endian access\<close>

text \<open>\<open>binary.BigEndian.Uint64\<close> and \<open>PutUint64\<close> of the standard library.\<close>

definition be_uint64 :: "byte list \<Rightarrow> u64" where
  "be_uint64 bs = foldl (\<lambda>acc b. push_bit 8 acc OR ucast b) 0 (take 8 bs)"

definition be_bytes64 :: "u64 \<Rightarrow> byte list" where
  "be_bytes64 v = map (\<lambda>i. ucast (drop_bit (56 - 8 * i) v)) [0..<8]"

definition put_lo :: "byte list \<Rightarrow> u64 \<Rightarrow> byte list" where
  "put_lo a v = take 8 a @ be_bytes64 v"

definition put_hi :: "byte list \<Rightarrow> u64 \<Rightarrow> byte list" where
  "put_hi a v = be_bytes64 v @ drop 8 a"

abbreviation "hi64 a \<equiv> be_uint64 (take 8 a)"
abbreviation "lo64 a \<equiv> be_uint64 (drop 8 a)"

lemma length_be_bytes64 [simp]: "length (be_bytes64 v) = 8"
  by (simp add: be_bytes64_def)

lemma length_put_lo [simp]: "length a = 16 \<Longrightarrow> length (put_lo a v) = 16"
  by (simp add: put_lo_def)

lemma length_put_hi [simp]: "length a = 16 \<Longrightarrow> length (put_hi a v) = 16"
  by (simp add: put_hi_def)

lemma bit_foldl_bytes:
  "bit (foldl (\<lambda>acc b. push_bit 8 acc OR ucast b) (0::u64) (bs :: byte list)) n \<longleftrightarrow>
     n < 64 \<and> n div 8 < length bs \<and> bit (rev bs ! (n div 8)) (n mod 8)"
proof (induction bs arbitrary: n rule: rev_induct)
  case (snoc b bs)
  show ?case
  proof (cases "n < 8")
    case True
    then show ?thesis by (simp add: bit_simps)
  next
    case False
    then obtain m where m: "n = 8 + m" using le_Suc_ex not_le by blast
    have "\<not> bit b (8 + m)" using bit_imp_le_length[of b "8 + m"] by auto
    moreover have "(8 + m) div 8 = Suc (m div 8)" by simp
    ultimately show ?thesis by (auto simp: m bit_simps snoc.IH)
  qed
qed simp

lemma byte_index:
  assumes "n < (64::nat)"
  shows "(63 - n) div 8 = 7 - n div 8" "7 - (63 - n) mod 8 = n mod 8"
    "56 - 8 * (n div 8) + (7 - n mod 8) = 63 - n"
proof -
  obtain q r where n: "n = 8 * q + r" "q < 8" "r < 8"
    using assms by (metis div_mult_mod_eq mult.commute less_mult_imp_div_less mod_less_divisor
        numeral_times_numeral semiring_norm(12,13,14) zero_less_numeral numeral_Bit0_eq_double
        mult_2 numeral_code(2))
  then have "63 - n = 8 * (7 - q) + (7 - r)" by simp
  with n show "(63 - n) div 8 = 7 - n div 8" "7 - (63 - n) mod 8 = n mod 8"
    "56 - 8 * (n div 8) + (7 - n mod 8) = 63 - n"
    by (simp_all only: div_mult_self4 mod_mult_self4) simp_all
qed

lemma bit_be_uint64:
  assumes "8 \<le> length bs"
  shows "bit (be_uint64 bs) n \<longleftrightarrow> n < 64 \<and> addr_bit bs (63 - n)"
proof (cases "n < 64")
  case True
  then have k: "n div 8 < 8" by simp
  have "rev (take 8 bs) ! (n div 8) = bs ! (7 - n div 8)"
    using assms k by (simp add: rev_nth)
  with byte_index[OF True] show ?thesis
    using assms True k by (simp add: be_uint64_def bit_foldl_bytes addr_bit_def)
qed (auto dest: bit_imp_le_length)

lemma addr_bit_be_bytes64:
  assumes "c < 64"
  shows "addr_bit (be_bytes64 v) c = bit v (63 - c)"
proof -
  have "c div 8 < 8" "7 - c mod 8 < 8" using assms by simp_all
  with byte_index(3)[OF assms] show ?thesis
    by (simp add: addr_bit_def be_bytes64_def bit_simps)
qed

lemma addr_bit_append:
  "addr_bit (xs @ ys) c =
     (if c < 8 * length xs then addr_bit xs c else addr_bit ys (c - 8 * length xs))"
proof (cases "c < 8 * length xs")
  case True
  then have "c div 8 < length xs" by (simp add: less_mult_imp_div_less mult.commute)
  with True show ?thesis by (simp add: addr_bit_def nth_append)
next
  case False
  then obtain d where d: "c = 8 * length xs + d" using le_Suc_ex not_le by blast
  have "(8 * length xs + d) div 8 = length xs + d div 8" by simp
  moreover have "(8 * length xs + d) mod 8 = d mod 8" by simp
  ultimately show ?thesis by (simp add: addr_bit_def d nth_append)
qed

lemma addr_bit_drop: "addr_bit (drop k bs) c = addr_bit bs (8 * k + c)"
  if "8 * k + c < 8 * length bs"
proof -
  have "(8 * k + c) div 8 = k + c div 8" by simp
  moreover have "(8 * k + c) mod 8 = c mod 8" by simp
  ultimately show ?thesis using that by (simp add: addr_bit_def)
qed

lemma addr_bit_take: "addr_bit (take k bs) c = addr_bit bs c" if "c < 8 * k"
proof -
  have "c div 8 < k" using that by (simp add: less_mult_imp_div_less mult.commute)
  then show ?thesis by (simp add: addr_bit_def)
qed

lemma addr_bit_put_lo [addr_simps]:
  assumes "length a = 16" "c < 128"
  shows "addr_bit (put_lo a v) c = (if c < 64 then addr_bit a c else bit v (127 - c))"
proof -
  have "63 - (c - 64) = 127 - c" if "\<not> c < 64" using that assms(2) by simp
  with assms show ?thesis
    by (simp add: put_lo_def addr_bit_append addr_bit_take addr_bit_be_bytes64)
qed

lemma addr_bit_put_hi [addr_simps]:
  assumes "length a = 16" "c < 128"
  shows "addr_bit (put_hi a v) c = (if c < 64 then bit v (63 - c) else addr_bit a c)"
  using assms by (simp add: put_hi_def addr_bit_append addr_bit_drop addr_bit_be_bytes64)

lemma bit_hi64 [addr_simps]:
  "length a = 16 \<Longrightarrow> bit (hi64 a) n \<longleftrightarrow> n < 64 \<and> addr_bit a (63 - n)"
  by (auto simp: bit_be_uint64 addr_bit_take)

lemma bit_lo64 [addr_simps]:
  assumes "length a = 16"
  shows "bit (lo64 a) n \<longleftrightarrow> n < 64 \<and> addr_bit a (127 - n)"
proof (cases "n < 64")
  case True
  then have "64 + (63 - n) = 127 - n" by simp
  with assms True show ?thesis by (simp add: bit_be_uint64 addr_bit_drop)
qed (use assms in \<open>simp add: bit_be_uint64\<close>)

lemma diff_less_64 [simp]: "(63::nat) - n < 64"
  by (simp add: less_imp_diff_less)

lemma lo64_put_lo [simp]: "length a = 16 \<Longrightarrow> lo64 (put_lo a v) = v"
  by (rule bit_word_eqI) (simp add: bit_lo64 addr_bit_put_lo, arith)

lemma hi64_put_hi [simp]: "length a = 16 \<Longrightarrow> hi64 (put_hi a v) = v"
  by (rule bit_word_eqI) (simp add: bit_hi64 addr_bit_put_hi)

lemma hi64_put_lo [simp]: "length a = 16 \<Longrightarrow> hi64 (put_lo a v) = hi64 a"
  by (rule bit_word_eqI) (simp add: bit_hi64 addr_bit_put_lo)

section \<open>Words\<close>

lemma word_mask_bit [simp]: "bit (push_bit n 1 - 1 :: 'a::len word) k \<longleftrightarrow> k < n \<and> k < LENGTH('a)"
  by (metis bit_mask_iff mask_eq_decr_exp possible_bit_word push_bit_eq_mult mult_1)

lemma unat_mask64: "n \<le> 64 \<Longrightarrow> unat (mask n :: u64) = 2 ^ n - 1"
proof -
  assume n: "n \<le> 64"
  have "unat (mask n :: u64) = (mask n :: nat)"
    by (rule bit_eqI) (use n in \<open>auto simp: bit_unsigned_iff bit_mask_iff\<close>)
  then show ?thesis by (simp add: mask_eq_exp_minus_1)
qed

end
