(* ===== verification/Net_IP.thy ===== *)
theory Net_IP
  imports Go_Text
begin

text \<open>
  The parts of Go's \<open>net\<close> (and \<open>net/netip\<close>) package the program calls: the \<open>net.IP\<close>
  operations on byte slices, parsing and printing of addresses, CIDR networks, and the
  host/port splitting of dial addresses.  The empty list is Go's nil \<open>net.IP\<close>.
\<close>

section \<open>Forms of an address\<close>

definition v4InV6Prefix :: "byte list" where
  "v4InV6Prefix = replicate 10 0 @ [0xff, 0xff]"

definition To4 :: "ip \<Rightarrow> ip" where
  "To4 x =
     (if length x = 4 then x
      else if length x = 16 \<and> take 12 x = v4InV6Prefix then drop 12 x
      else [])"

definition To16 :: "ip \<Rightarrow> ip" where
  "To16 x = (if length x = 4 then v4InV6Prefix @ x else if length x = 16 then x else [])"

definition IP_Equal :: "ip \<Rightarrow> ip \<Rightarrow> bool" where
  "IP_Equal x y =
     (if length x = length y then x = y
      else if length x = 4 \<and> length y = 16 then take 12 y = v4InV6Prefix \<and> x = drop 12 y
      else if length x = 16 \<and> length y = 4 then take 12 x = v4InV6Prefix \<and> drop 12 x = y
      else False)"

definition IsLoopback :: "ip \<Rightarrow> bool" where
  "IsLoopback x =
     (if To4 x \<noteq> [] then To4 x ! 0 = 127 else x = replicate 15 0 @ [1])"

definition IsLinkLocalUnicast :: "ip \<Rightarrow> bool" where
  "IsLinkLocalUnicast x =
     (if To4 x \<noteq> [] then To4 x ! 0 = 169 \<and> To4 x ! 1 = 254
      else length x = 16 \<and> x ! 0 = 0xfe \<and> x ! 1 AND 0xc0 = 0x80)"

text \<open>\<open>net.CIDRMask(ones, 8 * l)\<close> for \<open>l\<close> of 4 or 16 bytes; nil when \<open>ones\<close> is out of range.\<close>

definition CIDRMask :: "int \<Rightarrow> nat \<Rightarrow> byte list" where
  "CIDRMask ones l =
     (if ones < 0 \<or> ones > 8 * int l then []
      else map (\<lambda>i. let n = nat ones - 8 * i in
                     if n \<ge> 8 then 0xff else NOT (drop_bit n 0xff)) [0..<l])"

text \<open>\<open>IPMask.Size\<close>: the number of leading ones; 0 for a mask that is not in this form.\<close>

definition mask_ones :: "byte list \<Rightarrow> int" where
  "mask_ones m =
     (let n = length (takeWhile (\<lambda>b. b) (addr_bits m))
      in if m = CIDRMask (int n) (length m) then int n else 0)"

definition IP_Mask :: "ip \<Rightarrow> byte list \<Rightarrow> ip" where
  "IP_Mask x m =
     (let m = (if length m = 16 \<and> length x = 4 \<and> take 12 m = replicate 12 0xff
               then drop 12 m else m);
          x = (if length m = 4 \<and> length x = 16 \<and> take 12 x = v4InV6Prefix then drop 12 x else x)
      in if length x \<noteq> length m then [] else map2 (AND) x m)"

record ipnet =
  net_ip :: ip
  net_mask :: "byte list"

definition networkNumberAndMask :: "ipnet \<Rightarrow> byte list \<times> byte list" where
  "networkNumberAndMask n =
     (let x = (if To4 (net_ip n) \<noteq> [] then To4 (net_ip n) else net_ip n); m = net_mask n
      in if length x \<noteq> 4 \<and> length x \<noteq> 16 then ([], [])
         else if length m = 4 then (if length x \<noteq> 4 then ([], []) else (x, m))
         else if length m = 16 then (x, if length x = 4 then drop 12 m else m)
         else ([], []))"

definition IPNet_Contains :: "ipnet \<Rightarrow> ip \<Rightarrow> bool" where
  "IPNet_Contains n x =
     (let (nn, m) = networkNumberAndMask n; x = (if To4 x \<noteq> [] then To4 x else x)
      in length x = length nn \<and> map2 (AND) nn m = map2 (AND) x m)"

section \<open>Printing\<close>

definition dotted :: "byte list \<Rightarrow> string" where
  "dotted x = dec (unat (x ! 0)) @ ''.'' @ dec (unat (x ! 1)) @ ''.''
              @ dec (unat (x ! 2)) @ ''.'' @ dec (unat (x ! 3))"

text \<open>\<open>appendHex\<close> of a 16-bit group, without leading zeros.\<close>

definition hex16 :: "nat \<Rightarrow> string" where
  "hex16 x =
     (if x \<ge> 4096 then [digit_char (x div 4096)] else [])
     @ (if x \<ge> 256 then [digit_char (x div 256 mod 16)] else [])
     @ (if x \<ge> 16 then [digit_char (x div 16 mod 16)] else [])
     @ [digit_char (x mod 16)]"

definition groups16 :: "ip \<Rightarrow> nat list" where
  "groups16 x = map (\<lambda>i. unat (x ! (2 * i)) * 256 + unat (x ! (2 * i + 1))) [0..<8]"

text \<open>The longest run of zero groups of length at least two, the first of the longest.\<close>

definition zero_step :: "nat list \<Rightarrow> nat \<Rightarrow> (nat \<times> nat) option \<Rightarrow> (nat \<times> nat) option" where
  "zero_step gs i best =
     (let l = length (takeWhile (\<lambda>g. g = 0) (drop i gs));
          cur = (case best of None \<Rightarrow> 0 | Some (s, e) \<Rightarrow> e - s)
      in if l \<ge> 2 \<and> l > cur then Some (i, i + l) else best)"

definition zero_run :: "nat list \<Rightarrow> (nat \<times> nat) option" where
  "zero_run gs = fold (zero_step gs) [0..<8] None"

fun join_groups :: "nat list \<Rightarrow> string" where
  "join_groups [] = []"
| "join_groups [g] = hex16 g"
| "join_groups (g # gs) = hex16 g @ '':'' @ join_groups gs"

definition string6 :: "ip \<Rightarrow> string" where
  "string6 x =
     (let gs = groups16 x
      in case zero_run gs of
           None \<Rightarrow> join_groups gs
         | Some (s, e) \<Rightarrow> join_groups (take s gs) @ ''::'' @ join_groups (drop e gs))"

definition hex_bytes :: "byte list \<Rightarrow> string" where
  "hex_bytes bs = concat (map (\<lambda>b. [digit_char (unat b div 16), digit_char (unat b mod 16)]) bs)"

definition IP_String :: "ip \<Rightarrow> string" where
  "IP_String x =
     (if x = [] then ''<nil>''
      else if length x \<noteq> 4 \<and> length x \<noteq> 16 then ''?'' @ hex_bytes x
      else if To4 x \<noteq> [] then dotted (To4 x)
      else string6 x)"

section \<open>Parsing\<close>

text \<open>\<open>parseIPv4Fields\<close>: \<open>prev\<close> is the byte before the rest (None at the start), \<open>val\<close> and
  \<open>digLen\<close> describe the octet being read, \<open>flds\<close> the octets read.\<close>

fun v4_fields :: "char option \<Rightarrow> nat \<Rightarrow> nat \<Rightarrow> nat list \<Rightarrow> string \<Rightarrow> nat list option" where
  "v4_fields prev val digLen flds [] =
     (if length flds < 3 then None else Some (flds @ [val]))"
| "v4_fields prev val digLen flds (c # s) =
     (case dec_val c of
        Some d \<Rightarrow>
          (if digLen = 1 \<and> val = 0 then None
           else if val * 10 + d > 255 then None
           else v4_fields (Some c) (val * 10 + d) (digLen + 1) flds s)
      | None \<Rightarrow>
          (if c = CHR ''.''
           then (if prev = None \<or> s = [] \<or> prev = Some (CHR ''.'') then None
                 else if length flds = 3 then None
                 else v4_fields (Some c) 0 0 (flds @ [val]) s)
           else None))"

definition parseIPv4Fields :: "string \<Rightarrow> byte list option" where
  "parseIPv4Fields s = map_option (map word_of_nat) (v4_fields None 0 0 [] s)"

text \<open>The hex number at the start of a string: digits read, value, rest; None on overflow.\<close>

fun scan_hex :: "nat \<Rightarrow> nat \<Rightarrow> string \<Rightarrow> (nat \<times> nat \<times> string) option" where
  "scan_hex off acc [] = Some (off, acc, [])"
| "scan_hex off acc (c # s) =
     (case hex_val c of
        None \<Rightarrow> Some (off, acc, c # s)
      | Some d \<Rightarrow> if off > 3 then None
                  else if acc * 16 + d > 65535 then None
                  else scan_hex (off + 1) (acc * 16 + d) s)"

text \<open>The group loop of \<open>parseIPv6\<close>: at most eight rounds, \<open>x\<close> the bytes parsed so far
  (the code's index \<open>i\<close> is its length), \<open>ell\<close> the position of the ellipsis.\<close>

fun v6_loop :: "nat \<Rightarrow> string \<Rightarrow> byte list \<Rightarrow> nat option \<Rightarrow> (string \<times> byte list \<times> nat option) option" where
  "v6_loop 0 s x ell = Some (s, x, ell)"
| "v6_loop (Suc n) s x ell =
     (case scan_hex 0 0 s of
        None \<Rightarrow> None
      | Some (off, acc, rest) \<Rightarrow>
          if off = 0 then None
          else if rest \<noteq> [] \<and> hd rest = CHR ''.''
          then (if ell = None \<and> length x \<noteq> 12 then None
                else if length x + 4 > 16 then None
                else (case parseIPv4Fields s of None \<Rightarrow> None | Some f \<Rightarrow> Some ([], x @ f, ell)))
          else (let x = x @ [word_of_nat (acc div 256), word_of_nat (acc mod 256)]
                in case rest of
                     [] \<Rightarrow> Some ([], x, ell)
                   | c # s1 \<Rightarrow>
                       if c \<noteq> CHR '':'' \<or> s1 = [] then None
                       else if hd s1 = CHR '':''
                       then (if ell \<noteq> None then None
                             else if tl s1 = [] then Some ([], x, Some (length x))
                             else v6_loop n (tl s1) x (Some (length x)))
                       else v6_loop n s1 x ell))"

definition parseIPv6 :: "string \<Rightarrow> ip option" where
  "parseIPv6 s =
     (let lead = HasPrefix s ''::''; s1 = (if lead then drop 2 s else s);
          ell = (if lead then Some 0 else None)
      in if lead \<and> s1 = [] then Some (replicate 16 0)
         else (case v6_loop 8 s1 [] ell of
                 None \<Rightarrow> None
               | Some (rest, x, ell) \<Rightarrow>
                   if rest \<noteq> [] then None
                   else if length x < 16
                   then (case ell of None \<Rightarrow> None
                         | Some e \<Rightarrow> Some (take e x @ replicate (16 - length x) 0 @ drop e x))
                   else if ell \<noteq> None then None
                   else Some x))"

text \<open>\<open>net.ParseIP\<close>; an address with a zone is rejected by it, so \<open>%\<close> never parses.\<close>

definition ParseIP :: "string \<Rightarrow> ip" where
  "ParseIP s =
     (case find (\<lambda>c. c \<in> {CHR ''.'', CHR '':'', CHR ''%''}) s of
        None \<Rightarrow> []
      | Some c \<Rightarrow>
          if c = CHR ''.''
          then (case parseIPv4Fields s of None \<Rightarrow> [] | Some f \<Rightarrow> v4InV6Prefix @ f)
          else if CHR ''%'' \<in> set s then []
          else (case parseIPv6 s of None \<Rightarrow> [] | Some x \<Rightarrow> x))"

text \<open>\<open>net.ParseCIDR\<close>: the address and its network, None on error.\<close>

definition parse_dec :: "string \<Rightarrow> nat option" where
  "parse_dec s =
     (if s = [] then None
      else fold (\<lambda>c acc. case (acc, dec_val c) of (Some a, Some d) \<Rightarrow> Some (a * 10 + d) | _ \<Rightarrow> None)
                s (Some 0))"

definition ParseCIDR :: "string \<Rightarrow> (ip \<times> ipnet) option" where
  "ParseCIDR s =
     (case IndexByte s (CHR ''/'') of
        None \<Rightarrow> None
      | Some i \<Rightarrow>
          (let a = take i s; x = ParseIP a; iplen = (if CHR '':'' \<in> set a then 16 else 4 :: nat)
           in case parse_dec (drop (Suc i) s) of
                None \<Rightarrow> None
              | Some n \<Rightarrow>
                  if x = [] \<or> n > 8 * iplen then None
                  else (let m = CIDRMask (int n) iplen
                        in Some (x, \<lparr>net_ip = IP_Mask x m, net_mask = m\<rparr>))))"

section \<open>Host and port\<close>

definition JoinHostPort :: "string \<Rightarrow> string \<Rightarrow> string" where
  "JoinHostPort host port =
     (if CHR '':'' \<in> set host then ''['' @ host @ '']:'' @ port else host @ '':'' @ port)"

definition SplitHostPort :: "string \<Rightarrow> (string \<times> string) option" where
  "SplitHostPort hp =
     (case LastIndexByte hp (CHR '':'') of
        None \<Rightarrow> None
      | Some i \<Rightarrow>
          if hd hp = CHR ''[''
          then (case IndexByte hp (CHR '']'') of
                  None \<Rightarrow> None
                | Some e \<Rightarrow>
                    if e + 1 = length hp then None
                    else if e + 1 \<noteq> i then None
                    else if CHR ''['' \<in> set (drop 1 hp) then None
                    else if CHR '']'' \<in> set (drop (e + 1) hp) then None
                    else Some (drop 1 (take e hp), drop (i + 1) hp))
          else if CHR '':'' \<in> set (take i hp) then None
          else if CHR ''['' \<in> set hp then None
          else if CHR '']'' \<in> set hp then None
          else Some (take i hp, drop (i + 1) hp))"

end
