(* ===== verification/Pool.thy ===== *)
theory Pool
  imports Net_IP
begin

text \<open>
  \<open>internal/pool/pool.go\<close>, first half: the pool of source addresses, its splitmix64
  mixing function, the keyed mapping \<open>IPForAcct\<close> from sequence numbers to addresses and
  the host-value hygiene \<open>sanitizeHost\<close>.  \<open>uint64\<close> arithmetic wraps, as on \<open>64 word\<close>;
  shift counts are natural numbers; \<open>bits\<close> and \<open>tot\<close> are Go \<open>int\<close>s.
\<close>

section \<open>Data and operations\<close>

record pool =
  p_prefix :: "byte list"
  p_bits :: int
  p_seed :: u64

definition gold :: u64 where
  "gold = 0x9E3779B97F4A7C15"

definition splitmix64 :: "u64 \<Rightarrow> u64" where
  "splitmix64 x =
     (let x = x + gold;
          x = (x XOR drop_bit 30 x) * 0xBF58476D1CE4E5B9;
          x = (x XOR drop_bit 27 x) * 0x94D049BB133111EB
      in x XOR drop_bit 31 x)"

definition isEUI64 :: "u64 \<Rightarrow> bool" where
  "isEUI64 iid \<longleftrightarrow> drop_bit 24 iid AND 0xffff = 0xfffe"

text \<open>The eight-round loop of \<open>sanitizeHost\<close>; a round that falls through returns.\<close>

fun sanitize_loop :: "nat \<Rightarrow> u64 \<Rightarrow> u64 \<Rightarrow> int \<Rightarrow> u64" where
  "sanitize_loop 0 v m tot = v"
| "sanitize_loop (Suc i) v m tot =
     (if tot \<ge> 40 \<and> isEUI64 v
      then sanitize_loop i ((v XOR 0x0000000200000000) AND m) m tot
      else if tot > 2 \<and> (v = 0 \<or> v = 1 \<or> v = m)
      then sanitize_loop i ((v + 1) AND m) m tot
      else v)"

definition sanitizeHost :: "u64 \<Rightarrow> u64 \<Rightarrow> int \<Rightarrow> u64" where
  "sanitizeHost v m tot = sanitize_loop 8 (v AND m) m tot"

definition ipForNarrow :: "u64 \<Rightarrow> u64 \<Rightarrow> u64 \<Rightarrow> int \<Rightarrow> byte list \<Rightarrow> ip" where
  "ipForNarrow sub start sz tot addr =
     (let prefixLo = lo64 addr;
          hostMask = (if tot \<ge> 64 then NOT 0 else push_bit (nat tot) 1 - 1);
          preserveMask = (if tot \<ge> 64 then 0 else push_bit (nat tot) (NOT 0));
          host = (if sz > 0 then start + sub mod sz else sub AND hostMask);
          host = sanitizeHost host hostMask tot
      in put_lo addr ((prefixLo AND preserveMask) OR host))"

definition ipForWide :: "u64 \<Rightarrow> u64 \<Rightarrow> u64 \<Rightarrow> u64 \<Rightarrow> int \<Rightarrow> byte list \<Rightarrow> ip" where
  "ipForWide sub iid start sz bits addr =
     (let highPart = 64 - bits;
          subnetMask = (if highPart < 64 then push_bit (nat highPart) 1 - 1 else NOT 0);
          subnet = (if sz > 0 then (start + sub mod sz) AND subnetMask
                    else sub AND subnetMask);
          preserve = (if highPart < 64 then push_bit (nat highPart) (NOT 0) else 0);
          hi = hi64 addr;
          addr = put_hi addr ((hi AND preserve) OR subnet)
      in put_lo addr (sanitizeHost iid (NOT 0) 64))"

definition Bits :: "pool \<Rightarrow> int" where
  "Bits p = p_bits p"

definition Seed :: "pool \<Rightarrow> u64" where
  "Seed p = p_seed p"

definition AccountDomain :: "pool \<Rightarrow> u64 \<Rightarrow> u64" where
  "AccountDomain p idx = splitmix64 (p_seed p XOR (gold * (idx + 1)))"

definition IPForAcct :: "pool \<Rightarrow> u64 \<Rightarrow> u64 \<Rightarrow> u64 \<Rightarrow> u64 \<Rightarrow> ip" where
  "IPForAcct p seq domain start sz =
     (let addr = p_prefix p; tot = 128 - p_bits p
      in if tot \<le> 0 then addr
         else let mix = seq XOR p_seed p XOR domain; sub = splitmix64 mix
              in if tot \<le> 64 then ipForNarrow sub start sz tot addr
                 else ipForWide sub (splitmix64 (mix XOR gold)) start sz (p_bits p) addr)"

definition IPFor :: "pool \<Rightarrow> u64 \<Rightarrow> u64 \<Rightarrow> u64 \<Rightarrow> ip" where
  "IPFor p seq start sz = IPForAcct p seq 0 start sz"

text \<open>\<open>copy(p.prefix[:], ...)\<close> into the zeroed 16-byte array.\<close>

definition copy16 :: "byte list \<Rightarrow> byte list" where
  "copy16 src = take 16 (src @ replicate 16 0)"

definition NewWithSeed :: "int \<Rightarrow> ip \<Rightarrow> u64 \<Rightarrow> pool" where
  "NewWithSeed bits prefix seed =
     (let bits = (if bits < 0 then 0 else bits);
          bits = (if bits > 128 then 128 else bits)
      in \<lparr>p_prefix = copy16 (To16 prefix), p_bits = bits, p_seed = seed\<rparr>)"

definition New :: "int \<Rightarrow> ip \<Rightarrow> pool" where
  "New bits prefix = NewWithSeed bits prefix 0"

section \<open>Well-formed pools\<close>

definition pool_wf :: "pool \<Rightarrow> bool" where
  "pool_wf p \<longleftrightarrow> length (p_prefix p) = 16 \<and> 0 \<le> p_bits p \<and> p_bits p \<le> 128"

lemma length_copy16 [simp]: "length (copy16 xs) = 16"
  by (simp add: copy16_def)

lemma copy16_id [simp]: "length xs = 16 \<Longrightarrow> copy16 xs = xs"
  by (simp add: copy16_def)

lemma pool_wf_NewWithSeed [simp]: "pool_wf (NewWithSeed bits prefix seed)"
  by (simp add: pool_wf_def NewWithSeed_def)

section \<open>Host-value hygiene\<close>

lemma bit_marker_word: "bit (0xfffe :: u64) k \<longleftrightarrow> 1 \<le> k \<and> k < 16"
proof -
  have "(0xfffe :: u64) = push_bit 1 (mask 15)" by (simp add: mask_numeral push_bit_eq_mult)
  then have "bit (0xfffe :: u64) k \<longleftrightarrow> bit (push_bit 1 (mask 15) :: u64) k" by (rule arg_cong)
  also have "\<dots> \<longleftrightarrow> 1 \<le> k \<and> k < 16" by (simp only: bit_push_bit_iff bit_mask_iff) auto
  finally show ?thesis .
qed

lemma isEUI64_bits: "isEUI64 v \<longleftrightarrow> (\<forall>k<16. bit v (24 + k) \<longleftrightarrow> k \<noteq> 0)"
proof -
  have ff: "(0xffff :: u64) = mask 16" by (simp add: mask_numeral)
  have "isEUI64 v \<longleftrightarrow> (\<forall>k<64. bit (drop_bit 24 v AND mask 16) k = bit (0xfffe :: u64) k)"
    unfolding isEUI64_def ff by (auto intro: bit_word_eqI)
  also have "\<dots> \<longleftrightarrow> (\<forall>k<64. k < 16 \<longrightarrow> (bit v (24 + k) \<longleftrightarrow> k \<noteq> 0))"
    by (auto simp: bit_drop_bit_eq bit_and_iff bit_mask_iff bit_marker_word
        simp del: bit_numeral_word_iff)
  also have "\<dots> \<longleftrightarrow> (\<forall>k<16. bit v (24 + k) \<longleftrightarrow> k \<noteq> 0)" by auto
  finally show ?thesis .
qed

lemma not_EUI_0 [simp]: "\<not> isEUI64 0" and not_EUI_1 [simp]: "\<not> isEUI64 1"
  and not_EUI_2 [simp]: "\<not> isEUI64 2"
  by (simp_all add: isEUI64_def)

lemma EUI_D: "isEUI64 v \<Longrightarrow> bit v 25 \<and> bit v 33 \<and> \<not> bit v 24"
  by (auto simp: isEUI64_bits dest: spec[of _ 1] spec[of _ 9] spec[of _ 0])

text \<open>The values the loop never lets through in a host space of \<open>tot\<close> bits.\<close>

definition reserved :: "u64 \<Rightarrow> u64 \<Rightarrow> int \<Rightarrow> bool" where
  "reserved v m tot \<longleftrightarrow> tot > 2 \<and> (v = 0 \<or> v = 1 \<or> v = m)"

definition marked :: "u64 \<Rightarrow> int \<Rightarrow> bool" where
  "marked v tot \<longleftrightarrow> tot \<ge> 40 \<and> isEUI64 v"

lemma sanitize_stop: "\<not> marked v tot \<Longrightarrow> \<not> reserved v m tot \<Longrightarrow> sanitize_loop i v m tot = v"
  by (cases i) (auto simp: reserved_def marked_def)

lemma sanitize_marked:
  "marked v tot \<Longrightarrow> sanitize_loop (Suc i) v m tot = sanitize_loop i ((v XOR 0x0000000200000000) AND m) m tot"
  by (simp add: marked_def)

lemma sanitize_reserved:
  "\<not> marked v tot \<Longrightarrow> reserved v m tot \<Longrightarrow>
     sanitize_loop (Suc i) v m tot = sanitize_loop i ((v + 1) AND m) m tot"
  by (auto simp: marked_def reserved_def)

lemma bit_flip_word: "bit (0x0000000200000000 :: u64) k \<longleftrightarrow> k = 33"
proof -
  have "(0x0000000200000000 :: u64) = push_bit 33 1" by (simp add: push_bit_eq_mult)
  then have "bit (0x0000000200000000 :: u64) k \<longleftrightarrow> bit (push_bit 33 1 :: u64) k" by (rule arg_cong)
  also have "\<dots> \<longleftrightarrow> k = 33" by (simp only: bit_push_bit_iff bit_1_iff) auto
  finally show ?thesis .
qed

lemma mask_succ_and: "(mask n + 1) AND mask n = (0 :: u64)"
proof -
  have "mask n + 1 = (push_bit n 1 :: u64)" by (simp add: mask_eq_decr_exp push_bit_eq_mult)
  moreover have "push_bit n 1 AND mask n = (0 :: u64)" by (rule bit_word_eqI) (auto simp: bit_simps)
  ultimately show ?thesis by simp
qed

text \<open>Flipping the marker bit leaves the space and the reserved values alone.\<close>

lemma flip_clean:
  assumes eui: "isEUI64 v" and v: "v AND mask n = v" and n: "40 \<le> n" "n \<le> 64"
  defines "w \<equiv> v XOR 0x0000000200000000"
  shows "w AND mask n = w" "\<not> isEUI64 w" "w \<noteq> 0" "w \<noteq> 1" "w \<noteq> mask n"
proof -
  have b: "bit w k \<longleftrightarrow> k < 64 \<and> (bit v k \<noteq> (k = 33))" for k
    unfolding w_def by (auto simp: bit_xor_iff bit_flip_word dest: bit_imp_le_length
        simp del: bit_numeral_word_iff)
  have "bit w k \<Longrightarrow> k < n" for k
    using n arg_cong[OF v, of "\<lambda>x. bit x k"] by (auto simp: b bit_simps split: if_splits)
  then show "w AND mask n = w" by (intro bit_word_eqI) (auto simp: bit_simps)
  from EUI_D[OF eui] have d: "bit w 25" "\<not> bit w 33" "\<not> bit w 24" by (simp_all add: b)
  show "\<not> isEUI64 w" using d EUI_D by blast
  show "w \<noteq> 0" using d by auto
  show "w \<noteq> 1" using d(1) by (auto simp: bit_1_iff)
  show "w \<noteq> mask n" using d(3) n by (auto simp: bit_simps)
qed

text \<open>The loop always ends by its \<open>default\<close> branch, and this is what it computes.\<close>

lemma sanitizeHost_closed:
  assumes n: "1 \<le> n" "n \<le> 64"
  shows "sanitizeHost v (mask n) (int n) =
     (let v = v AND mask n in
      if marked v (int n) then v XOR 0x0000000200000000
      else if reserved v (mask n) (int n) then 2 else v)"
proof -
  define u where "u = v AND mask n"
  have u: "u AND mask n = u" by (simp add: u_def)
  define k :: nat where "k = 5"
  have eight: "(8::nat) = Suc (Suc (Suc k))" by (simp add: k_def)
  have loop: "sanitizeHost v (mask n) (int n) = sanitize_loop (Suc (Suc (Suc k))) u (mask n) (int n)"
    by (simp only: sanitizeHost_def u_def eight)
  show ?thesis
  proof (cases "marked u (int n)")
    case True
    then have "40 \<le> n" "isEUI64 u" by (auto simp: marked_def)
    note f = flip_clean[OF this(2) u this(1) n(2)]
    have "sanitize_loop (Suc (Suc k)) (u XOR 0x0000000200000000) (mask n) (int n)
          = u XOR 0x0000000200000000"
      by (rule sanitize_stop) (use f in \<open>auto simp: marked_def reserved_def\<close>)
    with True f(1) show ?thesis
      by (simp add: loop sanitize_marked u_def[symmetric] del: sanitize_loop.simps)
  next
    case False
    show ?thesis
    proof (cases "reserved u (mask n) (int n)")
      case True
      then have n3: "3 \<le> n" by (simp add: reserved_def)
      have m: "bit (mask n :: u64) 0" "bit (mask n :: u64) 1" "bit (mask n :: u64) 2"
        using n3 by (simp_all add: bit_simps)
      have one: "1 AND mask n = (1 :: u64)"
        using n3 by (intro bit_word_eqI) (auto simp: bit_simps)
      have two: "2 AND mask n = (2 :: u64)"
        using n3 by (intro bit_word_eqI) (auto simp: bit_simps bit_2_iff)
      have nm: "\<not> marked 0 t" "\<not> marked 1 t" "\<not> marked 2 t" for t by (simp_all add: marked_def)
      have r: "reserved 0 (mask n) (int n)" "reserved 1 (mask n) (int n)"
        using n3 by (simp_all add: reserved_def)
      have "(2::u64) \<noteq> mask n" using m(1) by (metis bit_2_iff zero_neq_one)
      then have "\<not> reserved 2 (mask n) (int n)" by (simp add: reserved_def)
      then have L2: "sanitize_loop i 2 (mask n) (int n) = 2" for i
        by (rule sanitize_stop[OF nm(3)])
      have L1: "sanitize_loop (Suc i) 1 (mask n) (int n) = 2" for i
        by (simp only: sanitize_reserved[OF nm(2) r(2)] one_add_one two L2)
      have L0: "sanitize_loop (Suc (Suc i)) 0 (mask n) (int n) = 2" for i
        by (simp only: sanitize_reserved[OF nm(1) r(1)] add_0 one L1)
      have "sanitize_loop (Suc (Suc (Suc i))) u (mask n) (int n) = 2" for i
      proof -
        consider "u = 0" | "u = 1" | "u = mask n" using True by (auto simp: reserved_def)
        then show ?thesis
        proof cases
          case 3
          then show ?thesis using False True
            by (simp add: sanitize_reserved mask_succ_and L0 del: sanitize_loop.simps)
        qed (simp_all only: L0 L1)
      qed
      then show ?thesis using False True by (simp add: loop u_def[symmetric] del: sanitize_loop.simps)
    next
      case F: False
      with False show ?thesis
        by (simp add: loop sanitize_stop u_def[symmetric] del: sanitize_loop.simps)
    qed
  qed
qed

text \<open>What every sanitised host value satisfies.\<close>

lemma sanitizeHost_props:
  fixes v :: u64
  assumes n: "1 \<le> n" "n \<le> 64"
  defines "h \<equiv> sanitizeHost v (mask n) (int n)"
  shows sanitizeHost_and_mask: "h AND mask n = h"
    and sanitizeHost_not_reserved: "\<not> reserved h (mask n) (int n)"
    and sanitizeHost_not_marked: "\<not> marked h (int n)"
proof -
  define u where "u = v AND mask n"
  have u: "u AND mask n = u" by (simp add: u_def)
  have h: "h = (if marked u (int n) then u XOR 0x0000000200000000
                else if reserved u (mask n) (int n) then 2 else u)"
    unfolding h_def sanitizeHost_closed[OF n] by (simp add: u_def Let_def)
  have two: "2 AND mask n = (2::u64)" "\<not> reserved 2 (mask n) (int n)" "\<not> marked 2 (int n)"
    if "reserved u (mask n) (int n)"
  proof -
    from that have n3: "3 \<le> n" by (simp add: reserved_def)
    then have "bit (mask n :: u64) 0" by (simp add: bit_simps)
    then have "(2::u64) \<noteq> mask n" by (metis bit_2_iff zero_neq_one)
    then show "\<not> reserved 2 (mask n) (int n)" by (simp add: reserved_def)
    show "2 AND mask n = (2::u64)" using n3 by (intro bit_word_eqI) (auto simp: bit_simps bit_2_iff)
  qed (simp add: marked_def)
  have flip: "(u XOR 0x0000000200000000) AND mask n = u XOR 0x0000000200000000"
    "\<not> reserved (u XOR 0x0000000200000000) (mask n) (int n)"
    "\<not> marked (u XOR 0x0000000200000000) (int n)" if "marked u (int n)"
  proof -
    from that have "isEUI64 u" "40 \<le> n" by (auto simp: marked_def)
    from flip_clean[OF this(1) u this(2) n(2)] show
      "(u XOR 0x0000000200000000) AND mask n = u XOR 0x0000000200000000"
      "\<not> reserved (u XOR 0x0000000200000000) (mask n) (int n)"
      "\<not> marked (u XOR 0x0000000200000000) (int n)"
      by (simp_all add: reserved_def marked_def)
  qed
  show "h AND mask n = h" "\<not> reserved h (mask n) (int n)" "\<not> marked h (int n)"
    using two flip u by (auto simp: h)
qed

section \<open>The address mapping\<close>

text \<open>The host field and the subnet field before hygiene, over \<open>n\<close>-bit fields.\<close>

definition field :: "u64 \<Rightarrow> u64 \<Rightarrow> u64 \<Rightarrow> nat \<Rightarrow> u64" where
  "field sub start sz n = (if sz > 0 then start + sub mod sz else sub) AND mask n"

lemma ones_eq_mask: "(NOT 0 :: u64) = mask 64"
  by (rule bit_word_eqI) (simp add: bit_simps)

lemma low_mask_eq: "push_bit n 1 - 1 = (mask n :: u64)"
  by (simp add: mask_eq_decr_exp push_bit_eq_mult)

lemma high_mask_eq: "push_bit n (NOT 0) = (NOT (mask n) :: u64)"
  by (rule bit_word_eqI) (auto simp: bit_simps)

lemma mask_select:
  assumes "n \<le> 64" "b \<longleftrightarrow> n < 64"
  shows "(if b then push_bit n 1 - 1 else NOT 0) = (mask n :: u64)"
    and "(if b then push_bit n (NOT 0) else 0) = (NOT (mask n) :: u64)"
proof -
  consider "n < 64" "b" | "n = 64" "\<not> b" using assms by force
  then show "(if b then push_bit n 1 - 1 else NOT 0) = (mask n :: u64)"
    and "(if b then push_bit n (NOT 0) else 0) = (NOT (mask n) :: u64)"
    by (cases; simp only: if_True if_False low_mask_eq high_mask_eq ones_eq_mask;
        simp flip: ones_eq_mask)+
qed

lemma ipForNarrow_eq:
  assumes "1 \<le> n" "n \<le> 64"
  shows "ipForNarrow sub start sz (int n) a =
     put_lo a ((lo64 a AND NOT (mask n))
               OR sanitizeHost (field sub start sz n) (mask n) (int n))"
proof -
  have h: "(if int n \<ge> 64 then NOT 0 else push_bit (nat (int n)) 1 - 1) = (mask n :: u64)"
    and p: "(if int n \<ge> 64 then 0 else push_bit (nat (int n)) (NOT 0)) = (NOT (mask n) :: u64)"
    using mask_select[OF assms(2), of "\<not> int n \<ge> 64"] by (simp_all only: nat_int if_not_P if_P) auto
  have s: "sanitizeHost (x AND mask n) (mask n) t = sanitizeHost x (mask n) t" for x t
    by (simp add: sanitizeHost_def and.assoc)
  have f: "(if sz > 0 then start + sub mod sz else sub AND mask n) AND mask n = field sub start sz n"
    by (simp add: field_def and.assoc)
  have "sanitizeHost (if sz > 0 then start + sub mod sz else sub AND mask n) (mask n) t
        = sanitizeHost (field sub start sz n) (mask n) t" for t
    using s[of "if sz > 0 then start + sub mod sz else sub AND mask n" t] unfolding f by simp
  then show ?thesis unfolding ipForNarrow_def Let_def h p by simp
qed

lemma ipForWide_eq:
  assumes "0 \<le> bits" "bits < 64"
  defines "n \<equiv> nat (64 - bits)"
  shows "ipForWide sub iid start sz bits a =
     put_lo (put_hi a ((hi64 a AND NOT (mask n)) OR field sub start sz n))
            (sanitizeHost iid (mask 64) (int 64))"
proof -
  have h: "(if 64 - bits < 64 then push_bit (nat (64 - bits)) 1 - 1 else NOT 0) = (mask n :: u64)"
    and p: "(if 64 - bits < 64 then push_bit (nat (64 - bits)) (NOT 0) else 0) = (NOT (mask n) :: u64)"
    unfolding n_def by (rule mask_select; use assms in linarith)+
  show ?thesis unfolding ipForWide_def Let_def h p field_def by (simp flip: ones_eq_mask)
qed

lemma field_and_mask [simp]: "field sub start sz n AND mask n = field sub start sz n"
  by (simp add: field_def and.assoc)

lemma in_mask_bit: "v AND mask n = v \<Longrightarrow> bit (v :: u64) k \<Longrightarrow> k < n"
  by (metis bit_and_iff bit_mask_iff)

lemma or_low_and_mask:
  "h AND mask n = h \<Longrightarrow> ((x AND NOT (mask n)) OR h) AND mask n = (h :: u64)"
  by (rule bit_word_eqI) (metis bit_and_iff bit_mask_iff bit_not_iff bit_or_iff)

lemma IPForAcct_cases:
  assumes "pool_wf p"
  obtains (single) "p_bits p = 128" "IPForAcct p seq d start sz = p_prefix p"
  | (narrow) n sub where "1 \<le> n" "n \<le> 64" "p_bits p = 128 - int n"
      "sub = splitmix64 (seq XOR p_seed p XOR d)"
      "IPForAcct p seq d start sz = put_lo (p_prefix p)
         ((lo64 (p_prefix p) AND NOT (mask n))
          OR sanitizeHost (field sub start sz n) (mask n) (int n))"
  | (wide) n sub iid where "1 \<le> n" "n \<le> 64" "p_bits p = 64 - int n"
      "sub = splitmix64 (seq XOR p_seed p XOR d)"
      "IPForAcct p seq d start sz =
         put_lo (put_hi (p_prefix p) ((hi64 (p_prefix p) AND NOT (mask n)) OR field sub start sz n))
                (sanitizeHost iid (mask 64) (int 64))"
proof -
  consider "p_bits p = 128" | "64 \<le> p_bits p" "p_bits p < 128" | "0 \<le> p_bits p" "p_bits p < 64"
    using assms by (force simp: pool_wf_def)
  then show thesis
  proof cases
    case 1
    then show thesis by (intro single) (simp_all add: IPForAcct_def Let_def)
  next
    case 2
    define n where "n = nat (128 - p_bits p)"
    have n: "1 \<le> n" "n \<le> 64" "p_bits p = 128 - int n" using 2 by (simp_all add: n_def)
    show thesis
      by (rule narrow[OF n refl]) (use n in \<open>simp add: IPForAcct_def Let_def ipForNarrow_eq\<close>)
  next
    case 3
    define n where "n = nat (64 - p_bits p)"
    have n: "1 \<le> n" "n \<le> 64" "p_bits p = 64 - int n" using 3 by (simp_all add: n_def)
    show thesis
      by (rule wide[where iid = "splitmix64 ((seq XOR p_seed p XOR d) XOR gold)", OF n refl])
         (use n in \<open>simp add: IPForAcct_def Let_def ipForWide_eq[of "64 - int n"]\<close>)
  qed
qed

lemma length_IPForAcct [simp]:
  assumes "pool_wf p"
  shows "length (IPForAcct p seq d start sz) = 16"
  using assms by (cases rule: IPForAcct_cases[OF assms, of seq d start sz]) (simp_all add: pool_wf_def)

lemma isEUI64_and_mask:
  assumes "40 \<le> n"
  shows "isEUI64 (v AND mask n) = isEUI64 v"
  using assms by (auto simp: isEUI64_bits bit_simps)

lemma sanitizeHost_bit_imp: "bit (sanitizeHost v (mask n) (int n)) k \<Longrightarrow> 1 \<le> n \<Longrightarrow> n \<le> 64 \<Longrightarrow> k < n"
  by (rule in_mask_bit[OF sanitizeHost_and_mask])

section \<open>splitmix64 is a permutation\<close>

lemma xorshift_inj:
  fixes x y :: u64
  assumes eq: "x XOR drop_bit k x = y XOR drop_bit k y" and k: "0 < k"
  shows "x = y"
proof (rule bit_word_eqI)
  fix n
  have "bit x n = bit y n" for n
  proof (induction "64 - n" arbitrary: n rule: less_induct)
    case less
    show ?case
    proof (cases "n < 64")
      case True
      then have "64 - (n + k) < 64 - n" using k by simp
      then have "bit x (n + k) = bit y (n + k)" by (rule less)
      moreover have "bit (x XOR drop_bit k x) n = bit (y XOR drop_bit k y) n" by (simp add: eq)
      ultimately show ?thesis using True by (auto simp: bit_simps add.commute)
    next
      case False
      then show ?thesis by (auto dest: bit_imp_le_length)
    qed
  qed
  then show "bit x n = bit y n" .
qed

lemma mult_cancel_inverse:
  fixes x y :: u64
  assumes "x * c = y * c" and "c * d = 1"
  shows "x = y"
proof -
  have "x * (c * d) = y * (c * d)" using assms(1) by (metis mult.assoc)
  then show ?thesis using assms(2) by simp
qed

lemma splitmix64_inj:
  assumes "splitmix64 x = splitmix64 y"
  shows "x = y"
proof -
  let ?a = "\<lambda>x. (x + gold XOR drop_bit 30 (x + gold)) * (0xBF58476D1CE4E5B9 :: u64)"
  let ?b = "\<lambda>z. (z XOR drop_bit 27 z) * (0x94D049BB133111EB :: u64)"
  have "?b (?a x) XOR drop_bit 31 (?b (?a x)) = ?b (?a y) XOR drop_bit 31 (?b (?a y))"
    using assms unfolding splitmix64_def Let_def .
  then have "?b (?a x) = ?b (?a y)" by (rule xorshift_inj) simp
  then have "?a x XOR drop_bit 27 (?a x) = ?a y XOR drop_bit 27 (?a y)"
    by (rule mult_cancel_inverse[where d = 3573116690164977347]) simp
  then have "?a x = ?a y" by (rule xorshift_inj) simp
  then have "x + gold XOR drop_bit 30 (x + gold) = y + gold XOR drop_bit 30 (y + gold)"
    by (rule mult_cancel_inverse[where d = 10871156337175269513]) simp
  then have "x + gold = y + gold" by (rule xorshift_inj) simp
  then show ?thesis by simp
qed

section \<open>Properties\<close>

lemma IPForAcct_prefix:
  assumes wf: "pool_wf p"
  shows "in_prefix (nat (p_bits p)) (p_prefix p) (IPForAcct p seq domain start sz)"
proof (rule in_prefixI)
  have len: "length (p_prefix p) = 16" using wf by (simp add: pool_wf_def)
  show "length (p_prefix p) = 16" "length (IPForAcct p seq domain start sz) = 16" "nat (p_bits p) \<le> 128"
    using wf by (auto simp: pool_wf_def nat_le_iff)
  fix c assume c: "c < nat (p_bits p)"
  show "addr_bit (IPForAcct p seq domain start sz) c = addr_bit (p_prefix p) c"
  proof (cases rule: IPForAcct_cases[OF wf, of seq domain start sz, case_names single narrow wide])
    case (narrow n sub)
    then have "\<not> bit (sanitizeHost v (mask n) (int n)) (127 - c)" for v
      using c sanitizeHost_bit_imp[of v n "127 - c"] by auto
    moreover have "c < 128" using c narrow by simp
    moreover have "127 - (127 - c) = c" using calculation by simp
    ultimately show ?thesis using narrow c len by (auto simp: addr_simps bit_simps)
  next
    case (wide n sub iid)
    then have "c < 64" "\<not> 63 - c < n" using c by auto
    moreover have "\<not> bit (field sub start sz n) (63 - c)"
      using calculation in_mask_bit[OF field_and_mask] by blast
    moreover have "63 - (63 - c) = c" using calculation by simp
    ultimately show ?thesis using wide len by (simp add: addr_simps bit_simps)
  qed simp
qed

text \<open>C4. Every address \<open>IPForAcct\<close> produces, for any sequence number, domain and slice, is a
  16-byte address inside the configured prefix: the first \<open>bits\<close> bits are the prefix's.\<close>

theorem IPForAcct_in_prefix:
  assumes wf: "pool_wf p"
  shows "in_prefix (nat (p_bits p)) (p_prefix p) (IPForAcct p seq domain start sz)"
  using assms by (rule IPForAcct_prefix)

theorem IPForAcct_in_prefix_witness:
  "in_prefix 48 (0x20 # 0x01 # replicate 14 0)
     (IPForAcct \<lparr>p_prefix = 0x20 # 0x01 # replicate 14 0, p_bits = 48, p_seed = 7\<rparr> 1 2 10 5)"
  using IPForAcct_in_prefix[of "\<lparr>p_prefix = 0x20 # 0x01 # replicate 14 0, p_bits = 48, p_seed = 7\<rparr>" 1 2 10 5]
  by (simp add: pool_wf_def)

text \<open>C20. Host-value hygiene of \<open>IPForAcct\<close>: with more than two host bits (prefix length at most 125; smaller
  host spaces are passed through on purpose) the low host value
  (the low 64 bits of the address, or all host bits of a narrower pool) is never 0, 1 or all-ones,
  and where the EUI-64 marker fits in it (40 bits or more) it never carries one.\<close>

theorem IPForAcct_hygiene:
  assumes wf: "pool_wf p" and bits: "p_bits p \<le> 125" and w_def: "w = min 64 (nat (128 - p_bits p))"
  shows "let h = lo64 (IPForAcct p seq domain start sz) in
           h AND mask w \<noteq> 0 \<and> h AND mask w \<noteq> 1 \<and> h AND mask w \<noteq> mask w
           \<and> (40 \<le> w \<longrightarrow> \<not> isEUI64 h)"
proof -
  define x where "x = IPForAcct p seq domain start sz"
  have len: "length (p_prefix p) = 16" using wf by (simp add: pool_wf_def)
  have "\<exists>v. lo64 x AND mask w = sanitizeHost v (mask w) (int w) \<and> 3 \<le> w \<and> w \<le> 64"
  proof (cases rule: IPForAcct_cases[OF wf, of seq domain start sz, case_names single narrow wide])
    case single then show ?thesis using bits by simp
  next
    case (narrow n sub)
    then have w: "w = n" "3 \<le> n" using bits by (simp_all add: w_def)
    have "lo64 x AND mask n = sanitizeHost (field sub start sz n) (mask n) (int n)"
      using narrow len by (simp add: x_def or_low_and_mask sanitizeHost_and_mask)
    then show ?thesis using w narrow by blast
  next
    case (wide n sub iid)
    then have w: "w = 64" by (simp add: w_def)
    have "lo64 x AND mask 64 = sanitizeHost iid (mask 64) (int 64)"
      using wide len sanitizeHost_and_mask[of 64 iid] by (simp add: x_def)
    then show ?thesis using w by auto
  qed
  then obtain v where v: "lo64 x AND mask w = sanitizeHost v (mask w) (int w)" and w: "3 \<le> w" "w \<le> 64"
    by blast
  have "\<not> reserved (lo64 x AND mask w) (mask w) (int w)" "\<not> marked (lo64 x AND mask w) (int w)"
    unfolding v using w by (intro sanitizeHost_not_reserved sanitizeHost_not_marked; simp)+
  then show ?thesis using w isEUI64_and_mask[of w "lo64 x"] by (auto simp: reserved_def marked_def x_def)
qed

theorem IPForAcct_hygiene_witness:
  "\<not> isEUI64 (lo64 (IPForAcct \<lparr>p_prefix = 0x20 # replicate 15 0, p_bits = 64, p_seed = 0\<rparr> 1 0 0 0))"
  using IPForAcct_hygiene[of "\<lparr>p_prefix = 0x20 # replicate 15 0, p_bits = 64, p_seed = 0\<rparr>" 64 1 0 0 0]
  by (simp add: pool_wf_def Let_def)

text \<open>The value of a masked slice pick, without wrap-around.\<close>

lemma field_in_slice:
  assumes sz: "0 < sz" and fit: "unat start + unat sz \<le> 2 ^ n" and n: "n \<le> 64"
  shows "unat (field sub start sz n) \<in> {unat start ..< unat start + unat sz}"
proof -
  have m: "unat (sub mod sz) < unat sz" using sz by (simp add: unat_mod word_gt_0 unat_gt_0)
  have lt: "unat start + unat (sub mod sz) < 2 ^ n" using m fit by simp
  moreover have "(2::nat) ^ n \<le> 2 ^ 64" using n by (rule power_increasing) simp
  ultimately have "unat (start + sub mod sz) = unat start + unat (sub mod sz)"
    by (simp add: unat_word_ariths(1))
  moreover have "unat ((start + sub mod sz) AND mask n) = unat (start + sub mod sz) mod 2 ^ n"
    by (metis take_bit_eq_mask take_bit_eq_mod unsigned_take_bit_eq)
  ultimately show ?thesis using sz m lt by (simp add: field_def)
qed

text \<open>C21. An account slice of a pool with at most 64 host bits is respected when hygiene has nothing to
  change in it: if the slice is not empty, starts at 2 or above, ends below the all-ones value and, in a
  host space of 40 bits or more, contains no EUI-64 marker, then the host number lies in
  \<open>[start, start+size)\<close>.  (A slice of reserved values is left: \<open>IPForAcct_slice_escape\<close>.)\<close>

theorem IPForAcct_slice_narrow:
  assumes wf: "pool_wf p" and n: "p_bits p = 128 - int n" "1 \<le> n" "n \<le> 64"
    and sz: "0 < sz" and lo: "2 \<le> unat start" and hi: "unat start + unat sz < 2 ^ n"
    and eui: "n < 40 \<or> (\<forall>v. unat start \<le> unat v \<and> unat v < unat start + unat sz \<longrightarrow> \<not> isEUI64 v)"
  shows "unat (lo64 (IPForAcct p seq domain start sz) AND mask n)
         \<in> {unat start ..< unat start + unat sz}"
proof (cases rule: IPForAcct_cases[OF wf, of seq domain start sz, case_names single narrow wide])
  case (narrow n' sub)
  then have n': "n' = n" using n(1) by simp
  have len: "length (p_prefix p) = 16" using wf by (simp add: pool_wf_def)
  define f where "f = field sub start sz n"
  have f: "unat f \<in> {unat start ..< unat start + unat sz}"
    unfolding f_def using field_in_slice[OF sz _ n(3)] hi by simp
  have "unat (mask n :: u64) = 2 ^ n - 1" using n(3) by (rule unat_mask64)
  then have "f \<noteq> 0" "f \<noteq> 1" "f \<noteq> mask n" using f lo hi by auto
  moreover have "\<not> marked f (int n)" using eui f by (auto simp: marked_def)
  ultimately have "sanitizeHost f (mask n) (int n) = f"
    using sanitizeHost_closed[OF n(2,3), of f] by (simp add: f_def reserved_def)
  then have "lo64 (IPForAcct p seq domain start sz) AND mask n = f"
    using narrow len unfolding n' by (simp add: f_def or_low_and_mask)
  then show ?thesis using f by simp
qed (use n in simp_all)

theorem IPForAcct_slice_narrow_witness:
  "unat (lo64 (IPForAcct \<lparr>p_prefix = 0x20 # replicate 15 0, p_bits = 120, p_seed = 0\<rparr> 5 0 0xb0 16) AND mask 8)
   \<in> {0xb0 ..< 0xc0}"
  using IPForAcct_slice_narrow[of "\<lparr>p_prefix = 0x20 # replicate 15 0, p_bits = 120, p_seed = 0\<rparr>"
      8 16 "0xb0" 5 0]
  by (simp add: pool_wf_def)

text \<open>In a pool wider than /64 the slice ranges over subnets: the subnet field (the host bits of
  the upper 64) lies in \<open>[start, start+size)\<close> whenever that range fits the field.\<close>

theorem IPForAcct_slice_wide:
  assumes wf: "pool_wf p" and n: "p_bits p = 64 - int n" "1 \<le> n"
    and sz: "0 < sz" and hi: "unat start + unat sz \<le> 2 ^ n"
  shows "unat (hi64 (IPForAcct p seq domain start sz) AND mask n)
         \<in> {unat start ..< unat start + unat sz}"
proof (cases rule: IPForAcct_cases[OF wf, of seq domain start sz, case_names single narrow wide])
  case (wide n' sub iid)
  then have n': "n' = n" using n(1) by simp
  have len: "length (p_prefix p) = 16" using wf by (simp add: pool_wf_def)
  have "hi64 (IPForAcct p seq domain start sz) AND mask n = field sub start sz n"
    using wide len unfolding n' by (simp add: or_low_and_mask)
  moreover have "n \<le> 64" using n wf by (simp add: pool_wf_def)
  ultimately show ?thesis using field_in_slice[OF sz hi, of sub] by simp
qed (use n in simp_all)

theorem IPForAcct_slice_wide_witness:
  "unat (hi64 (IPForAcct \<lparr>p_prefix = 0x2a # replicate 15 0, p_bits = 48, p_seed = 0\<rparr> 5 0 10 5) AND mask 16)
   \<in> {10 ..< 15}"
  using IPForAcct_slice_wide[of "\<lparr>p_prefix = 0x2a # replicate 15 0, p_bits = 48, p_seed = 0\<rparr>" 16 5 10 5 0]
  by (simp add: pool_wf_def)

text \<open>A slice that holds only the reserved value 0 is not respected: in every pool with 3 to 64
  host bits the account slice \<open>[0, 1)\<close> yields host number 2, which lies outside it.\<close>

theorem IPForAcct_slice_escape:
  assumes wf: "pool_wf p" and n: "p_bits p = 128 - int n" "3 \<le> n" "n \<le> 64"
  shows "lo64 (IPForAcct p seq domain 0 1) AND mask n = 2"
proof (cases rule: IPForAcct_cases[OF wf, of seq domain 0 1, case_names single narrow wide])
  case (narrow n' sub)
  then have n': "n' = n" using n(1) by simp
  have len: "length (p_prefix p) = 16" using wf by (simp add: pool_wf_def)
  have f: "field s 0 1 n = 0" for s by (simp add: field_def)
  have "sanitizeHost 0 (mask n) (int n) = 2"
    using sanitizeHost_closed[of n 0] n by (simp add: reserved_def marked_def)
  moreover from this have "2 AND mask n = (2 :: u64)"
    using sanitizeHost_and_mask[of n 0] n by simp
  ultimately show ?thesis using narrow len unfolding n' by (simp add: or_low_and_mask[of 2] f)
qed (use n in simp_all)

theorem IPForAcct_slice_escape_witness:
  "lo64 (IPForAcct \<lparr>p_prefix = 0x20 # replicate 15 0, p_bits = 64, p_seed = 3\<rparr> 9 4 0 1) AND mask 64 = 2"
  using IPForAcct_slice_escape[of "\<lparr>p_prefix = 0x20 # replicate 15 0, p_bits = 64, p_seed = 3\<rparr>" 64 9 4]
  by (simp add: pool_wf_def)

text \<open>C22. The bounded eight-round hygiene loop computes a closed form: a marked value has one marker
  bit flipped, a reserved value becomes 2, every other value is kept; so eight rounds are enough for
  the loop to end by its default branch.\<close>

theorem sanitizeHost_closed_form:
  assumes "1 \<le> n" "n \<le> 64"
  shows "sanitizeHost v (mask n) (int n) =
     (let u = v AND mask n in
      if 40 \<le> n \<and> isEUI64 u then u XOR 0x0000000200000000
      else if 2 < n \<and> u \<in> {0, 1, mask n} then 2 else u)"
  using sanitizeHost_closed[OF assms, of v] by (auto simp: Let_def reserved_def marked_def)

theorem sanitizeHost_closed_form_witness:
  "sanitizeHost 255 (mask 8) (int 8) = 2"
  using sanitizeHost_closed_form[of 8 255] by (simp add: mask_numeral)

text \<open>\<open>splitmix64\<close> is a permutation of the 64-bit values, so consecutive sequence numbers never
  collide before hygiene, and two accounts with different indices never share a stream domain.\<close>

theorem splitmix64_permutation:
  "bij splitmix64 \<and> (AccountDomain p i = AccountDomain p j \<longleftrightarrow> i = j)"
proof
  have "inj splitmix64" by (rule injI) (rule splitmix64_inj)
  then show "bij splitmix64" using finite_UNIV_inj_surj[of splitmix64] by (simp add: bij_def)
  have "i = j" if "gold * (i + 1) = gold * (j + 1)"
  proof -
    have "(i + 1) * gold = (j + 1) * gold" using that by (simp add: mult.commute)
    then have "i + 1 = j + 1"
      by (rule mult_cancel_inverse[where d = 17428512612931826493]) (simp add: gold_def)
    then show ?thesis by simp
  qed
  moreover have "gold * (i + 1) = gold * (j + 1)" if "AccountDomain p i = AccountDomain p j"
  proof -
    have "p_seed p XOR (gold * (i + 1)) = p_seed p XOR (gold * (j + 1))"
      using that unfolding AccountDomain_def by (rule splitmix64_inj)
    then have "p_seed p XOR (p_seed p XOR (gold * (i + 1))) = p_seed p XOR (p_seed p XOR (gold * (j + 1)))"
      by simp
    then show ?thesis by (simp add: xor.assoc[symmetric])
  qed
  ultimately show "AccountDomain p i = AccountDomain p j \<longleftrightarrow> i = j" by blast
qed

end
