(* ===== verification/Pool_Cycle.thy ===== *)
theory Pool_Cycle
  imports Pool
begin

text \<open>
  \<open>internal/pool/pool.go\<close>, second half: \<open>Stream\<close>, the breadth-first rotation cycle of one
  (account, destination) pair.  The state is the code's three 64-bit pairs (position, stride,
  mask); the proofs read each pair as one 128-bit word.  \<open>at\<close> maps a position to an address,
  \<open>advance\<close> adds the stride, \<open>Next\<close> skips positions that need hygiene.
\<close>

section \<open>Data and operations\<close>

record stream =
  s_prefix :: "byte list"
  s_bits :: int
  s_width :: int
  posHi :: u64
  posLo :: u64
  strHi :: u64
  strLo :: u64
  mskHi :: u64
  mskLo :: u64

definition mix :: "pool \<Rightarrow> u64 \<Rightarrow> u64 \<Rightarrow> u64 \<Rightarrow> u64" where
  "mix p domain tweak salt = splitmix64 (p_seed p XOR domain XOR tweak XOR salt)"

definition NewStream :: "pool \<Rightarrow> u64 \<Rightarrow> u64 \<Rightarrow> stream" where
  "NewStream p domain tweak =
     (let s = \<lparr>s_prefix = p_prefix p, s_bits = p_bits p, s_width = 128 - p_bits p,
               posHi = mix p domain tweak 0x10, posLo = mix p domain tweak 0x11,
               strHi = mix p domain tweak 0x12, strLo = mix p domain tweak 0x13 OR 1,
               mskHi = mix p domain tweak 0x14, mskLo = mix p domain tweak 0x15\<rparr>
      in if s_width s \<ge> 128 then s
         else if s_width s > 64
         then s\<lparr>mskHi := mskHi s AND (push_bit (nat (s_width s - 64)) 1 - 1)\<rparr>
         else s\<lparr>mskHi := 0\<rparr>)"

definition advance :: "stream \<Rightarrow> stream" where
  "advance s =
     (let lo = posLo s + strLo s;
          carry = (if lo < posLo s then 1 else 0)
      in s\<lparr>posLo := lo, posHi := posHi s + (strHi s + carry)\<rparr>)"

text \<open>\<open>b[i] |= 1 << shift\<close>, or \<open>b[i] &^= 1 << shift\<close>.\<close>

definition setAddrBit :: "byte list \<Rightarrow> nat \<Rightarrow> u64 \<Rightarrow> byte list" where
  "setAddrBit b n v =
     (let i = n div 8; shift = 7 - n mod 8
      in if v = 1 then b[i := b ! i OR push_bit shift 1]
         else b[i := b ! i AND NOT (push_bit shift 1)])"

definition pair_bit :: "u64 \<Rightarrow> u64 \<Rightarrow> nat \<Rightarrow> u64" where
  "pair_bit hi lo k =
     (if k < 64 then drop_bit k lo AND 1 else drop_bit (k - 64) hi AND 1)"

definition at :: "stream \<Rightarrow> u64 \<Rightarrow> u64 \<Rightarrow> ip" where
  "at s hi lo =
     fold (\<lambda>k addr.
             let ebit = pair_bit hi lo k;
                 j = nat (s_width s) - 1 - k;
                 mbit = pair_bit (mskHi s) (mskLo s) j
             in setAddrBit addr (nat (s_bits s) + k) (ebit XOR mbit))
          [0..<nat (s_width s)] (s_prefix s)"

definition hostValue :: "int \<Rightarrow> ip \<Rightarrow> u64 \<times> u64" where
  "hostValue width b =
     (let lo = lo64 b
      in if width \<le> 64
         then (0, if width < 64 then lo AND (push_bit (nat width) 1 - 1) else lo)
         else let hi = hi64 b
              in (if width < 128 then hi AND (push_bit (nat (width - 64)) 1 - 1) else hi, lo))"

definition isAllOnes :: "int \<Rightarrow> u64 \<Rightarrow> u64 \<Rightarrow> bool" where
  "isAllOnes width hi lo =
     (if lo \<noteq> NOT 0 then False
      else if width \<le> 64 then True
      else if width \<ge> 128 then hi = NOT 0
      else hi = push_bit (nat (width - 64)) 1 - 1)"

definition needsHygiene :: "int \<Rightarrow> ip \<Rightarrow> bool" where
  "needsHygiene width x =
     (let b = To16 x
      in if b = [] then True
         else if width > 2 \<and>
                 (let (hi, lo) = hostValue width b
                  in (hi = 0 \<and> lo = 0) \<or> (hi = 0 \<and> lo = 1) \<or> isAllOnes width hi lo)
         then True
         else if width \<ge> 40 \<and> isEUI64 (lo64 b) then True
         else False)"

definition maxCycleSkips :: nat where
  "maxCycleSkips = 8"

text \<open>The skip loop of \<open>Next\<close>: at most \<open>n\<close> more skips; address, skips so far and state.\<close>

fun skip_loop :: "nat \<Rightarrow> stream \<Rightarrow> ip \<Rightarrow> nat \<Rightarrow> ip \<times> nat \<times> stream" where
  "skip_loop 0 s x skipped = (x, skipped, s)"
| "skip_loop (Suc n) s x skipped =
     (if needsHygiene (s_width s) x
      then let s' = advance s in skip_loop n s' (at s' (posHi s') (posLo s')) (skipped + 1)
      else (x, skipped, s))"

definition Next :: "stream \<Rightarrow> ip \<times> nat \<times> stream" where
  "Next s =
     (let (x, skipped, s') = skip_loop maxCycleSkips s (at s (posHi s) (posLo s)) 0
      in (x, skipped, advance s'))"

section \<open>The 128-bit reading\<close>

type_synonym u128 = "128 word"

definition pair128 :: "u64 \<Rightarrow> u64 \<Rightarrow> u128" where
  "pair128 hi lo = push_bit 64 (ucast hi) OR ucast lo"

definition position :: "stream \<Rightarrow> u128" where
  "position s = pair128 (posHi s) (posLo s)"

definition stride :: "stream \<Rightarrow> u128" where
  "stride s = pair128 (strHi s) (strLo s)"

definition cmask :: "stream \<Rightarrow> u128" where
  "cmask s = pair128 (mskHi s) (mskLo s)"

text \<open>Well-formed cycles: a 16-byte prefix, host bits that complement the prefix bits, an odd
  stride.\<close>

definition stream_wf :: "stream \<Rightarrow> bool" where
  "stream_wf s \<longleftrightarrow> length (s_prefix s) = 16 \<and> 0 \<le> s_bits s \<and> s_bits s \<le> 128
     \<and> s_width s = 128 - s_bits s \<and> odd (strLo s)"

lemma bits_width: "stream_wf s \<Longrightarrow> nat (s_bits s) + nat (s_width s) = 128"
  by (simp add: stream_wf_def flip: nat_add_distrib)

lemma bit_pair128: "bit (pair128 hi lo) k \<longleftrightarrow> (if k < 64 then bit lo k else bit hi (k - 64))"
  by (auto simp: pair128_def bit_simps dest: bit_imp_le_length)

lemma unat64_less: "unat (x :: u64) < 18446744073709551616"
  using unsigned_less[of x] by simp

lemma pair128_nat: "pair128 hi lo = word_of_nat (unat hi * 2 ^ 64 + unat lo)"
proof -
  have "pair128 hi lo = push_bit 64 (ucast hi) + ucast lo"
    unfolding pair128_def
    by (rule disjunctive_add[symmetric]) (auto simp: bit_simps dest: bit_imp_le_length)
  then show ?thesis by (simp add: push_bit_eq_mult)
qed

lemma word_of_nat_carry: "word_of_nat (n + q * 2 ^ 128) = (word_of_nat n :: u128)"
proof -
  have "(2 :: u128) ^ 128 = 0" by simp
  then show ?thesis by (simp only: of_nat_add of_nat_mult of_nat_power of_nat_numeral) simp
qed

text \<open>The two-word addition with carry is 128-bit addition.\<close>

lemma position_advance: "position (advance s) = position s + stride s"
proof -
  let ?a = "unat (posHi s)" and ?b = "unat (posLo s)" and ?c = "unat (strHi s)" and ?d = "unat (strLo s)"
  define cy :: nat where "cy = (?b + ?d) div 2 ^ 64"
  have lt: "?b < 2 ^ 64" "?d < 2 ^ 64" using unat64_less by simp_all
  have lo: "unat (posLo s + strLo s) + cy * 2 ^ 64 = ?b + ?d" and cy: "cy = 0 \<or> cy = 1"
    using lt by (auto simp: unat_word_ariths cy_def)
  have carry: "posLo s + strLo s < posLo s \<longleftrightarrow> cy = 1"
    using lo cy lt by (auto simp: word_less_nat_alt)
  define w where "w = posHi s + (strHi s + word_of_nat cy)"
  define q where "q = (?a + ?c + cy) div 2 ^ 64"
  have "unat w = (?a + ?c + cy) mod 2 ^ 64"
  proof -
    have "w = word_of_nat (?a + ?c + cy)" by (simp add: w_def)
    then show ?thesis by (simp only: unat_of_nat) simp
  qed
  then have w: "unat w + q * 2 ^ 64 = ?a + ?c + cy" unfolding q_def by presburger
  have "position (advance s) = pair128 w (posLo s + strLo s)"
    using cy carry by (auto simp: position_def advance_def Let_def w_def)
  also have "\<dots> = word_of_nat (unat w * 2 ^ 64 + unat (posLo s + strLo s) + q * 2 ^ 128)"
    by (simp only: pair128_nat word_of_nat_carry)
  also have "unat w * 2 ^ 64 + unat (posLo s + strLo s) + q * 2 ^ 128
             = (?a * 2 ^ 64 + ?b) + (?c * 2 ^ 64 + ?d)"
    using w lo by simp
  also have "word_of_nat \<dots> = position s + stride s"
    by (simp only: position_def stride_def pair128_nat of_nat_add)
  finally show ?thesis .
qed

lemma advance_simps [simp]:
  "s_prefix (advance s) = s_prefix s" "s_bits (advance s) = s_bits s"
  "s_width (advance s) = s_width s" "stride (advance s) = stride s" "cmask (advance s) = cmask s"
  "mskHi (advance s) = mskHi s" "mskLo (advance s) = mskLo s" "strLo (advance s) = strLo s"
  by (simp_all add: advance_def Let_def stride_def cmask_def)

lemma advance_pow_simps [simp]:
  "s_prefix ((advance ^^ i) s) = s_prefix s" "s_bits ((advance ^^ i) s) = s_bits s"
  "s_width ((advance ^^ i) s) = s_width s" "stride ((advance ^^ i) s) = stride s"
  "cmask ((advance ^^ i) s) = cmask s" "strLo ((advance ^^ i) s) = strLo s"
  by (induction i) simp_all

lemma stream_wf_advance [simp]: "stream_wf (advance s) = stream_wf s"
  by (simp add: stream_wf_def)

lemma stream_wf_advance_pow [simp]: "stream_wf ((advance ^^ i) s) = stream_wf s"
  by (induction i) simp_all

lemma position_advance_pow: "position ((advance ^^ i) s) = position s + of_nat i * stride s"
  by (induction i) (simp_all add: position_advance algebra_simps)

section \<open>The address of a position\<close>

lemma length_setAddrBit [simp]: "length (setAddrBit b n v) = length b"
  by (simp add: setAddrBit_def Let_def)

lemma addr_bit_setAddrBit [addr_simps]:
  assumes "length b = 16" "n < 128" "c < 128"
  shows "addr_bit (setAddrBit b n v) c = (if c = n then v = 1 else addr_bit b c)"
proof (cases "c div 8 = n div 8")
  case True
  then have i: "n div 8 < length b" using assms by simp
  have "c = n \<longleftrightarrow> 7 - n mod 8 = 7 - c mod 8"
  proof
    assume "7 - n mod 8 = 7 - c mod 8"
    moreover have "n mod 8 < 8" "c mod 8 < 8" by simp_all
    ultimately have "n mod 8 = c mod 8" by linarith
    with True show "c = n" by (metis div_mult_mod_eq)
  qed simp
  moreover have "7 - c mod 8 < 8" by simp
  ultimately show ?thesis using True i
    by (auto simp: addr_bit_def setAddrBit_def Let_def bit_simps)
next
  case False
  then have "c \<noteq> n" by auto
  with False show ?thesis by (simp add: addr_bit_def setAddrBit_def Let_def)
qed

lemma pair_bit_eq: "pair_bit hi lo k = of_bool (bit (pair128 hi lo) k)"
  by (rule bit_word_eqI) (auto simp: pair_bit_def bit_pair128 bit_simps)

lemma of_bool_xor: "(of_bool a XOR of_bool b :: u64) = of_bool (a \<noteq> b)"
  by (cases a; cases b) simp_all

lemma addr_bit_fold_set:
  assumes "length a = 16" "\<forall>k \<in> set ks. B + k < 128" "c < 128"
  shows "addr_bit (fold (\<lambda>k addr. setAddrBit addr (B + k) (of_bool (f k))) ks a) c =
           (if c \<in> (+) B ` set ks then f (c - B) else addr_bit a c)"
  using assms(1,2)
proof (induction ks arbitrary: a)
  case (Cons k ks)
  have "addr_bit (fold (\<lambda>k addr. setAddrBit addr (B + k) (of_bool (f k))) (k # ks) a) c =
        (if c \<in> (+) B ` set ks then f (c - B) else addr_bit (setAddrBit a (B + k) (of_bool (f k))) c)"
    using Cons.IH[of "setAddrBit a (B + k) (of_bool (f k))"] Cons.prems by simp
  also have "\<dots> = (if c \<in> (+) B ` set (k # ks) then f (c - B) else addr_bit a c)"
    using Cons.prems assms(3) by (auto simp: addr_bit_setAddrBit)
  finally show ?case .
qed simp

lemma length_fold_set: "length (fold (\<lambda>k addr. setAddrBit addr (B + k) (f k)) ks a) = length a"
  by (induction ks arbitrary: a) simp_all

lemma at_eq:
  "at s hi lo = fold (\<lambda>k addr. setAddrBit addr (nat (s_bits s) + k)
       (of_bool (bit (pair128 hi lo) k \<noteq> bit (cmask s) (nat (s_width s) - 1 - k))))
     [0..<nat (s_width s)] (s_prefix s)"
  by (simp add: at_def Let_def pair_bit_eq of_bool_xor cmask_def)

lemma length_at: "length (at s hi lo) = length (s_prefix s)"
  by (simp only: at_eq length_fold_set)

lemma at_bit:
  assumes wf: "stream_wf s" and c: "c < 128"
  shows "addr_bit (at s hi lo) c =
     (if c < nat (s_bits s) then addr_bit (s_prefix s) c
      else bit (pair128 hi lo) (c - nat (s_bits s)) \<noteq> bit (cmask s) (127 - c))"
proof -
  have b: "nat (s_bits s) + nat (s_width s) = 128" using wf by (rule bits_width)
  have "c \<in> (+) (nat (s_bits s)) ` set [0..<nat (s_width s)] \<longleftrightarrow> nat (s_bits s) \<le> c"
    using b c by (auto simp: image_iff intro!: bexI[of _ "c - nat (s_bits s)"])
  moreover have "nat (s_width s) - 1 - (c - nat (s_bits s)) = 127 - c" if "nat (s_bits s) \<le> c"
    using b that by simp
  ultimately show ?thesis
    unfolding at_eq using wf b c
    by (subst addr_bit_fold_set) (auto simp: stream_wf_def)
qed

text \<open>The address at the \<open>i\<close>-th position from here.\<close>

definition visit :: "stream \<Rightarrow> nat \<Rightarrow> ip" where
  "visit s i = (let t = (advance ^^ i) s in at t (posHi t) (posLo t))"

lemma length_visit [simp]: "stream_wf s \<Longrightarrow> length (visit s i) = 16"
  by (simp add: visit_def Let_def length_at stream_wf_def)

lemma visit_bit:
  assumes "stream_wf s" "c < 128"
  shows "addr_bit (visit s i) c =
     (if c < nat (s_bits s) then addr_bit (s_prefix s) c
      else bit (position s + of_nat i * stride s) (c - nat (s_bits s)) \<noteq> bit (cmask s) (127 - c))"
  using assms by (simp add: visit_def Let_def at_bit flip: position_def position_advance_pow)

lemma visit_advance: "visit (advance s) i = visit s (Suc i)"
  by (simp add: visit_def funpow_Suc_right del: funpow.simps)

lemma visit_advance_pow: "visit ((advance ^^ j) s) i = visit s (j + i)"
  by (induction j arbitrary: i) (simp_all add: visit_advance)

section \<open>Breadth-first coverage\<close>

text \<open>With an odd stride the low \<open>k\<close> bits of the position run through all residues.\<close>

lemma odd_stride:
  assumes "stream_wf s"
  shows "odd (unat (stride s))"
proof -
  have "bit (stride s) 0 \<longleftrightarrow> bit (strLo s) 0" by (simp only: stride_def bit_pair128) simp
  then have "bit (unat (stride s)) 0"
    using assms by (simp only: bit_unsigned_iff stream_wf_def) (simp add: bit_0)
  then show ?thesis unfolding bit_0 .
qed

lemma low_bits_eq:
  fixes a b :: "'a::len word"
  shows "take_bit k a = take_bit k b \<longleftrightarrow> (\<forall>d<k. bit a d = bit b d)"
proof
  assume "take_bit k a = take_bit k b"
  then have "bit (take_bit k a) d = bit (take_bit k b) d" for d by simp
  then show "\<forall>d<k. bit a d = bit b d" by (auto simp: bit_take_bit_iff)
next
  assume "\<forall>d<k. bit a d = bit b d"
  then show "take_bit k a = take_bit k b"
    by (intro bit_word_eqI) (auto simp: bit_take_bit_iff)
qed

lemma take_bit_positions:
  fixes P S :: u128
  assumes "odd (unat S)" "k \<le> 128"
  shows "take_bit k (P + of_nat i * S) = take_bit k (P + of_nat j * S) \<longleftrightarrow> i mod 2 ^ k = j mod 2 ^ k"
proof -
  let ?p = "int (unat P)" and ?q = "int (unat S)"
  have eq: "unat (take_bit k (P + of_nat i * S)) = take_bit k (unat P + i * unat S)" for i
  proof -
    have "P + of_nat i * S = word_of_nat (unat P + i * unat S)" by simp
    then show ?thesis using assms(2) by (simp only: unsigned_take_bit_eq unsigned_of_nat) simp
  qed
  have "take_bit k (P + of_nat i * S) = take_bit k (P + of_nat j * S) \<longleftrightarrow>
        take_bit k (unat P + i * unat S) = take_bit k (unat P + j * unat S)"
    unfolding eq[symmetric] by (rule word_unat_eq_iff)
  also have "\<dots> \<longleftrightarrow> take_bit k (?p + int i * ?q) = take_bit k (?p + int j * ?q)"
  proof -
    have "take_bit k (?p + int i * ?q) = int (take_bit k (unat P + i * unat S))" for i
      by (simp add: of_nat_take_bit)
    then show ?thesis by (simp only: of_nat_eq_iff)
  qed
  also have "\<dots> \<longleftrightarrow> 2 ^ k dvd (?p + int i * ?q) - (?p + int j * ?q)"
    by (simp only: take_bit_eq_mod mod_eq_dvd_iff)
  also have "(?p + int i * ?q) - (?p + int j * ?q) = (int i - int j) * ?q" by (simp add: algebra_simps)
  also have "2 ^ k dvd (int i - int j) * ?q \<longleftrightarrow> 2 ^ k dvd int i - int j"
  proof (rule coprime_dvd_mult_left_iff)
    have "odd ?q" using assms(1) by (simp only: even_of_nat not_False_eq_True)
    then show "coprime (2 ^ k) ?q" by (simp only: coprime_power_left_iff coprime_left_2_iff_odd) simp
  qed
  also have "\<dots> \<longleftrightarrow> int i mod 2 ^ k = int j mod 2 ^ k" by (simp only: mod_eq_dvd_iff)
  also have "\<dots> \<longleftrightarrow> i mod 2 ^ k = j mod 2 ^ k"
  proof -
    have "int x mod 2 ^ k = int (x mod 2 ^ k)" for x by (simp add: of_nat_mod)
    then show ?thesis by (simp only: of_nat_eq_iff)
  qed
  finally show ?thesis .
qed

text \<open>The group of an address at level \<open>n\<close>: its first \<open>n\<close> bits.\<close>

definition aggregate :: "nat \<Rightarrow> ip \<Rightarrow> bool list" where
  "aggregate n x = take n (addr_bits x)"

lemma group_eq_iff:
  assumes "length x = 16" "length y = 16" "n \<le> 128"
  shows "aggregate n x = aggregate n y \<longleftrightarrow> (\<forall>c<n. addr_bit x c = addr_bit y c)"
  using assms by (auto simp: aggregate_def list_eq_iff_nth_eq addr_simps)

lemma visit_group_eq:
  assumes wf: "stream_wf s" and k: "nat (s_bits s) + k \<le> 128"
  shows "aggregate (nat (s_bits s) + k) (visit s i) = aggregate (nat (s_bits s) + k) (visit s j)
     \<longleftrightarrow> i mod 2 ^ k = j mod 2 ^ k"
proof -
  let ?B = "nat (s_bits s)" and ?p = "\<lambda>i. position s + of_nat i * stride s"
  have "aggregate (?B + k) (visit s i) = aggregate (?B + k) (visit s j) \<longleftrightarrow>
        (\<forall>c<?B + k. addr_bit (visit s i) c = addr_bit (visit s j) c)"
    using wf k by (intro group_eq_iff) simp_all
  also have "\<dots> \<longleftrightarrow> (\<forall>d<k. bit (?p i) d = bit (?p j) d)"
  proof
    assume *: "\<forall>c<?B + k. addr_bit (visit s i) c = addr_bit (visit s j) c"
    show "\<forall>d<k. bit (?p i) d = bit (?p j) d"
    proof (rule allI, rule impI)
      fix d assume d: "d < k"
      then have "addr_bit (visit s i) (?B + d) = addr_bit (visit s j) (?B + d)" using * by simp
      then show "bit (?p i) d = bit (?p j) d" using d k by (auto simp: visit_bit[OF wf])
    qed
  next
    assume *: "\<forall>d<k. bit (?p i) d = bit (?p j) d"
    show "\<forall>c<?B + k. addr_bit (visit s i) c = addr_bit (visit s j) c"
    proof (rule allI, rule impI)
      fix c assume c: "c < ?B + k"
      show "addr_bit (visit s i) c = addr_bit (visit s j) c"
        using c k * by (cases "c < ?B") (simp_all add: visit_bit[OF wf])
    qed
  qed
  also have "\<dots> \<longleftrightarrow> take_bit k (?p i) = take_bit k (?p j)"
    by (rule low_bits_eq[symmetric])
  also have "\<dots> \<longleftrightarrow> i mod 2 ^ k = j mod 2 ^ k"
    using odd_stride[OF wf] k by (intro take_bit_positions) simp_all
  finally show ?thesis .
qed

lemma visit_eq_iff:
  assumes wf: "stream_wf s"
  shows "visit s i = visit s j \<longleftrightarrow> i mod 2 ^ nat (s_width s) = j mod 2 ^ nat (s_width s)"
proof -
  have "visit s i = visit s j \<longleftrightarrow> aggregate 128 (visit s i) = aggregate 128 (visit s j)"
    using wf by (simp add: addr_bits_eq_iff group_eq_iff)
  with visit_group_eq[OF wf, of "nat (s_width s)" i j] bits_width[OF wf] show ?thesis by simp
qed

lemma visit_in_prefix: "stream_wf s \<Longrightarrow> in_prefix (nat (s_bits s)) (s_prefix s) (visit s i)"
  by (rule in_prefixI) (auto simp: visit_bit stream_wf_def)

lemma stream_wf_NewStream [simp]:
  assumes "pool_wf p"
  shows "stream_wf (NewStream p domain tweak)"
  using assms by (auto simp: stream_wf_def NewStream_def Let_def pool_wf_def even_or_iff)

lemma NewStream_simps [simp]:
  "s_prefix (NewStream p domain tweak) = p_prefix p" "s_bits (NewStream p domain tweak) = p_bits p"
  "s_width (NewStream p domain tweak) = 128 - p_bits p"
  by (simp_all add: NewStream_def Let_def)

text \<open>The groups at level \<open>n + k\<close> below an \<open>n\<close>-bit prefix.\<close>

definition groups_below :: "nat \<Rightarrow> ip \<Rightarrow> nat \<Rightarrow> bool list set" where
  "groups_below n pre k = {g. length g = n + k \<and> take n g = aggregate n pre}"

lemma groups_below_eq:
  assumes "length pre = 16" "n \<le> 128"
  shows "groups_below n pre k = (@) (aggregate n pre) ` {h. length h = k}"
proof (intro equalityI subsetI)
  fix g assume "g \<in> groups_below n pre k"
  then have "g = aggregate n pre @ drop n g" "length (drop n g) = k"
    using append_take_drop_id[of n g] by (simp_all add: groups_below_def)
  then show "g \<in> (@) (aggregate n pre) ` {h. length h = k}" by blast
next
  have "length (aggregate n pre) = n" using assms by (simp add: aggregate_def)
  moreover fix g assume "g \<in> (@) (aggregate n pre) ` {h. length h = k}"
  ultimately show "g \<in> groups_below n pre k" by (auto simp: groups_below_def)
qed

lemma card_groups_below:
  assumes "length pre = 16" "n \<le> 128"
  shows "finite (groups_below n pre k)" "card (groups_below n pre k) = 2 ^ k"
proof -
  have "finite {h :: bool list. length h = k}" "card {h :: bool list. length h = k} = 2 ^ k"
    using finite_lists_length_eq[of "UNIV :: bool set" k] card_lists_length_eq[of "UNIV :: bool set" k]
    by simp_all
  moreover have "inj_on ((@) (aggregate n pre)) {h. length h = k}" by (simp add: inj_on_def)
  ultimately show "finite (groups_below n pre k)" "card (groups_below n pre k) = 2 ^ k"
    unfolding groups_below_eq[OF assms] by (simp_all add: card_image)
qed

lemma mod_inj_window:
  assumes "(i::nat) mod m = j mod m" "n \<le> i" "i < n + m" "n \<le> j" "j < n + m"
  shows "i = j"
proof -
  have "j = i" if "i mod m = j mod m" "i \<le> j" "j < n + m" "n \<le> i" for i j
  proof -
    from that have "m dvd j - i" by (metis mod_eq_dvd_iff_nat)
    moreover have "j - i < m" using that by linarith
    ultimately show ?thesis using that(2) by (auto dest: dvd_imp_le)
  qed
  then show ?thesis using assms by (metis nat_le_linear)
qed

lemma cycle_coverage:
  assumes wf: "stream_wf s" and k: "k \<le> nat (s_width s)"
  shows "bij_betw (\<lambda>i. aggregate (nat (s_bits s) + k) (visit s i)) {n..<n + 2 ^ k}
           (groups_below (nat (s_bits s)) (s_prefix s) k)"
proof -
  let ?B = "nat (s_bits s)" and ?g = "\<lambda>i. aggregate (nat (s_bits s) + k) (visit s i)"
  have bk: "?B + k \<le> 128" using bits_width[OF wf] k by linarith
  have pre: "length (s_prefix s) = 16" using wf by (simp add: stream_wf_def)
  have inj: "inj_on ?g {n..<n + 2 ^ k}"
    by (rule inj_onI) (auto simp: visit_group_eq[OF wf bk] intro: mod_inj_window)
  have "?g i \<in> groups_below ?B (s_prefix s) k" for i
    using visit_in_prefix[OF wf, of i] bk by (simp add: groups_below_def aggregate_def in_prefix_def min_def)
  then have sub: "?g ` {n..<n + 2 ^ k} \<subseteq> groups_below ?B (s_prefix s) k" by blast
  have "card (?g ` {n..<n + 2 ^ k}) = card (groups_below ?B (s_prefix s) k)"
    using card_groups_below(2)[OF pre] bk inj by (simp add: card_image)
  with sub card_groups_below(1)[OF pre] bk
  have "?g ` {n..<n + 2 ^ k} = groups_below ?B (s_prefix s) k"
    by (intro card_subset_eq) simp_all
  with inj show ?thesis by (simp add: bij_betw_def)
qed

section \<open>Properties\<close>

text \<open>C1. Exact breadth-first rotation: from any point \<open>n\<close> of a cycle, the next \<open>2^k\<close> positions visit
  every aggregate of length \<open>bits + k\<close> below the prefix exactly once, for every level \<open>k\<close>.\<close>

theorem cycle_exact_cascade:
  assumes wf: "stream_wf s" and k: "k \<le> nat (s_width s)"
  shows "bij_betw (\<lambda>i. aggregate (nat (s_bits s) + k) (visit s i)) {n..<n + 2 ^ k}
           (groups_below (nat (s_bits s)) (s_prefix s) k)"
  using assms by (rule cycle_coverage)

theorem cycle_exact_cascade_witness:
  "bij_betw (\<lambda>i. aggregate 60 (visit (NewStream \<lparr>p_prefix = replicate 16 0, p_bits = 48, p_seed = 1\<rparr> 2 3) i))
     {5..<5 + 2 ^ 12} (groups_below 48 (replicate 16 0) 12)"
  using cycle_exact_cascade[of "NewStream \<lparr>p_prefix = replicate 16 0, p_bits = 48, p_seed = 1\<rparr> 2 3" 12 5]
  by (simp add: pool_wf_def)

text \<open>What one skip loop does: it stops at the first clean position, or after \<open>n\<close> skips.\<close>

lemma skip_loop_visit:
  assumes "skip_loop n s (visit s 0) m = (x, k, t)"
  shows "\<exists>j \<le> n. k = m + j \<and> x = visit s j \<and> t = (advance ^^ j) s
           \<and> (\<forall>i<j. needsHygiene (s_width s) (visit s i))
           \<and> (j < n \<longrightarrow> \<not> needsHygiene (s_width s) x)"
  using assms
proof (induction n arbitrary: s m)
  case (Suc n)
  show ?case
  proof (cases "needsHygiene (s_width s) (visit s 0)")
    case True
    have "visit s (Suc 0) = visit (advance s) 0" by (simp add: visit_advance)
    also have "\<dots> = at (advance s) (posHi (advance s)) (posLo (advance s))"
      by (simp add: visit_def Let_def)
    finally have "skip_loop n (advance s) (visit (advance s) 0) (m + 1) = (x, k, t)"
      using Suc.prems True by (simp add: Let_def visit_advance)
    from Suc.IH[OF this] obtain j where j: "j \<le> n" "k = m + 1 + j" "x = visit s (Suc j)"
      "t = (advance ^^ j) (advance s)" "\<forall>i<j. needsHygiene (s_width s) (visit s (Suc i))"
      "j < n \<longrightarrow> \<not> needsHygiene (s_width s) x"
      by (auto simp: visit_advance)
    then have "\<forall>i<Suc j. needsHygiene (s_width s) (visit s i)"
      using True by (auto simp: less_Suc_eq_0_disj)
    with j show ?thesis
      by (intro exI[of _ "Suc j"]) (simp add: funpow_Suc_right del: funpow.simps)
  next
    case False
    with Suc.prems show ?thesis by (intro exI[of _ 0]) auto
  qed
qed auto

lemma Next_visit:
  assumes "Next s = (x, k, t)"
  shows "k \<le> maxCycleSkips \<and> x = visit s k \<and> t = (advance ^^ Suc k) s
    \<and> (\<forall>i<k. needsHygiene (s_width s) (visit s i))
    \<and> (k < maxCycleSkips \<longrightarrow> \<not> needsHygiene (s_width s) x)"
proof -
  obtain y m u where sl: "skip_loop maxCycleSkips s (visit s 0) 0 = (y, m, u)"
    by (metis prod_cases3)
  then have "x = y" "k = m" "t = advance u"
    using assms by (simp_all add: Next_def visit_def)
  with skip_loop_visit[OF sl] show ?thesis by auto
qed

text \<open>C19. \<open>Next\<close> returns the first address from the current position that needs no hygiene, or the
  ninth address when the eight before it all do; it reports the number of skipped positions and leaves
  the cycle one stride behind the returned position.\<close>

theorem Next_first_clean:
  "case Next s of (x, k, t) \<Rightarrow>
     k \<le> 8 \<and> x = visit s k \<and> t = (advance ^^ (k + 1)) s
     \<and> list_all (\<lambda>i. needsHygiene (s_width s) (visit s i)) [0..<k]
     \<and> (k = 8 \<or> \<not> needsHygiene (s_width s) x)"
proof -
  obtain x k t where "Next s = (x, k, t)" by (metis prod_cases3)
  with Next_visit[OF this] show ?thesis by (auto simp: list_all_iff maxCycleSkips_def)
qed

theorem Next_first_clean_witness:
  "fst (snd (Next (NewStream \<lparr>p_prefix = replicate 16 0, p_bits = 64, p_seed = 1\<rparr> 2 3))) \<le> 8"
  using Next_first_clean[of "NewStream \<lparr>p_prefix = replicate 16 0, p_bits = 64, p_seed = 1\<rparr> 2 3"]
  by (simp split: prod.splits)

text \<open>A run of \<open>n\<close> picks of one cycle: the addresses, the skips in total, and the final state.\<close>

fun picks :: "nat \<Rightarrow> stream \<Rightarrow> ip list \<times> nat \<times> stream" where
  "picks 0 s = ([], 0, s)"
| "picks (Suc n) s =
     (let (x, k, s1) = Next s; (xs, m, s2) = picks n s1 in (x # xs, k + m, s2))"

lemma picks_visits:
  "picks n s = (xs, m, t) \<Longrightarrow>
     \<exists>ps. xs = map (visit s) ps \<and> length ps = n \<and> sorted_wrt (<) ps \<and> (\<forall>q \<in> set ps. q < n + m)"
proof (induction n arbitrary: s xs m t)
  case (Suc n)
  obtain x k s1 where nx: "Next s = (x, k, s1)" by (metis prod_cases3)
  obtain ys m' s2 where ps: "picks n s1 = (ys, m', s2)" by (metis prod_cases3)
  from Suc.prems nx ps have eq: "xs = x # ys" "m = k + m'" by auto
  from Next_visit[OF nx] have x: "x = visit s k" "s1 = (advance ^^ Suc k) s" by simp_all
  from Suc.IH[OF ps] obtain qs where qs: "ys = map (visit s1) qs" "length qs = n"
    "sorted_wrt (<) qs" "\<forall>q \<in> set qs. q < n + m'" by blast
  have "ys = map (visit s) (map (\<lambda>q. Suc k + q) qs)"
    unfolding qs(1) x(2) by (simp add: visit_advance_pow del: funpow.simps)
  then show ?case
    using qs eq x(1) by (intro exI[of _ "k # map (\<lambda>q. Suc k + q) qs"]) (auto simp: sorted_wrt_map)
qed simp

text \<open>C11. No address repeats within one period: any number of picks of a cycle that together consume
  at most \<open>2^width\<close> positions (picks plus skips) are pairwise distinct.\<close>

theorem picks_distinct:
  assumes wf: "stream_wf s" and run: "picks n s = (xs, m, t)" and fit: "n + m \<le> 2 ^ nat (s_width s)"
  shows "distinct xs \<and> length xs = n"
proof -
  from picks_visits[OF run] obtain ps where ps: "xs = map (visit s) ps" "length ps = n"
    "sorted_wrt (<) ps" "\<forall>q \<in> set ps. q < n + m" by blast
  have "q mod 2 ^ nat (s_width s) = q" if "q \<in> set ps" for q
    using that ps(4) fit by (intro mod_less) force
  then have "inj_on (visit s) (set ps)"
    by (intro inj_onI) (metis visit_eq_iff[OF wf])
  moreover have "distinct ps" using ps(3) by (simp add: strict_sorted_iff)
  ultimately show ?thesis using ps by (simp add: distinct_map)
qed

lemma picks_skips: "picks n s = (xs, m, t) \<Longrightarrow> m \<le> 8 * n"
proof (induction n arbitrary: s xs m t)
  case (Suc n)
  obtain x k s1 ys m' s2 where "Next s = (x, k, s1)" "picks n s1 = (ys, m', s2)" by (metis prod_cases3)
  with Suc Next_visit[of s x k s1] show ?case by (fastforce simp: maxCycleSkips_def)
qed simp

theorem picks_distinct_witness:
  "\<exists>xs m t. picks 1000 (NewStream \<lparr>p_prefix = replicate 16 0, p_bits = 64, p_seed = 1\<rparr> 2 3) = (xs, m, t)
     \<and> distinct xs \<and> length xs = 1000"
proof -
  let ?s = "NewStream \<lparr>p_prefix = replicate 16 0, p_bits = 64, p_seed = 1\<rparr> 2 3"
  obtain xs m t where run: "picks 1000 ?s = (xs, m, t)" by (metis prod_cases3)
  have "m \<le> 8000" using picks_skips[OF run] by simp
  moreover have "(9000::nat) \<le> 2 ^ 64" by simp
  ultimately have "1000 + m \<le> 2 ^ nat (s_width ?s)" by simp
  with picks_distinct[OF _ run] run show ?thesis by (simp add: pool_wf_def)
qed

lemma needsHygiene_narrow:
  assumes "length x = 16" "3 \<le> w" "w < 64"
  shows "needsHygiene (int w) x \<longleftrightarrow>
     lo64 x AND mask w = 0 \<or> lo64 x AND mask w = 1 \<or> (40 \<le> w \<and> isEUI64 (lo64 x))"
proof -
  have "\<not> bit (lo64 x AND mask w) 63" using assms(3) by (simp add: bit_simps)
  then have "lo64 x AND mask w \<noteq> NOT 0" by auto
  moreover have "To16 x = x" "x \<noteq> []" using assms(1) by (auto simp: To16_def)
  ultimately show ?thesis using assms
    by (auto simp: needsHygiene_def Let_def hostValue_def isAllOnes_def low_mask_eq
        simp del: push_bit_of_1)
qed

text \<open>The host number determines an address of the cycle.\<close>

lemma host_determines:
  assumes wf: "stream_wf s" and w: "s_width s = int w" "w \<le> 64"
    and eq: "lo64 (visit s i) AND mask w = lo64 (visit s j) AND mask w"
  shows "visit s i = visit s j"
proof -
  have B: "nat (s_bits s) = 128 - w" using bits_width[OF wf] w by simp
  have "addr_bit (visit s i) c = addr_bit (visit s j) c" if c: "c < 128" for c
  proof (cases "c < nat (s_bits s)")
    case False
    then have "127 - c < w" "127 - (127 - c) = c" "127 - c < 64" using c B w by linarith+
    moreover have "bit (lo64 (visit s i) AND mask w) (127 - c) = bit (lo64 (visit s j) AND mask w) (127 - c)"
      using eq by simp
    ultimately show ?thesis using wf by (simp add: bit_lo64 bit_and_iff bit_mask_iff)
  qed (use wf c in \<open>simp add: visit_bit\<close>)
  then show ?thesis using wf by (simp add: addr_bits_eq_iff)
qed

lemma two_values:
  assumes "a = p \<or> a = q" "b = p \<or> b = q" "c = p \<or> c = q" "a \<noteq> b" "a \<noteq> c" "b \<noteq> c"
  shows False
  using assms by metis

text \<open>In pools with 3 to 39 host bits every pick is clean: \<open>Next\<close> skips at most two positions and
  never returns host value 0 or 1.\<close>

theorem Next_clean_small:
  assumes wf: "stream_wf s" and w: "s_width s = int w" "3 \<le> w" "w < 40"
  shows "case Next s of (x, k, t) \<Rightarrow> k \<le> 2 \<and> lo64 x AND mask w \<noteq> 0 \<and> lo64 x AND mask w \<noteq> 1"
proof -
  obtain x k t where nx: "Next s = (x, k, t)" by (metis prod_cases3)
  let ?h = "\<lambda>i. lo64 (visit s i) AND mask w"
  have dirty: "needsHygiene (s_width s) (visit s i) \<longleftrightarrow> ?h i = 0 \<or> ?h i = 1" for i
    using needsHygiene_narrow[of "visit s i" w] wf w by simp
  have inj: "?h i \<noteq> ?h j" if "i < 3" "j < 3" "i \<noteq> j" for i j
  proof
    assume "?h i = ?h j"
    then have "visit s i = visit s j" using host_determines[OF wf w(1)] w by simp
    moreover have "(3::nat) \<le> 2 ^ w" using w(2) power_increasing[of 2 w "2::nat"] by simp
    ultimately show False using that w by (simp add: visit_eq_iff[OF wf])
  qed
  have ne: "?h 0 \<noteq> ?h 1" "?h 0 \<noteq> ?h 2" "?h 1 \<noteq> ?h 2" by (rule inj; simp)+
  have "\<not> (\<forall>i<3. ?h i = 0 \<or> ?h i = 1)"
  proof
    assume *: "\<forall>i<3. ?h i = 0 \<or> ?h i = 1"
    then have "?h i = 0 \<or> ?h i = 1" if "i < 3" for i using that by blast
    then have "?h 0 = 0 \<or> ?h 0 = 1" "?h 1 = 0 \<or> ?h 1 = 1" "?h 2 = 0 \<or> ?h 2 = 1" by simp_all
    from this ne show False by (rule two_values)
  qed
  then have "\<not> (\<forall>i<3. needsHygiene (s_width s) (visit s i))" by (simp add: dirty)
  moreover have "\<forall>i<k. needsHygiene (s_width s) (visit s i)" using Next_visit[OF nx] by blast
  ultimately have "\<not> (\<forall>i<3. i < k)" by blast
  then have "k \<le> 2" by auto
  moreover from this have "\<not> needsHygiene (s_width s) (visit s k)"
    using Next_visit[OF nx] by (auto simp: maxCycleSkips_def)
  ultimately show ?thesis using Next_visit[OF nx] by (simp add: nx dirty)
qed

theorem Next_clean_small_witness:
  "case Next (NewStream \<lparr>p_prefix = replicate 16 0, p_bits = 120, p_seed = 1\<rparr> 2 3) of
     (x, k, t) \<Rightarrow> k \<le> 2 \<and> lo64 x AND mask 8 \<noteq> 0 \<and> lo64 x AND mask 8 \<noteq> 1"
  using Next_clean_small[of "NewStream \<lparr>p_prefix = replicate 16 0, p_bits = 120, p_seed = 1\<rparr> 2 3" 8]
  by (simp add: pool_wf_def)

text \<open>The all-ones host value is not skipped in pools with 3 to 63 host bits: every cycle of such a
  pool has a position, within one period, at which \<open>Next\<close> returns the all-ones host with no skip.\<close>

theorem Next_returns_all_ones:
  assumes wf: "stream_wf s" and w: "s_width s = int w" "3 \<le> w" "w < 64"
  shows "\<exists>i<2 ^ w. case Next ((advance ^^ i) s) of
           (x, k, t) \<Rightarrow> k = 0 \<and> lo64 x AND mask w = mask w"
proof -
  have B: "nat (s_bits s) + w = 128" using bits_width[OF wf] w by simp
  define g where "g = aggregate (nat (s_bits s)) (s_prefix s) @ replicate w True"
  have lenB: "length (aggregate (nat (s_bits s)) (s_prefix s)) = nat (s_bits s)"
    using wf B by (simp add: aggregate_def stream_wf_def)
  then have "g \<in> groups_below (nat (s_bits s)) (s_prefix s) w" by (simp add: groups_below_def g_def)
  moreover have "(\<lambda>i. aggregate (nat (s_bits s) + w) (visit s i)) ` {0..<2 ^ w}
      = groups_below (nat (s_bits s)) (s_prefix s) w"
    using cycle_coverage[OF wf, of w 0] w by (simp add: bij_betw_def)
  ultimately have "g \<in> (\<lambda>i. aggregate (nat (s_bits s) + w) (visit s i)) ` {0..<2 ^ w}" by simp
  then obtain i where i: "i < 2 ^ w" "aggregate (nat (s_bits s) + w) (visit s i) = g" by auto
  have ones: "addr_bit (visit s i) c" if "nat (s_bits s) \<le> c" "c < 128" for c
  proof -
    have "g ! c" using that B lenB by (simp add: g_def nth_append)
    then show ?thesis using that B wf by (simp add: i(2)[symmetric] aggregate_def addr_simps)
  qed
  have m: "lo64 (visit s i) AND mask w = mask w"
    by (rule bit_word_eqI) (use ones B w wf in \<open>auto simp: bit_lo64 bit_and_iff bit_mask_iff\<close>)
  have "bit (mask w :: u64) 1" using w by (simp only: bit_mask_iff) simp
  moreover have "\<not> bit (0 :: u64) 1" "\<not> bit (1 :: u64) 1" by (simp_all add: bit_1_iff)
  ultimately have "mask w \<noteq> (0 :: u64)" "mask w \<noteq> (1 :: u64)" by metis+
  moreover have "\<not> isEUI64 (lo64 (visit s i))" if "40 \<le> w"
  proof -
    have "bit (lo64 (visit s i) AND mask w) 24 = bit (mask w :: u64) 24" by (simp only: m)
    then have "bit (lo64 (visit s i)) 24" using that by (simp add: bit_and_iff bit_mask_iff)
    then show ?thesis using EUI_D by blast
  qed
  ultimately have clean: "\<not> needsHygiene (s_width s) (visit s i)"
    using needsHygiene_narrow[of "visit s i" w] wf w m by auto
  obtain x k t where nx: "Next ((advance ^^ i) s) = (x, k, t)" by (metis prod_cases3)
  have "k = 0" using Next_visit[OF nx] clean by (auto simp: visit_advance_pow dest: spec[of _ 0])
  then show ?thesis using Next_visit[OF nx] i m by (auto simp: nx visit_advance_pow)
qed

theorem Next_returns_all_ones_witness:
  "\<exists>i<2 ^ 16. case Next ((advance ^^ i) (NewStream \<lparr>p_prefix = replicate 16 0, p_bits = 112, p_seed = 1\<rparr> 2 3)) of
           (x, k, t) \<Rightarrow> k = 0 \<and> lo64 x AND mask 16 = mask 16"
  using Next_returns_all_ones[of "NewStream \<lparr>p_prefix = replicate 16 0, p_bits = 112, p_seed = 1\<rparr> 2 3" 16]
  by (simp add: pool_wf_def)

end
