(* ===== verification/Ifaceutil.thy ===== *)
theory Ifaceutil
  imports Net_IP
begin

text \<open>
  \<open>internal/ifaceutil/iface.go\<close>: inspection of network interfaces and routes.  What the
  operating system answers is the record \<open>netenv\<close>, a parameter of every definition that asks it:
  the interface names, whether a name resolves, the addresses of an interface as the strings
  \<open>net.Addr.String\<close> gives (CIDR notation), and the text of \<open>/proc/net/ipv6_route\<close>.
\<close>

record netenv =
  env_ifaces :: "string list option"
  env_exists :: "string \<Rightarrow> bool"
  env_addrs :: "string \<Rightarrow> string list option"
  env_route :: "string option"

section \<open>Operations\<close>

definition skip_addr :: "ip \<Rightarrow> bool" where
  "skip_addr x \<longleftrightarrow> To4 x \<noteq> [] \<or> IsLinkLocalUnicast x \<or> IsLoopback x"

text \<open>One round of the loop of \<open>GlobalIP\<close> over the pair (best, bestLen).\<close>

definition global_step :: "string \<Rightarrow> ip \<times> int \<Rightarrow> ip \<times> int" where
  "global_step a best =
     (case ParseCIDR a of
        None \<Rightarrow> best
      | Some (x, n) \<Rightarrow>
          if skip_addr x then best
          else (let ones = mask_ones (net_mask n)
                in if ones > snd best then (To16 x, ones) else best))"

definition GlobalIP :: "netenv \<Rightarrow> string \<Rightarrow> ip" where
  "GlobalIP env name =
     (if \<not> env_exists env name then []
      else case env_addrs env name of
             None \<Rightarrow> []
           | Some as \<Rightarrow> fst (fold global_step as ([], -1)))"

definition Addrs :: "netenv \<Rightarrow> string \<Rightarrow> ipnet list" where
  "Addrs env name =
     (if \<not> env_exists env name then []
      else case env_addrs env name of
             None \<Rightarrow> []
           | Some as \<Rightarrow> List.map_filter (\<lambda>a. map_option snd (ParseCIDR a)) as)"

definition HasAddrInPrefix :: "netenv \<Rightarrow> string \<Rightarrow> ip \<Rightarrow> bool" where
  "HasAddrInPrefix env name src =
     list_ex (\<lambda>n. IPNet_Contains n src \<and> \<not> skip_addr (net_ip n)) (Addrs env name)"

definition PrefixFromAddr :: "ip \<Rightarrow> int \<Rightarrow> ip" where
  "PrefixFromAddr x bits =
     (let bits = (if bits \<le> 0 then 64 else bits);
          bits = (if bits > 128 then 128 else bits)
      in IP_Mask x (CIDRMask bits 16))"

definition default_row :: "string list \<Rightarrow> bool" where
  "default_row flds \<longleftrightarrow> \<not> length flds < 10
     \<and> flds ! 0 = replicate 32 (CHR ''0'') \<and> flds ! 1 = ''00'' \<and> last flds \<noteq> ''lo''"

text \<open>The scan over the rows returns the interface of the first default row, or the empty string.\<close>

fun route_scan :: "string list \<Rightarrow> string" where
  "route_scan [] = ''''"
| "route_scan (line # rest) =
     (let flds = Fields line in if default_row flds then last flds else route_scan rest)"

definition ParseRouteTable :: "string \<Rightarrow> string" where
  "ParseRouteTable data = route_scan (split_at (CHR 0x0A) data)"

definition DefaultRouteIface :: "netenv \<Rightarrow> string" where
  "DefaultRouteIface env =
     (case env_route env of None \<Rightarrow> '''' | Some data \<Rightarrow> ParseRouteTable data)"

section \<open>Masks\<close>

lemma length_CIDRMask: "0 \<le> b \<Longrightarrow> b \<le> 8 * int l \<Longrightarrow> length (CIDRMask b l) = l"
  by (simp add: CIDRMask_def)

lemma addr_bit_CIDRMask:
  assumes "0 \<le> b" "b \<le> 8 * int l" "c < 8 * l"
  shows "addr_bit (CIDRMask b l) c \<longleftrightarrow> c < nat b"
proof -
  obtain q r where c: "c = 8 * q + r" "r < 8"
    by (metis div_mult_mod_eq mult.commute mod_less_divisor zero_less_numeral)
  then have d: "c div 8 = q" "c mod 8 = r" "q < l" using assms(3) by auto
  have ff: "bit (0xff :: byte) k \<longleftrightarrow> k < 8" for k
  proof -
    have "(0xff :: byte) = mask 8" by (simp add: mask_numeral)
    then have "bit (0xff :: byte) k \<longleftrightarrow> bit (mask 8 :: byte) k" by (rule arg_cong)
    then show ?thesis by (simp only: bit_mask_iff) auto
  qed
  show ?thesis
  proof (cases "nat b - 8 * q \<ge> 8")
    case True
    then have "8 * q + r < nat b" "7 - r < 8" using c by auto
    then show ?thesis using assms d c True
      by (simp add: addr_bit_def CIDRMask_def Let_def ff del: bit_numeral_word_iff)
  next
    case False
    then have "bit (NOT (drop_bit (nat b - 8 * q) (0xff :: byte))) (7 - r) \<longleftrightarrow> r < nat b - 8 * q"
      using c by (auto simp: bit_not_iff bit_drop_bit_eq ff simp del: bit_numeral_word_iff)
    then show ?thesis using assms d c False
      by (auto simp: addr_bit_def CIDRMask_def Let_def simp del: bit_numeral_word_iff)
  qed
qed

lemma addr_bit_map2_and:
  "length x = length m \<Longrightarrow> c < 8 * length x \<Longrightarrow>
     addr_bit (map2 (AND) x m) c \<longleftrightarrow> addr_bit x c \<and> addr_bit m c"
  by (simp add: addr_bit_def bit_and_iff less_mult_imp_div_less mult.commute)

lemma PrefixFromAddr_bits:
  assumes "length x = 16" "1 \<le> b" "b \<le> 128"
  shows "length (PrefixFromAddr x b) = 16"
    and "c < 128 \<Longrightarrow> addr_bit (PrefixFromAddr x b) c \<longleftrightarrow> c < nat b \<and> addr_bit x c"
proof -
  have "PrefixFromAddr x b = map2 (AND) x (CIDRMask b 16)"
    using assms by (auto simp: PrefixFromAddr_def IP_Mask_def length_CIDRMask)
  then show "length (PrefixFromAddr x b) = 16"
    "c < 128 \<Longrightarrow> addr_bit (PrefixFromAddr x b) c \<longleftrightarrow> c < nat b \<and> addr_bit x c"
    using assms by (auto simp: length_CIDRMask addr_bit_map2_and addr_bit_CIDRMask)
qed

section \<open>Properties\<close>

text \<open>\<open>PrefixFromAddr\<close> maps a 16-byte address to the network of the given length: the first
  \<open>bits\<close> bits are the address's, the rest are zero, and masking again changes nothing.\<close>

theorem PrefixFromAddr_network:
  assumes "length x = 16" "1 \<le> bits" "bits \<le> 128"
  shows "in_prefix (nat bits) x (PrefixFromAddr x bits)
    \<and> (\<forall>c<128. nat bits \<le> c \<longrightarrow> \<not> addr_bit (PrefixFromAddr x bits) c)
    \<and> PrefixFromAddr (PrefixFromAddr x bits) bits = PrefixFromAddr x bits"
  using assms by (auto simp: PrefixFromAddr_bits addr_bits_eq_iff intro!: in_prefixI)

theorem PrefixFromAddr_network_witness:
  "in_prefix 61 (0x20 # replicate 15 0xff) (PrefixFromAddr (0x20 # replicate 15 0xff) 61)"
  using PrefixFromAddr_network[of "0x20 # replicate 15 0xff" 61] by simp

text \<open>The candidates of \<open>GlobalIP\<close>: the usable addresses with their prefix lengths.\<close>

definition candidates :: "string list \<Rightarrow> (ip \<times> int) list" where
  "candidates as = List.map_filter
     (\<lambda>a. case ParseCIDR a of None \<Rightarrow> None
          | Some (x, n) \<Rightarrow> if skip_addr x then None else Some (To16 x, mask_ones (net_mask n))) as"

definition better :: "ip \<times> int \<Rightarrow> ip \<times> int \<Rightarrow> ip \<times> int" where
  "better c best = (if snd c > snd best then c else best)"

lemma fold_global_step: "fold global_step as best = fold better (candidates as) best"
  by (induction as arbitrary: best)
     (auto simp: candidates_def map_filter_simps global_step_def better_def Let_def split: option.splits)

lemma fold_better:
  "let r = fold better cs b in
     (r = b \<or> r \<in> set cs) \<and> snd b \<le> snd r \<and> (\<forall>c \<in> set cs. snd c \<le> snd r)"
proof (induction cs arbitrary: b)
  case (Cons c cs)
  show ?case using Cons.IH[of "better c b"] by (auto simp: Let_def better_def split: if_splits)
qed simp

lemma mask_ones_nonneg: "0 \<le> mask_ones m"
  by (simp add: mask_ones_def Let_def)

lemma candidates_nonneg: "c \<in> set (candidates as) \<Longrightarrow> 0 \<le> snd c"
  by (induction as)
     (auto simp: candidates_def map_filter_simps mask_ones_nonneg split: option.splits if_splits)

text \<open>C23. \<open>GlobalIP\<close> picks a usable address of the interface whose prefix length is maximal among
  the usable ones, and nil exactly when the interface is unknown, unreadable or has none.\<close>

theorem GlobalIP_longest_prefix:
  "case (if env_exists env name then env_addrs env name else None) of
     None \<Rightarrow> GlobalIP env name = []
   | Some as \<Rightarrow>
       (if candidates as = [] then GlobalIP env name = []
        else list_ex (\<lambda>c. fst c = GlobalIP env name \<and> list_all (\<lambda>d. snd d \<le> snd c) (candidates as))
               (candidates as))"
proof (cases "if env_exists env name then env_addrs env name else None")
  case (Some as)
  then have g: "GlobalIP env name = fst (fold better (candidates as) ([], -1))"
    by (auto simp: GlobalIP_def fold_global_step split: if_splits)
  show ?thesis
  proof (cases "candidates as")
    case (Cons c cs)
    let ?r = "fold better (candidates as) ([], -1)"
    have r: "?r = ([], -1) \<or> ?r \<in> set (candidates as)" "\<forall>d \<in> set (candidates as). snd d \<le> snd ?r"
      using fold_better[of "candidates as" "([], -1)"] by (auto simp: Let_def)
    moreover have "0 \<le> snd c" using candidates_nonneg Cons by (metis list.set_intros(1))
    ultimately have "?r \<in> set (candidates as)" using Cons by auto
    with r Some g Cons show ?thesis by (auto simp: list_ex_iff list_all_iff)
  qed (use Some g in simp)
qed (auto simp: GlobalIP_def split: if_splits)

text \<open>\<open>ParseRouteTable\<close> returns the interface of the first default route that is not on the
  loopback, and the empty string when no row is one.\<close>

theorem ParseRouteTable_first_default:
  "ParseRouteTable data =
     (case find default_row (map Fields (split_at (CHR 0x0A) data)) of
        None \<Rightarrow> '''' | Some flds \<Rightarrow> last flds)"
proof -
  have "route_scan ls = (case find default_row (map Fields ls) of None \<Rightarrow> '''' | Some flds \<Rightarrow> last flds)" for ls
    by (induction ls) (simp_all add: Let_def)
  then show ?thesis by (simp add: ParseRouteTable_def)
qed

end
