(* ===== verification/Codec.thy ===== *)
theory Codec
  imports Net_IP
begin

text \<open>
  The text codecs of the standard library the program reads its inputs with: \<open>encoding/hex\<close>
  (pool seeds), \<open>encoding/base64\<close> in \<open>StdEncoding\<close> (proxy credentials) and host/port addresses.
  What their users rely on is one contract, the locale \<open>codec\<close>: decoding an encoded value gives
  the value back, hence encodings are injective.
\<close>

section \<open>The contract\<close>

locale codec =
  fixes enc :: "'a \<Rightarrow> 'b" and dec :: "'b \<Rightarrow> 'a option" and valid :: "'a \<Rightarrow> bool"
  assumes dec_enc: "valid x \<Longrightarrow> dec (enc x) = Some x"
begin

lemma enc_inj: "valid x \<Longrightarrow> valid y \<Longrightarrow> enc x = enc y \<longleftrightarrow> x = y"
  using dec_enc by (metis option.inject)

lemma enc_inj_on: "inj_on enc {x. valid x}"
  by (rule inj_onI) (simp add: enc_inj)

lemma dec_ne_None: "valid x \<Longrightarrow> dec (enc x) \<noteq> None"
  by (simp add: dec_enc)

end

section \<open>Hexadecimal\<close>

fun hex_decode :: "string \<Rightarrow> byte list option" where
  "hex_decode [] = Some []"
| "hex_decode [c] = None"
| "hex_decode (c # d # s) =
     (case (hex_val c, hex_val d, hex_decode s) of
        (Some a, Some b, Some bs) \<Rightarrow> Some (word_of_nat (16 * a + b) # bs)
      | _ \<Rightarrow> None)"

lemma hex_bytes_Cons:
  "hex_bytes (b # bs) = digit_char (unat b div 16) # digit_char (unat b mod 16) # hex_bytes bs"
  by (simp add: hex_bytes_def)

lemma hex_bytes_Nil [simp]: "hex_bytes [] = []"
  by (simp add: hex_bytes_def)

lemma length_hex_bytes [simp]: "length (hex_bytes bs) = 2 * length bs"
  by (induction bs) (simp_all add: hex_bytes_Cons)

lemma unat_byte_less: "unat (b :: byte) < 256"
  using unsigned_less[of b] by simp

lemma hex_decode_hex_bytes: "hex_decode (hex_bytes bs) = Some bs"
proof (induction bs)
  case (Cons b bs)
  have "unat b div 16 < 16" using unat_byte_less[of b] by simp
  moreover have "word_of_nat (16 * (unat b div 16) + unat b mod 16) = b"
    by (simp only: mult_div_mod_eq) simp
  ultimately show ?case using Cons by (simp add: hex_bytes_Cons)
qed simp

interpretation hexc: codec hex_bytes hex_decode "\<lambda>_. True"
  by unfold_locales (simp add: hex_decode_hex_bytes)

lemma hex_decode_length: "hex_decode s = Some bs \<Longrightarrow> length s = 2 * length bs"
  by (induction s arbitrary: bs rule: hex_decode.induct) (auto split: option.splits)

section \<open>Base64\<close>

definition b64_char :: "nat \<Rightarrow> char" where
  "b64_char n = (if n < 26 then char_of (65 + n) else if n < 52 then char_of (71 + n)
                 else if n < 62 then char_of (n - 4) else if n = 62 then CHR ''+'' else CHR ''/'')"

definition b64_val :: "char \<Rightarrow> nat option" where
  "b64_val c =
     (let n = of_char c in
      if 65 \<le> n \<and> n \<le> 90 then Some (n - 65)
      else if 97 \<le> n \<and> n \<le> 122 then Some (n - 71)
      else if 48 \<le> n \<and> n \<le> 57 then Some (n + 4)
      else if c = CHR ''+'' then Some 62 else if c = CHR ''/'' then Some 63 else None)"

text \<open>The three bytes of four sextets, and the sextets of three bytes.\<close>

definition oct1 :: "nat \<Rightarrow> nat \<Rightarrow> byte" where "oct1 i j = word_of_nat (i * 4 + j div 16)"
definition oct2 :: "nat \<Rightarrow> nat \<Rightarrow> byte" where "oct2 j k = word_of_nat (j mod 16 * 16 + k div 4)"
definition oct3 :: "nat \<Rightarrow> nat \<Rightarrow> byte" where "oct3 k l = word_of_nat (k mod 4 * 64 + l)"

definition sext1 :: "byte \<Rightarrow> nat" where "sext1 x = unat x div 4"
definition sext2 :: "byte \<Rightarrow> byte \<Rightarrow> nat" where "sext2 x y = unat x mod 4 * 16 + unat y div 16"
definition sext3 :: "byte \<Rightarrow> byte \<Rightarrow> nat" where "sext3 y z = unat y mod 16 * 4 + unat z div 64"
definition sext4 :: "byte \<Rightarrow> nat" where "sext4 z = unat z mod 64"

text \<open>The quanta of four characters; line breaks are dropped before, as the decoder skips them.\<close>

fun b64_quanta :: "string \<Rightarrow> byte list option" where
  "b64_quanta [] = Some []"
| "b64_quanta (a # b # c # d # s) =
     (case (b64_val a, b64_val b) of
        (Some i, Some j) \<Rightarrow>
          (if c = CHR ''='' \<and> d = CHR ''=''
           then (if s = [] then Some [oct1 i j] else None)
           else (case b64_val c of
                   None \<Rightarrow> None
                 | Some k \<Rightarrow>
                     if d = CHR ''=''
                     then (if s = [] then Some [oct1 i j,
                                                oct2 j k] else None)
                     else (case (b64_val d, b64_quanta s) of
                             (Some l, Some bs) \<Rightarrow>
                               Some (oct1 i j
                                     # oct2 j k
                                     # oct3 k l # bs)
                           | _ \<Rightarrow> None)))
      | _ \<Rightarrow> None)"
| "b64_quanta _ = None"

definition b64_decode :: "string \<Rightarrow> byte list option" where
  "b64_decode s = b64_quanta (filter (\<lambda>c. c \<noteq> CHR 0x0A \<and> c \<noteq> CHR 0x0D) s)"

fun b64_encode :: "byte list \<Rightarrow> string" where
  "b64_encode [] = []"
| "b64_encode [x] =
     [b64_char (sext1 x), b64_char (sext2 x 0), CHR ''='', CHR ''='']"
| "b64_encode [x, y] =
     [b64_char (sext1 x), b64_char (sext2 x y),
      b64_char (sext3 y 0), CHR ''='']"
| "b64_encode (x # y # z # s) =
     b64_char (sext1 x) # b64_char (sext2 x y)
     # b64_char (sext3 y z) # b64_char (sext4 z) # b64_encode s"

lemma b64_char_code:
  "n < 64 \<Longrightarrow> of_char (b64_char n) = (if n < 26 then 65 + n else if n < 52 then 71 + n
                 else if n < 62 then n - 4 else if n = 62 then 43 else 47)"
  by (auto simp: b64_char_def)

lemma b64_val_char [simp]: "n < 64 \<Longrightarrow> b64_val (b64_char n) = Some n"
proof -
  assume n: "n < 64"
  consider "n < 26" | "26 \<le> n" "n < 52" | "52 \<le> n" "n < 62" | "n = 62" | "n = 63" using n by linarith
  then show ?thesis by cases (auto simp: b64_val_def Let_def b64_char_code, auto simp: b64_char_def)
qed

lemma b64_char_special [simp]:
  assumes "n < 64"
  shows "b64_char n \<noteq> CHR ''=''" "b64_char n \<noteq> CHR 0x0A" "b64_char n \<noteq> CHR 0x0D"
    "\<not> ascii_space (b64_char n)" "(of_char (b64_char n) :: nat) < 128"
proof -
  have r: "of_char (b64_char n) \<in> {43, 47} \<union> {48..57} \<union> {65..90} \<union> {97..122 :: nat}"
    using assms by (auto simp: b64_char_code)
  have ne: "c \<noteq> d" if "(of_char c :: nat) \<noteq> of_char d" for c d :: char using that by auto
  show "b64_char n \<noteq> CHR ''=''" "b64_char n \<noteq> CHR 0x0A" "b64_char n \<noteq> CHR 0x0D"
    by (rule ne; use r in auto)+
  show "\<not> ascii_space (b64_char n)" "(of_char (b64_char n) :: nat) < 128"
    using r by (auto simp: ascii_space_def)
qed

lemma sextets [simp]: "sext1 x < 64" "sext2 x y < 64" "sext3 x y < 64" "sext4 x < 64"
proof -
  have q: "unat x div 4 < 64" "unat y div 16 < 16" "unat y div 64 < 4"
    using unat_byte_less[of x] unat_byte_less[of y] by simp_all
  moreover have "unat x mod 4 < 4" "unat x mod 16 < 16" by simp_all
  ultimately show "sext1 x < 64" "sext2 x y < 64" "sext3 x y < 64" "sext4 x < 64"
    unfolding sext1_def sext2_def sext3_def sext4_def by (linarith | simp)+
qed

lemma b64_no_breaks: "filter (\<lambda>c. c \<noteq> CHR 0x0A \<and> c \<noteq> CHR 0x0D) (b64_encode bs) = b64_encode bs"
  by (induction bs rule: b64_encode.induct) simp_all

lemma word_of_nat_unat: "n = unat b \<Longrightarrow> word_of_nat n = (b :: byte)"
  by simp

lemma octets [simp]:
  "oct1 (sext1 x) (sext2 x y) = x" "oct2 (sext2 x y) (sext3 y z) = y" "oct3 (sext3 y z) (sext4 z) = z"
proof -
  have q: "unat z div 64 < 4" "unat y div 16 < 16"
    using unat_byte_less[of z] unat_byte_less[of y] by simp_all
  have "unat x div 4 * 4 + (unat x mod 4 * 16 + unat y div 16) div 16 = unat x"
    using q by simp
  then show "oct1 (sext1 x) (sext2 x y) = x"
    unfolding oct1_def sext1_def sext2_def by (rule word_of_nat_unat)
  have "(unat x mod 4 * 16 + unat y div 16) mod 16 * 16 + (unat y mod 16 * 4 + unat z div 64) div 4 = unat y"
    using q by simp
  then show "oct2 (sext2 x y) (sext3 y z) = y"
    unfolding oct2_def sext2_def sext3_def by (rule word_of_nat_unat)
  have "(unat y mod 16 * 4 + unat z div 64) mod 4 * 64 + unat z mod 64 = unat z"
    using q by simp
  then show "oct3 (sext3 y z) (sext4 z) = z"
    unfolding oct3_def sext3_def sext4_def by (rule word_of_nat_unat)
qed

lemma b64_decode_encode: "b64_decode (b64_encode bs) = Some bs"
  unfolding b64_decode_def b64_no_breaks
  by (induction bs rule: b64_encode.induct) simp_all

interpretation b64: codec b64_encode b64_decode "\<lambda>_. True"
  by unfold_locales (rule b64_decode_encode)

section \<open>Host and port\<close>

text \<open>A host that \<open>JoinHostPort\<close> and \<open>SplitHostPort\<close> carry: no bracket in it; a port: no colon
  and no bracket.\<close>

definition host_port_ok :: "string \<times> string \<Rightarrow> bool" where
  "host_port_ok hp \<longleftrightarrow> set (fst hp) \<inter> {CHR ''['', CHR '']''} = {}
     \<and> set (snd hp) \<inter> {CHR ''['', CHR '']'', CHR '':''} = {}"

lemma SplitHostPort_JoinHostPort:
  assumes "host_port_ok (h, p)"
  shows "SplitHostPort (JoinHostPort h p) = Some (h, p)"
proof (cases "CHR '':'' \<in> set h")
  case True
  have j: "JoinHostPort h p = (CHR ''['' # h @ [CHR '']'']) @ CHR '':'' # p"
    using True by (simp add: JoinHostPort_def)
  have "LastIndexByte (JoinHostPort h p) (CHR '':'') = Some (length h + 2)"
    unfolding j using assms by (subst LastIndexByte_append) (auto simp: host_port_ok_def)
  moreover have "IndexByte (JoinHostPort h p) (CHR '']'') = Some (length h + 1)"
    using True assms by (simp add: JoinHostPort_def IndexByte_append host_port_ok_def)
  ultimately show ?thesis using True assms
    by (auto simp: SplitHostPort_def j host_port_ok_def)
next
  case False
  have j: "JoinHostPort h p = h @ CHR '':'' # p" using False by (simp add: JoinHostPort_def)
  have l: "LastIndexByte (JoinHostPort h p) (CHR '':'') = Some (length h)"
    unfolding j using assms by (subst LastIndexByte_append) (auto simp: host_port_ok_def)
  have "hd (JoinHostPort h p) \<noteq> CHR ''[''"
    unfolding j using assms by (cases h) (auto simp: host_port_ok_def)
  with l show ?thesis using False assms by (auto simp: SplitHostPort_def j host_port_ok_def)
qed

interpretation hostport: codec "\<lambda>(h, p). JoinHostPort h p" SplitHostPort host_port_ok
  by unfold_locales (auto simp: SplitHostPort_JoinHostPort)

end
