(* ===== verification/IP_Text.thy ===== *)
theory IP_Text
  imports Codec
begin

text \<open>
  The text form of addresses is a codec: \<open>ParseIP\<close> gives back every 16-byte address that
  \<open>IP.String\<close> prints.  The proxy keys its recent-address ring and its claims by this text and
  sends SOCKS5 targets through it, so the round trip is what makes these keys faithful.
\<close>

section \<open>Dotted decimal\<close>

text \<open>Numbers by their digits.\<close>

lemma dec1: "a < 10 \<Longrightarrow> dec a = [digit_char a]"
  by (subst dec.simps) simp

lemma dec_snoc: "1 \<le> a \<Longrightarrow> b < 10 \<Longrightarrow> dec (10 * a + b) = dec a @ [digit_char b]"
  by (subst dec.simps) simp

lemma dec_digits:
  assumes "n < 256"
  obtains (one) "n < 10" "dec n = [digit_char n]"
  | (two) a b where "1 \<le> a" "a < 10" "b < 10" "n = 10 * a + b" "dec n = [digit_char a, digit_char b]"
  | (three) a b c where "1 \<le> a" "a < 10" "b < 10" "c < 10" "n = 10 * (10 * a + b) + c"
      "dec n = [digit_char a, digit_char b, digit_char c]"
proof -
  have split: "n = 10 * (n div 10) + n mod 10" "n div 10 = 10 * (n div 10 div 10) + n div 10 mod 10"
    by (simp_all only: mult_div_mod_eq)
  consider "n < 10" | "10 \<le> n" "n < 100" | "100 \<le> n" by linarith
  then show thesis
  proof cases
    case 1
    then show thesis using one dec1 by blast
  next
    case 2
    then have a: "1 \<le> n div 10" "n div 10 < 10" "n mod 10 < 10" by simp_all
    then have "dec n = [digit_char (n div 10), digit_char (n mod 10)]"
      using dec_snoc[OF a(1,3)] dec1[OF a(2)] by simp
    with a show thesis using two split(1) by blast
  next
    case 3
    then have a: "1 \<le> n div 10 div 10" "n div 10 div 10 < 10" "n div 10 mod 10 < 10" "n mod 10 < 10"
      "1 \<le> n div 10" using assms by simp_all
    then have "dec n = [digit_char (n div 10 div 10), digit_char (n div 10 mod 10), digit_char (n mod 10)]"
      using dec_snoc[OF a(5,4)] dec_snoc[OF a(1,3)] dec1[OF a(2)] split by simp
    moreover have "n = 10 * (10 * (n div 10 div 10) + n div 10 mod 10) + n mod 10"
      using split by simp
    ultimately show thesis using three a by blast
  qed
qed

lemma digit_char_ne [simp]:
  assumes "d < 16"
  shows "digit_char d \<noteq> CHR ''.''" "digit_char d \<noteq> CHR '':''" "digit_char d \<noteq> CHR ''%''"
    "CHR ''.'' \<noteq> digit_char d" "CHR '':'' \<noteq> digit_char d" "CHR ''%'' \<noteq> digit_char d"
proof -
  have ne: "c \<noteq> d'" if "(of_char c :: nat) \<noteq> of_char d'" for c d' :: char using that by auto
  show "digit_char d \<noteq> CHR ''.''" "digit_char d \<noteq> CHR '':''" "digit_char d \<noteq> CHR ''%''"
    "CHR ''.'' \<noteq> digit_char d" "CHR '':'' \<noteq> digit_char d" "CHR ''%'' \<noteq> digit_char d"
    by (rule ne; use assms in \<open>auto simp: of_char_digit_char\<close>)+
qed

lemma v4_fields_dec:
  assumes "n < 256"
  shows "\<exists>c. c \<noteq> CHR ''.'' \<and> v4_fields prev 0 0 flds (dec n @ s) = v4_fields (Some c) n (length (dec n)) flds s"
proof (cases rule: dec_digits[OF assms, case_names one two three])
  case one
  then show ?thesis by (intro exI[of _ "digit_char n"]) simp
next
  case (two a b)
  then show ?thesis by (intro exI[of _ "digit_char b"]) (simp add: mult.commute)
next
  case (three a b c)
  then have "10 * a + b \<le> 255" "10 * (10 * a + b) + c \<le> 255" using assms by linarith+
  with three show ?thesis by (intro exI[of _ "digit_char c"]) (simp add: mult.commute)
qed

lemma dec_ne_Nil [simp]: "dec n \<noteq> []"
  by (subst dec.simps) simp

lemma v4_fields_octet:
  assumes "n < 256" "length flds < 3" "s \<noteq> []"
  shows "\<exists>c. v4_fields prev 0 0 flds (dec n @ CHR ''.'' # s) = v4_fields (Some (CHR ''.'')) 0 0 (flds @ [n]) s"
proof -
  have "dec_val (CHR ''.'') = None" by (simp add: dec_val_def)
  with v4_fields_dec[OF assms(1), of prev flds "CHR ''.'' # s"] assms(2,3) show ?thesis by auto
qed

lemma parseIPv4Fields_dotted:
  assumes "length x = 4"
  shows "parseIPv4Fields (dotted x) = Some x"
proof -
  obtain a b c d where x: "x = [a, b, c, d]"
    using assms by (auto simp: numeral_eq_Suc length_Suc_conv)
  have lt: "unat y < 256" for y :: byte by (rule unat_byte_less)
  have "v4_fields None 0 0 [] (dotted x) = Some [unat a, unat b, unat c, unat d]"
    using v4_fields_octet[OF lt[of a], of "[]" "dec (unat b) @ ''.'' @ dec (unat c) @ ''.'' @ dec (unat d)" None]
      v4_fields_octet[OF lt[of b], of "[unat a]" "dec (unat c) @ ''.'' @ dec (unat d)" "Some (CHR ''.'')"]
      v4_fields_octet[OF lt[of c], of "[unat a, unat b]" "dec (unat d)" "Some (CHR ''.'')"]
      v4_fields_dec[OF lt[of d], of "Some (CHR ''.'')" "[unat a, unat b, unat c]" "[]"]
    by (auto simp: dotted_def x)
  then show ?thesis by (simp add: parseIPv4Fields_def x)
qed

section \<open>Hexadecimal groups\<close>

lemma hex16_digits:
  assumes "g < 65536"
  obtains (one) "g < 16" "hex16 g = [digit_char g]"
  | (two) a b where "a < 16" "b < 16" "g = a * 16 + b" "hex16 g = map digit_char [a, b]"
  | (three) a b c where "a < 16" "b < 16" "c < 16" "g = (a * 16 + b) * 16 + c"
      "hex16 g = map digit_char [a, b, c]"
  | (four) a b c d where "a < 16" "b < 16" "c < 16" "d < 16" "g = ((a * 16 + b) * 16 + c) * 16 + d"
      "hex16 g = map digit_char [a, b, c, d]"
proof -
  obtain h d where g: "g = h * 16 + d" "d < 16" by (metis div_mult_mod_eq mod_less_divisor zero_less_numeral)
  obtain i c where h: "h = i * 16 + c" "c < 16" by (metis div_mult_mod_eq mod_less_divisor zero_less_numeral)
  obtain a b where i: "i = a * 16 + b" "b < 16" by (metis div_mult_mod_eq mod_less_divisor zero_less_numeral)
  have a: "a < 16" using assms g h i by linarith
  have m: "g mod 16 = d" "g div 16 = h" using g by simp_all
  have m2: "h mod 16 = c" "h div 16 = i" using h by simp_all
  have m3: "i mod 16 = b" "i div 16 = a" using i by simp_all
  have d2: "g div 256 = i" "g div 4096 = a"
    using m m2 m3 div_mult2_eq[of g 16 16] div_mult2_eq[of g 256 16] by simp_all
  have hx: "hex16 g = (if g \<ge> 4096 then [digit_char a] else []) @ (if g \<ge> 256 then [digit_char b] else [])
      @ (if g \<ge> 16 then [digit_char c] else []) @ [digit_char d]"
    by (simp add: hex16_def m m2 m3 d2)
  consider "g < 16" | "16 \<le> g" "g < 256" | "256 \<le> g" "g < 4096" | "4096 \<le> g" by linarith
  then show thesis
  proof cases
    case 1
    then have "g = d" using g by simp
    with 1 show thesis using one hx by simp
  next
    case 2
    then have "i = 0" using g h by linarith
    with 2 show thesis using two[of c d] hx g h by simp
  next
    case 3
    then have "a = 0" using g h i by linarith
    with 3 show thesis using three[of b c d] hx g h i by simp
  next
    case 4
    then show thesis using four[of a b c d] hx g h i a by simp
  qed
qed

lemma scan_hex_hex16:
  assumes g: "g < 65536" and rest: "rest = [] \<or> hex_val (hd rest) = None"
  shows "scan_hex 0 0 (hex16 g @ rest) = Some (length (hex16 g), g, rest)"
proof -
  have stop: "scan_hex off acc rest = Some (off, acc, rest)" for off acc
    using rest by (cases rest) auto
  show ?thesis using g by (cases rule: hex16_digits[OF g, case_names one two three four])
     (simp_all add: stop)
qed

lemma hex16_chars:
  assumes "g < 65536" "c \<in> set (hex16 g)"
  shows "\<exists>d<16. c = digit_char d"
  using assms(2) by (cases rule: hex16_digits[OF assms(1)]) auto

lemma length_hex16 [simp]: "hex16 g \<noteq> []" "length (hex16 g) \<noteq> 0"
  by (simp_all add: hex16_def)

lemma hd_hex16: "g < 65536 \<Longrightarrow> \<exists>d<16. hd (hex16 g @ s) = digit_char d"
  using hex16_chars[of g "hd (hex16 g)"] by simp

section \<open>Group lists\<close>

definition group_bytes :: "nat list \<Rightarrow> byte list" where
  "group_bytes gs = concat (map (\<lambda>g. [word_of_nat (g div 256), word_of_nat (g mod 256)]) gs)"

lemma group_bytes_simps [simp]:
  "group_bytes [] = []"
  "group_bytes (g # gs) = word_of_nat (g div 256) # word_of_nat (g mod 256) # group_bytes gs"
  "group_bytes (gs @ hs) = group_bytes gs @ group_bytes hs"
  by (simp_all add: group_bytes_def)

lemma length_group_bytes [simp]: "length (group_bytes gs) = 2 * length gs"
  by (induction gs) simp_all

lemma group_bytes_zero: "group_bytes (replicate n 0) = replicate (2 * n) 0"
  by (induction n) simp_all

lemma length_groups16 [simp]: "length (groups16 x) = 8"
  by (simp add: groups16_def)

lemma groups16_bound: "g \<in> set (groups16 x) \<Longrightarrow> g < 65536"
proof -
  assume "g \<in> set (groups16 x)"
  then obtain i where "g = unat (x ! (2 * i)) * 256 + unat (x ! (2 * i + 1))"
    by (auto simp: groups16_def)
  then show ?thesis using unat_byte_less[of "x ! (2 * i)"] unat_byte_less[of "x ! (2 * i + 1)"] by linarith
qed

lemma group_of_bytes:
  "word_of_nat ((unat a * 256 + unat b) div 256) = (a :: byte)"
  "word_of_nat ((unat a * 256 + unat b) mod 256) = (b :: byte)"
proof -
  have "(unat a * 256 + unat b) div 256 = unat a" "(unat a * 256 + unat b) mod 256 = unat b"
    using unat_byte_less[of b] by simp_all
  then show "word_of_nat ((unat a * 256 + unat b) div 256) = a"
    "word_of_nat ((unat a * 256 + unat b) mod 256) = b" by simp_all
qed

lemma group_bytes_groups16:
  assumes "length x = 16"
  shows "group_bytes (groups16 x) = x"
proof -
  have "[0..<8] = [0, 1, 2, 3, 4, 5, 6, 7 :: nat]" by code_simp
  moreover obtain a b c d e f g h i j k l m n p q where "x = [a, b, c, d, e, f, g, h, i, j, k, l, m, n, p, q]"
    using assms by (auto simp: numeral_eq_Suc length_Suc_conv)
  moreover have "unat (z :: byte) div 256 = 0" "unat (z :: byte) mod 256 = unat z" for z
    using unat_byte_less[of z] by simp_all
  ultimately show ?thesis by (simp add: groups16_def group_of_bytes)
qed

section \<open>The group parser on printed groups\<close>

lemma hex_val_special [simp]: "hex_val (CHR '':'') = None" "hex_val (CHR ''.'') = None"
  by (simp_all add: hex_val_def)

lemma v6_loop_last:
  assumes "g < 65536"
  shows "v6_loop (Suc n) (hex16 g) x ell = Some ([], x @ group_bytes [g], ell)"
  using scan_hex_hex16[OF assms, of "[]"] by simp

lemma v6_loop_colon:
  assumes "g < 65536" "c \<noteq> CHR '':''"
  shows "v6_loop (Suc n) (hex16 g @ CHR '':'' # c # s) x ell = v6_loop n (c # s) (x @ group_bytes [g]) ell"
  using scan_hex_hex16[OF assms(1), of "CHR '':'' # c # s"] assms(2) by simp

lemma v6_loop_ellipsis:
  assumes "g < 65536"
  shows "v6_loop (Suc n) (hex16 g @ ''::'' @ s) x None =
     (if s = [] then Some ([], x @ group_bytes [g], Some (length x + 2))
      else v6_loop n s (x @ group_bytes [g]) (Some (length x + 2)))"
  using scan_hex_hex16[OF assms, of "''::'' @ s"] by simp

lemma join_groups_hd:
  assumes "gs \<noteq> []" "\<forall>g \<in> set gs. g < 65536"
  obtains c s where "join_groups gs = c # s" "c \<noteq> CHR '':''"
proof (cases gs)
  case (Cons g hs)
  obtain d where "d < 16" "hd (hex16 g) = digit_char d" using hd_hex16[of g "[]"] assms(2) Cons by auto
  then obtain t where t: "hex16 g = digit_char d # t" by (metis length_hex16(1) list.exhaust_sel)
  then have "\<exists>s. join_groups gs = digit_char d # s" using Cons by (cases hs) simp_all
  then show thesis using that \<open>d < 16\<close> by auto
qed (use assms in simp)

lemma v6_loop_join:
  assumes "gs \<noteq> []" "length gs \<le> n" "\<forall>g \<in> set gs. g < 65536"
  shows "v6_loop n (join_groups gs) x ell = Some ([], x @ group_bytes gs, ell)"
  using assms
proof (induction gs arbitrary: n x rule: join_groups.induct)
  case (2 g)
  then obtain m where "n = Suc m" by (cases n) auto
  then show ?case using 2 v6_loop_last[of g m x ell] by (simp del: v6_loop.simps)
next
  case (3 g h hs)
  then obtain m where n: "n = Suc m" by (cases n) auto
  obtain c s where j: "join_groups (h # hs) = c # s" "c \<noteq> CHR '':''"
    using join_groups_hd[of "h # hs"] 3 by auto
  have "v6_loop n (join_groups (g # h # hs)) x ell = v6_loop m (join_groups (h # hs)) (x @ group_bytes [g]) ell"
    unfolding n using v6_loop_colon[OF _ j(2), of g m s x ell] 3(4) by (simp add: j(1) del: v6_loop.simps)
  also have "\<dots> = Some ([], (x @ group_bytes [g]) @ group_bytes (h # hs), ell)"
    using 3 n by (intro 3(1)) auto
  finally show ?case by simp
qed simp

lemma v6_loop_join_ellipsis:
  assumes "gs \<noteq> []" "length gs \<le> n" "\<forall>g \<in> set gs. g < 65536"
  shows "v6_loop n (join_groups gs @ ''::'' @ s) x None =
     (if s = [] then Some ([], x @ group_bytes gs, Some (length x + 2 * length gs))
      else v6_loop (n - length gs) s (x @ group_bytes gs) (Some (length x + 2 * length gs)))"
  using assms
proof (induction gs arbitrary: n x rule: join_groups.induct)
  case (2 g)
  then obtain m where "n = Suc m" by (cases n) auto
  then show ?case using 2 v6_loop_ellipsis[of g m s x] by (simp del: v6_loop.simps)
next
  case (3 g h hs)
  then obtain m where n: "n = Suc m" by (cases n) auto
  obtain c t where j: "join_groups (h # hs) = c # t" "c \<noteq> CHR '':''"
    using join_groups_hd[of "h # hs"] 3 by auto
  have "v6_loop n (join_groups (g # h # hs) @ ''::'' @ s) x None
        = v6_loop m (join_groups (h # hs) @ ''::'' @ s) (x @ group_bytes [g]) None"
    unfolding n using v6_loop_colon[OF _ j(2), of g m "t @ ''::'' @ s" x None] 3(4)
    by (simp add: j(1) del: v6_loop.simps)
  then show ?case using 3(1)[of m "x @ group_bytes [g]"] 3(3,4) n
    by (simp del: v6_loop.simps add: add.assoc)
qed simp

section \<open>The zero run\<close>

text \<open>\<open>zero_at gs (i, j)\<close>: the groups from \<open>i\<close> to \<open>j\<close> are zero, two or more of them.\<close>

definition zero_at :: "nat list \<Rightarrow> nat \<times> nat \<Rightarrow> bool" where
  "zero_at gs r \<longleftrightarrow> fst r + 2 \<le> snd r \<and> snd r \<le> 8
     \<and> gs = take (fst r) gs @ replicate (snd r - fst r) 0 @ drop (snd r) gs"

lemma zero_at_run:
  assumes gs: "length gs = 8" and i: "i \<le> 8"
    and l: "l = length (takeWhile (\<lambda>g. g = 0) (drop i gs))" "2 \<le> l"
  shows "zero_at gs (i, i + l)"
proof -
  have "takeWhile (\<lambda>g. g = 0) (drop i gs) = replicate l 0"
    by (rule replicate_eqI) (auto simp: l(1) dest: set_takeWhileD)
  then have "take l (drop i gs) = replicate l 0" using takeWhile_eq_take l(1) by metis
  then have "drop i gs = replicate l 0 @ drop (i + l) gs"
    using append_take_drop_id[of l "drop i gs"] by (simp add: add.commute)
  then have "gs = take i gs @ replicate l 0 @ drop (i + l) gs"
    using append_take_drop_id[of i gs] by simp
  moreover have "l \<le> length (drop i gs)" unfolding l(1) by (rule length_takeWhile_le)
  ultimately show ?thesis using l(2) gs i by (simp add: zero_at_def)
qed

lemma zero_run_Some:
  assumes gs: "length gs = 8" and r: "zero_run gs = Some r"
  shows "zero_at gs r"
proof -
  have "pred_option (zero_at gs) (fold (zero_step gs) js best)"
    if "set js \<subseteq> {..8}" "pred_option (zero_at gs) best" for js best
    using that
  proof (induction js arbitrary: best)
    case (Cons i js)
    have "pred_option (zero_at gs) (zero_step gs i best)"
      using zero_at_run[OF gs, of i] Cons.prems by (simp add: zero_step_def Let_def)
    then show ?case using Cons by simp
  qed simp
  from this[of "[0..<8]" None] have "pred_option (zero_at gs) (zero_run gs)"
    unfolding zero_run_def by (simp add: subset_iff)
  then show ?thesis using r by simp
qed

section \<open>The round trip\<close>

lemma join_groups_chars:
  assumes "\<forall>g \<in> set gs. g < 65536" "c \<in> set (join_groups gs)"
  shows "c = CHR '':'' \<or> (\<exists>d<16. c = digit_char d)"
  using assms
proof (induction gs rule: join_groups.induct)
  case (2 g)
  then show ?case using hex16_chars[of g c] by auto
next
  case (3 g h hs)
  then show ?case using hex16_chars[of g c] by auto
qed simp

lemma parseIPv6_plain:
  assumes "length gs = 8" "\<forall>g \<in> set gs. g < 65536"
  shows "parseIPv6 (join_groups gs) = Some (group_bytes gs)"
proof -
  have "gs \<noteq> []" using assms by auto
  then obtain c t where j: "join_groups gs = c # t" "c \<noteq> CHR '':''" using join_groups_hd assms(2) by blast
  then have "\<not> HasPrefix (join_groups gs) ''::''" by (simp add: HasPrefix_def)
  moreover have "v6_loop 8 (join_groups gs) [] None = Some ([], [] @ group_bytes gs, None)"
    using assms by (intro v6_loop_join) auto
  ultimately show ?thesis using assms by (simp add: parseIPv6_def del: v6_loop.simps)
qed

lemma parseIPv6_ellipsis:
  assumes "length gs + length hs \<le> 6" "\<forall>g \<in> set gs. g < 65536" "\<forall>g \<in> set hs. g < 65536"
  shows "parseIPv6 (join_groups gs @ ''::'' @ join_groups hs) =
     Some (group_bytes gs @ replicate (16 - 2 * (length gs + length hs)) 0 @ group_bytes hs)"
proof (cases "gs = []")
  case True
  show ?thesis
  proof (cases "hs = []")
    case False
    have "v6_loop 8 (join_groups hs) [] (Some 0) = Some ([], [] @ group_bytes hs, Some 0)"
      using assms False by (intro v6_loop_join) auto
    moreover have "join_groups hs \<noteq> []" using join_groups_hd[OF False assms(3)] by force
    ultimately show ?thesis using True assms(1)
      by (simp add: parseIPv6_def HasPrefix_def del: v6_loop.simps)
  qed (simp add: True parseIPv6_def HasPrefix_def)
next
  case False
  obtain c t where j: "join_groups gs = c # t" "c \<noteq> CHR '':''" using join_groups_hd[OF False assms(2)] by auto
  then have np: "\<not> HasPrefix (join_groups gs @ ''::'' @ join_groups hs) ''::''" by (simp add: HasPrefix_def)
  have "v6_loop 8 (join_groups gs @ ''::'' @ join_groups hs) [] None =
        Some ([], group_bytes gs @ group_bytes hs, Some (2 * length gs))"
  proof (cases "hs = []")
    case True
    then show ?thesis using v6_loop_join_ellipsis[OF False _ assms(2), of 8 "[]" "[]"] assms(1)
      by (simp del: v6_loop.simps)
  next
    case hs: False
    have "v6_loop (8 - length gs) (join_groups hs) (group_bytes gs) (Some (2 * length gs))
          = Some ([], group_bytes gs @ group_bytes hs, Some (2 * length gs))"
      using assms hs by (intro v6_loop_join) auto
    moreover have "join_groups hs \<noteq> []" using join_groups_hd[OF hs assms(3)] by force
    ultimately show ?thesis
      using v6_loop_join_ellipsis[OF False _ assms(2), of 8 "join_groups hs" "[]"] assms(1)
      by (simp del: v6_loop.simps)
  qed
  then show ?thesis using np assms(1) by (simp add: parseIPv6_def del: v6_loop.simps)
qed

lemma find_only:
  "y \<in> set t \<Longrightarrow> \<forall>c \<in> set t. c = y \<or> \<not> P c \<Longrightarrow> P y \<Longrightarrow> find P t = Some y"
  by (induction t) auto

lemma find_colon:
  assumes "CHR '':'' \<in> set s" "\<forall>c \<in> set s. c = CHR '':'' \<or> (\<exists>d<16. c = digit_char d)"
  shows "find (\<lambda>c. c \<in> {CHR ''.'', CHR '':'', CHR ''%''}) s = Some (CHR '':'')"
    and "CHR ''%'' \<notin> set s"
proof -
  have only: "c = CHR '':'' \<or> (c \<noteq> CHR ''.'' \<and> c \<noteq> CHR ''%'')" if c: "c \<in> set s" for c
  proof (cases "c = CHR '':''")
    case False
    then obtain d where d: "d < 16" "c = digit_char d" using bspec[OF assms(2) c] False by blast
    show ?thesis unfolding d(2) using digit_char_ne[OF d(1)] by simp
  qed simp
  show "CHR ''%'' \<notin> set s"
  proof
    assume "CHR ''%'' \<in> set s"
    from only[OF this] show False by simp
  qed
  show "find (\<lambda>c. c \<in> {CHR ''.'', CHR '':'', CHR ''%''}) s = Some (CHR '':'')"
  proof (rule find_only[OF assms(1)])
    show "\<forall>c \<in> set s. c = CHR '':'' \<or> c \<notin> {CHR ''.'', CHR '':'', CHR ''%''}"
    proof
      fix c assume "c \<in> set s"
      from only[OF this] show "c = CHR '':'' \<or> c \<notin> {CHR ''.'', CHR '':'', CHR ''%''}" by blast
    qed
  qed simp
qed

lemma string6_parse:
  assumes "length x = 16"
  shows "parseIPv6 (string6 x) = Some x"
    and "CHR '':'' \<in> set (string6 x)"
    and "\<forall>c \<in> set (string6 x). c = CHR '':'' \<or> (\<exists>d<16. c = digit_char d)"
proof -
  let ?gs = "groups16 x"
  have b: "\<forall>g \<in> set ?gs. g < 65536" using groups16_bound by blast
  have "parseIPv6 (string6 x) = Some (group_bytes ?gs) \<and> CHR '':'' \<in> set (string6 x)
     \<and> (\<forall>c \<in> set (string6 x). c = CHR '':'' \<or> (\<exists>d<16. c = digit_char d))"
  proof (cases "zero_run ?gs")
    case None
    obtain g h hs where gs: "?gs = g # h # hs"
      by (metis length_groups16 length_0_conv length_Suc_conv numeral_eq_Suc pred_numeral_simps(2))
    have "CHR '':'' \<in> set (join_groups ?gs)" by (simp add: gs)
    then show ?thesis using None parseIPv6_plain[OF length_groups16 b] join_groups_chars[OF b]
      by (auto simp: string6_def)
  next
    case (Some r)
    obtain s e where r: "r = (s, e)" by (cases r)
    have z: "s + 2 \<le> e" "e \<le> 8" "?gs = take s ?gs @ replicate (e - s) 0 @ drop e ?gs"
      using zero_run_Some[OF length_groups16 Some] by (simp_all add: r zero_at_def)
    have str: "string6 x = join_groups (take s ?gs) @ ''::'' @ join_groups (drop e ?gs)"
      using Some by (simp add: string6_def r Let_def)
    have bs: "\<forall>g \<in> set (take s ?gs). g < 65536" "\<forall>g \<in> set (drop e ?gs). g < 65536"
      using b by (meson in_set_takeD in_set_dropD)+
    have "16 - 2 * (s + (8 - e)) = 2 * (e - s)" using z by simp
    then have "parseIPv6 (string6 x) = Some (group_bytes (take s ?gs)
        @ group_bytes (replicate (e - s) 0) @ group_bytes (drop e ?gs))"
      unfolding str using parseIPv6_ellipsis[OF _ bs] z(1,2) by (simp add: group_bytes_zero min_def)
    also have "\<dots> = Some (group_bytes ?gs)" by (metis z(3) group_bytes_simps(3))
    finally show ?thesis using join_groups_chars[OF bs(1)] join_groups_chars[OF bs(2)]
      by (auto simp: str)
  qed
  then show "parseIPv6 (string6 x) = Some x" "CHR '':'' \<in> set (string6 x)"
    "\<forall>c \<in> set (string6 x). c = CHR '':'' \<or> (\<exists>d<16. c = digit_char d)"
    using group_bytes_groups16[OF assms] by simp_all
qed

lemma To4_mapped: "length x = 16 \<Longrightarrow> To4 x \<noteq> [] \<Longrightarrow> length (To4 x) = 4 \<and> x = v4InV6Prefix @ To4 x"
  by (auto simp: To4_def split: if_splits) (metis append_take_drop_id)

lemma dotted_find:
  "find (\<lambda>c. c \<in> {CHR ''.'', CHR '':'', CHR ''%''}) (dotted x) = Some (CHR ''.'')"
proof -
  have digits: "c \<notin> {CHR ''.'', CHR '':'', CHR ''%''}" if "c \<in> set (dec (unat (b :: byte)))" for b c
    using that by (cases rule: dec_digits[OF unat_byte_less[of b]]) auto
  have skip: "find P (as @ CHR ''.'' # bs) = Some (CHR ''.'')"
    if "\<forall>c \<in> set as. \<not> P c" "P (CHR ''.'')" for P as bs
    using that by (induction as) auto
  show ?thesis unfolding dotted_def by (simp, rule skip) (use digits in auto)
qed

text \<open>\<open>ParseIP\<close> as a decoder: nil is failure.\<close>

definition ip_decode :: "string \<Rightarrow> ip option" where
  "ip_decode s = (case ParseIP s of [] \<Rightarrow> None | b # bs \<Rightarrow> Some (b # bs))"

lemma ParseIP_String:
  assumes "length x = 16"
  shows "ParseIP (IP_String x) = x"
proof (cases "To4 x = []")
  case True
  then have "IP_String x = string6 x" using assms by (auto simp: IP_String_def)
  with string6_parse[OF assms] find_colon[OF string6_parse(2,3)[OF assms]] show ?thesis
    by (simp add: ParseIP_def)
next
  case False
  then have "IP_String x = dotted (To4 x)" using assms by (auto simp: IP_String_def)
  with parseIPv4Fields_dotted[of "To4 x"] dotted_find[of "To4 x"] To4_mapped[OF assms False]
  show ?thesis by (simp add: ParseIP_def)
qed

interpretation iptext: codec IP_String ip_decode "\<lambda>x. length x = 16"
  by unfold_locales (auto simp: ip_decode_def ParseIP_String split: list.splits)

end
