(* ===== verification/Config.thy ===== *)
theory Config
  imports IP_Text
begin

text \<open>
  \<open>internal/config/config.go\<close>: the configuration schema, its defaults and its validation.  Reading
  the file and decoding YAML are the operating system's and the yaml library's work, parameters
  of \<open>Load\<close>: \<open>decode\<close> gives the decoded struct (zero values for absent keys) or an error,
  \<open>nodes\<close> the top-level key/node pairs of the same text.  Errors are the values of
  \<open>config_error\<close>, one constructor per error return, with the values the message quotes.
\<close>

section \<open>Data\<close>

record account =
  a_name :: string
  a_username :: string
  a_password :: string
  a_start :: u64
  a_size :: u64

record config =
  HTTPListen :: string
  SOCKS5Listen :: string
  StatsListen :: string
  StatsToken :: string
  EnableHTTP :: bool
  EnableSOCKS5 :: bool
  EnableStats :: bool
  PoolPrefix :: string
  PoolBits :: int
  PoolHosts :: "string list"
  FixedSource :: string
  SourceIface :: string
  AutoPool :: bool
  ClaimIface :: string
  ClaimTTL :: int
  LogRequests :: bool
  StickyTTL :: int
  AvoidRecent :: int
  AvoidHostsMax :: int
  PoolSeed :: string
  DialTimeout :: int
  Accounts :: "account list"

definition DefaultHTTPListen :: string where "DefaultHTTPListen = '':3128''"
definition DefaultSOCKS5Listen :: string where "DefaultSOCKS5Listen = '':1080''"
definition DefaultPoolBits :: int where "DefaultPoolBits = 64"
definition DefaultStickyTTL :: int where "DefaultStickyTTL = 300"
definition DefaultAvoidRecent :: int where "DefaultAvoidRecent = 128"
definition DefaultDialTimeout :: int where "DefaultDialTimeout = 15"
definition DefaultClaimTTL :: int where "DefaultClaimTTL = 300"

lemmas config_defaults = DefaultHTTPListen_def DefaultSOCKS5Listen_def DefaultPoolBits_def
  DefaultStickyTTL_def DefaultAvoidRecent_def DefaultDialTimeout_def DefaultClaimTTL_def

datatype config_error =
  ReadErr string
| ParseErr string
| PoolRequired
| BadPrefix string
| BadBits int
| BadHost string
| NoAccounts
| NoUsername nat
| NegativeValue
| BadSeed string

text \<open>What the code reads of a \<open>yaml.Node\<close>.\<close>

record yaml_node =
  node_scalar :: bool
  node_tag :: string
  node_value :: string

section \<open>Operations\<close>

definition presentKeys :: "(string \<times> yaml_node) list option \<Rightarrow> string list" where
  "presentKeys raw =
     (case raw of
        None \<Rightarrow> []
      | Some kns \<Rightarrow>
          map fst (filter (\<lambda>(k, n). \<not> (node_scalar n \<and> (node_tag n = ''!!null'' \<or> node_value n = '''')))
                     kns))"

definition applyEnableDefaults :: "config \<Rightarrow> string list \<Rightarrow> config" where
  "applyEnableDefaults c present =
     (let c = (if ''enable_http'' \<notin> set present then c\<lparr>EnableHTTP := True\<rparr> else c);
          c = (if ''enable_socks5'' \<notin> set present then c\<lparr>EnableSOCKS5 := True\<rparr> else c)
      in if ''enable_stats'' \<notin> set present then c\<lparr>EnableStats := True\<rparr> else c)"

definition applyDefaults :: "config \<Rightarrow> config" where
  "applyDefaults c =
     (let c = (if HTTPListen c = '''' then c\<lparr>HTTPListen := DefaultHTTPListen\<rparr> else c);
          c = (if SOCKS5Listen c = '''' then c\<lparr>SOCKS5Listen := DefaultSOCKS5Listen\<rparr> else c);
          c = (if PoolBits c = 0 then c\<lparr>PoolBits := DefaultPoolBits\<rparr> else c);
          c = (if StickyTTL c = 0 then c\<lparr>StickyTTL := DefaultStickyTTL\<rparr> else c);
          c = (if AvoidRecent c = 0 then c\<lparr>AvoidRecent := DefaultAvoidRecent\<rparr> else c);
          c = (if DialTimeout c = 0 then c\<lparr>DialTimeout := DefaultDialTimeout\<rparr> else c)
      in if ClaimTTL c = 0 then c\<lparr>ClaimTTL := DefaultClaimTTL\<rparr> else c)"

text \<open>The loops of \<open>validate\<close>: the first bad pool host, the index of the first account without a
  username.\<close>

fun bad_host :: "string list \<Rightarrow> string option" where
  "bad_host [] = None"
| "bad_host (h # hs) =
     (let ip = ParseIP h
      in if ip = [] \<or> To16 ip = [] \<or> To4 ip \<noteq> [] then Some h else bad_host hs)"

fun no_username :: "nat \<Rightarrow> account list \<Rightarrow> nat option" where
  "no_username i [] = None"
| "no_username i (a # as) = (if a_username a = '''' then Some i else no_username (i + 1) as)"

definition bad_seed :: "string \<Rightarrow> bool" where
  "bad_seed s =
     (case hex_decode s of None \<Rightarrow> True | Some raw \<Rightarrow> length raw = 0 \<or> length raw > 8)"

definition validate :: "config \<Rightarrow> config_error option" where
  "validate c =
     (if PoolPrefix c = '''' \<and> length (PoolHosts c) = 0 \<and> \<not> AutoPool c \<and> FixedSource c = ''''
      then Some PoolRequired
      else if PoolPrefix c \<noteq> '''' \<and> (ParseIP (PoolPrefix c) = [] \<or> To16 (ParseIP (PoolPrefix c)) = [])
      then Some (BadPrefix (PoolPrefix c))
      else if PoolBits c < 0 \<or> PoolBits c > 128 then Some (BadBits (PoolBits c))
      else case bad_host (PoolHosts c) of
        Some h \<Rightarrow> Some (BadHost h)
      | None \<Rightarrow>
          if length (Accounts c) = 0 then Some NoAccounts
          else case no_username 0 (Accounts c) of
            Some i \<Rightarrow> Some (NoUsername i)
          | None \<Rightarrow>
              if StickyTTL c < 0 \<or> AvoidRecent c < 0 \<or> DialTimeout c < 0 \<or> ClaimTTL c < 0
              then Some NegativeValue
              else if PoolSeed c \<noteq> '''' \<and> bad_seed (PoolSeed c) then Some (BadSeed (PoolSeed c))
              else None)"

definition Load ::
  "(string \<Rightarrow> string + string) \<Rightarrow> (string \<Rightarrow> string + config)
   \<Rightarrow> (string \<Rightarrow> (string \<times> yaml_node) list option) \<Rightarrow> string \<Rightarrow> config_error + config" where
  "Load readFile decode nodes path =
     (case readFile path of
        Inl e \<Rightarrow> Inl (ReadErr e)
      | Inr data \<Rightarrow>
          (case decode data of
             Inl e \<Rightarrow> Inl (ParseErr e)
           | Inr cfg \<Rightarrow>
               (let cfg = applyDefaults (applyEnableDefaults cfg (presentKeys (nodes data)))
                in case validate cfg of Some e \<Rightarrow> Inl e | None \<Rightarrow> Inr cfg)))"

section \<open>Validity\<close>

definition host_ok :: "string \<Rightarrow> bool" where
  "host_ok h \<longleftrightarrow> length (ParseIP h) = 16 \<and> To4 (ParseIP h) = []"

definition seed_ok :: "string \<Rightarrow> bool" where
  "seed_ok s \<longleftrightarrow> s = '''' \<or> (s \<noteq> '''' \<and> length s \<le> 16 \<and> hex_decode s \<noteq> None)"

text \<open>What a loaded configuration promises the rest of the program.\<close>

definition config_ok :: "config \<Rightarrow> bool" where
  "config_ok c \<longleftrightarrow>
     (PoolPrefix c \<noteq> '''' \<or> PoolHosts c \<noteq> [] \<or> AutoPool c \<or> FixedSource c \<noteq> '''')
     \<and> (PoolPrefix c = '''' \<or> length (ParseIP (PoolPrefix c)) = 16)
     \<and> PoolBits c \<in> {0..128} \<and> list_all host_ok (PoolHosts c)
     \<and> Accounts c \<noteq> [] \<and> list_all (\<lambda>a. a_username a \<noteq> '''') (Accounts c)
     \<and> 0 \<le> StickyTTL c \<and> 0 \<le> AvoidRecent c \<and> 0 \<le> DialTimeout c \<and> 0 \<le> ClaimTTL c
     \<and> seed_ok (PoolSeed c)"

lemma length_parseIPv4Fields: "parseIPv4Fields s = Some f \<Longrightarrow> length f = 4"
proof -
  have "v4_fields p v d flds s = Some r \<Longrightarrow> length flds \<le> 3 \<Longrightarrow> length r = 4" for p v d flds r
    by (induction p v d flds s rule: v4_fields.induct)
       (auto split: option.splits if_splits)
  then show "parseIPv4Fields s = Some f \<Longrightarrow> length f = 4"
    by (fastforce simp: parseIPv4Fields_def)
qed

lemma v6_loop_length:
  "v6_loop n s x e = Some (r, y, e') \<Longrightarrow> length x + 2 * n \<le> 16 \<Longrightarrow>
     (\<forall>k. e = Some k \<longrightarrow> k \<le> length x) \<Longrightarrow> length y \<le> 16 \<and> (\<forall>k. e' = Some k \<longrightarrow> k \<le> length y)"
proof (induction n s x e arbitrary: r y e' rule: v6_loop.induct)
  case (2 n s x ell)
  from "2.prems"(1) obtain off acc rest where sc: "scan_hex 0 0 s = Some (off, acc, rest)"
    and off: "off \<noteq> 0" by (auto split: option.splits if_splits)
  show ?case
  proof (cases "rest \<noteq> [] \<and> hd rest = CHR ''.''")
    case True
    with "2.prems" sc off length_parseIPv4Fields show ?thesis
      by (fastforce split: option.splits if_splits)
  next
    case False
    let ?x = "x @ [word_of_nat (acc div 256), word_of_nat (acc mod 256)]"
    have IH: "v6_loop n s1 ?x e1 = Some (r, y, e') \<Longrightarrow> (\<forall>k. e1 = Some k \<longrightarrow> k \<le> length ?x)
      \<Longrightarrow> length y \<le> 16 \<and> (\<forall>k. e' = Some k \<longrightarrow> k \<le> length y)"
      if "rest = CHR '':'' # s0" "s0 \<noteq> []"
        "(hd s0 = CHR '':'' \<and> ell = None \<and> tl s0 \<noteq> [] \<and> s1 = tl s0 \<and> e1 = Some (length ?x)) \<or>
         (hd s0 \<noteq> CHR '':'' \<and> s1 = s0 \<and> e1 = ell)" for s0 s1 e1
      using that "2.IH"(1)[OF sc refl refl off False refl, of _ s0]
        "2.IH"(2)[OF sc refl refl off False refl, of _ s0] "2.prems"(2) by auto
    show ?thesis
    proof (cases rest)
      case Nil
      with "2.prems" sc off show ?thesis by (auto simp: Let_def le_SucI)
    next
      case (Cons c s0)
      with "2.prems"(1) sc off False have c: "c = CHR '':''" "s0 \<noteq> []"
        by (auto simp: Let_def split: if_splits)
      note run = "2.prems"(1)[unfolded v6_loop.simps(2) sc]
      show ?thesis
      proof (cases "hd s0 = CHR '':''")
        case True
        show ?thesis
        proof (cases "tl s0 = []")
          case True
          with run \<open>hd s0 = CHR '':''\<close> Cons c off False "2.prems"(2) show ?thesis
            by (auto simp: Let_def split: if_splits)
        next
          case F: False
          with run True Cons c off False have "v6_loop n (tl s0) ?x (Some (length ?x)) = Some (r, y, e')" "ell = None"
            by (auto simp: Let_def split: if_splits)
          with IH[of s0 "tl s0" "Some (length ?x)"] Cons c True F show ?thesis by auto
        qed
      next
        case F: False
        with run Cons c off False have "v6_loop n s0 ?x ell = Some (r, y, e')"
          by (auto simp: Let_def split: if_splits)
        with IH[of s0 s0 ell] Cons c F "2.prems"(3) show ?thesis by (simp add: le_SucI)
      qed
    qed
  qed
qed auto

lemma parseIPv6_length: "parseIPv6 s = Some x \<Longrightarrow> length x = 16"
  using v6_loop_length[of 8 "if HasPrefix s ''::'' then drop 2 s else s" "[]"
      "if HasPrefix s ''::'' then Some 0 else None"]
  by (fastforce simp: parseIPv6_def Let_def split: if_splits option.splits prod.splits)

lemma ParseIP_length: "ParseIP s = [] \<or> length (ParseIP s) = 16"
  by (auto simp: ParseIP_def v4InV6Prefix_def split: option.splits
      dest: parseIPv6_length length_parseIPv4Fields)

lemma ParseIP_ok: "ParseIP s = [] \<or> To16 (ParseIP s) = [] \<longleftrightarrow> length (ParseIP s) \<noteq> 16"
  using ParseIP_length[of s] by (auto simp: To16_def)

lemma bad_host_None: "bad_host hs = None \<longleftrightarrow> list_all host_ok hs"
  using ParseIP_ok by (induction hs) (auto simp: host_ok_def Let_def)

lemma no_username_None: "no_username i as = None \<longleftrightarrow> list_all (\<lambda>a. a_username a \<noteq> '''') as"
  by (induction i as rule: no_username.induct) simp_all

lemma bad_seed_iff: "s \<noteq> '''' \<and> bad_seed s \<longleftrightarrow> \<not> seed_ok s"
  by (auto simp: bad_seed_def seed_ok_def split: option.splits dest: hex_decode_length)

lemma validate_None: "validate c = None \<longleftrightarrow> config_ok c"
proof -
  have pre: "PoolPrefix c \<noteq> [] \<and> (ParseIP (PoolPrefix c) = [] \<or> To16 (ParseIP (PoolPrefix c)) = [])
      \<longleftrightarrow> \<not> (PoolPrefix c = [] \<or> length (ParseIP (PoolPrefix c)) = 16)"
    using ParseIP_ok[of "PoolPrefix c"] by blast
  have nu: "(no_username 0 (Accounts c) = None) = list_all (\<lambda>a. a_username a \<noteq> []) (Accounts c)"
    by (rule no_username_None)
  show ?thesis
    unfolding validate_def config_ok_def pre bad_seed_iff nu[symmetric] bad_host_None[symmetric]
    by (auto simp: not_le not_less split: option.splits)
qed

text \<open>The defaults in closed form, one update per field.\<close>

lemma fill_update [simp]:
  "(if P then c\<lparr>HTTPListen := l\<rparr> else c) = c\<lparr>HTTPListen := if P then l else HTTPListen c\<rparr>"
  "(if P then c\<lparr>SOCKS5Listen := l\<rparr> else c) = c\<lparr>SOCKS5Listen := if P then l else SOCKS5Listen c\<rparr>"
  "(if P then c\<lparr>PoolBits := n\<rparr> else c) = c\<lparr>PoolBits := if P then n else PoolBits c\<rparr>"
  "(if P then c\<lparr>StickyTTL := n\<rparr> else c) = c\<lparr>StickyTTL := if P then n else StickyTTL c\<rparr>"
  "(if P then c\<lparr>AvoidRecent := n\<rparr> else c) = c\<lparr>AvoidRecent := if P then n else AvoidRecent c\<rparr>"
  "(if P then c\<lparr>DialTimeout := n\<rparr> else c) = c\<lparr>DialTimeout := if P then n else DialTimeout c\<rparr>"
  "(if P then c\<lparr>ClaimTTL := n\<rparr> else c) = c\<lparr>ClaimTTL := if P then n else ClaimTTL c\<rparr>"
  "(if P then c\<lparr>EnableHTTP := b\<rparr> else c) = c\<lparr>EnableHTTP := if P then b else EnableHTTP c\<rparr>"
  "(if P then c\<lparr>EnableSOCKS5 := b\<rparr> else c) = c\<lparr>EnableSOCKS5 := if P then b else EnableSOCKS5 c\<rparr>"
  "(if P then c\<lparr>EnableStats := b\<rparr> else c) = c\<lparr>EnableStats := if P then b else EnableStats c\<rparr>"
  by (cases c; simp)+

lemma applyDefaults_closed:
  "applyDefaults c = c\<lparr>
     HTTPListen := if HTTPListen c = [] then '':3128'' else HTTPListen c,
     SOCKS5Listen := if SOCKS5Listen c = [] then '':1080'' else SOCKS5Listen c,
     PoolBits := if PoolBits c = 0 then 64 else PoolBits c,
     StickyTTL := if StickyTTL c = 0 then 300 else StickyTTL c,
     AvoidRecent := if AvoidRecent c = 0 then 128 else AvoidRecent c,
     DialTimeout := if DialTimeout c = 0 then 15 else DialTimeout c,
     ClaimTTL := if ClaimTTL c = 0 then 300 else ClaimTTL c\<rparr>"
  unfolding applyDefaults_def config_defaults by simp

lemma applyEnableDefaults_closed:
  "applyEnableDefaults c ps = c\<lparr>
     EnableHTTP := (''enable_http'' \<in> set ps \<longrightarrow> EnableHTTP c),
     EnableSOCKS5 := (''enable_socks5'' \<in> set ps \<longrightarrow> EnableSOCKS5 c),
     EnableStats := (''enable_stats'' \<in> set ps \<longrightarrow> EnableStats c)\<rparr>"
  unfolding applyEnableDefaults_def fill_update Let_def by simp

lemmas fill_closed = applyDefaults_closed applyEnableDefaults_closed

text \<open>A zero replaced by a default keeps a bound.\<close>

lemma fill_bounds [simp]:
  fixes n k b :: int
  shows "0 \<le> k \<Longrightarrow> 0 \<le> (if n = 0 then k else n) \<longleftrightarrow> 0 \<le> n"
    and "1 \<le> k \<Longrightarrow> 1 \<le> (if n = 0 then k else n) \<longleftrightarrow> 0 \<le> n"
    and "0 \<le> b \<Longrightarrow> k \<le> b \<Longrightarrow> (if n = 0 then k else n) \<le> b \<longleftrightarrow> n \<le> b"
  by auto

lemma config_ok_fill: "config_ok (applyDefaults (applyEnableDefaults c ps)) \<longleftrightarrow> config_ok c"
  by (simp add: fill_closed config_ok_def split del: if_split cong: if_cong)

lemma applyDefaults_positive:
  "(0 \<le> StickyTTL (applyDefaults c) \<longrightarrow> 1 \<le> StickyTTL (applyDefaults c))
   \<and> (0 \<le> AvoidRecent (applyDefaults c) \<longrightarrow> 1 \<le> AvoidRecent (applyDefaults c))
   \<and> (0 \<le> DialTimeout (applyDefaults c) \<longrightarrow> 1 \<le> DialTimeout (applyDefaults c))
   \<and> (0 \<le> ClaimTTL (applyDefaults c) \<longrightarrow> 1 \<le> ClaimTTL (applyDefaults c))
   \<and> (0 \<le> PoolBits (applyDefaults c) \<longrightarrow> 1 \<le> PoolBits (applyDefaults c))
   \<and> HTTPListen (applyDefaults c) \<noteq> [] \<and> SOCKS5Listen (applyDefaults c) \<noteq> []"
  unfolding applyDefaults_closed by simp

lemma Load_filled:
  assumes "readFile path = Inr data" "decode data = Inr raw" "config_ok raw"
  shows "Load readFile decode nodes path
    = Inr (applyDefaults (applyEnableDefaults raw (presentKeys (nodes data))))"
proof -
  have "validate (applyDefaults (applyEnableDefaults raw (presentKeys (nodes data)))) = None"
    using assms(3) by (simp add: validate_None config_ok_fill)
  then show ?thesis using assms(1,2) by (simp add: Load_def Let_def)
qed

section \<open>Properties\<close>

text \<open>C25. A configuration that \<open>Load\<close> returns is valid, and strictly positive where the defaults
  replaced a zero: the pool prefix length is in 1..128, the session TTL, the recent window, the dial
  timeout and the claim TTL are at least 1, both listen addresses are set.  So an explicit
  \<open>avoid_recent: 0\<close> never reaches the program.\<close>

theorem Load_valid:
  assumes "Load readFile decode nodes path = Inr c"
  shows "config_ok c \<and> 1 \<le> PoolBits c \<and> 1 \<le> StickyTTL c \<and> 1 \<le> AvoidRecent c \<and> 1 \<le> DialTimeout c
    \<and> 1 \<le> ClaimTTL c \<and> HTTPListen c \<noteq> '''' \<and> SOCKS5Listen c \<noteq> ''''"
proof -
  obtain d where c: "c = applyDefaults d" "validate c = None"
    using assms by (auto simp: Load_def Let_def split: sum.splits option.splits)
  then have "config_ok c" by (simp add: validate_None)
  moreover from this have "0 \<le> PoolBits c" "0 \<le> StickyTTL c" "0 \<le> AvoidRecent c" "0 \<le> DialTimeout c"
    "0 \<le> ClaimTTL c" by (simp_all add: config_ok_def)
  ultimately show ?thesis using applyDefaults_positive[of d] by (simp add: c(1))
qed

definition sample_config :: config where
  "sample_config = \<lparr>HTTPListen = '''', SOCKS5Listen = '''', StatsListen = '''', StatsToken = '''',
     EnableHTTP = False, EnableSOCKS5 = False, EnableStats = False, PoolPrefix = IP_String (0x20 # 1 # replicate 14 0),
     PoolBits = 0, PoolHosts = [], FixedSource = '''', SourceIface = '''', AutoPool = False,
     ClaimIface = '''', ClaimTTL = 0, LogRequests = False, StickyTTL = 0, AvoidRecent = 0,
     AvoidHostsMax = 0, PoolSeed = ''00ff'', DialTimeout = 0,
     Accounts = [\<lparr>a_name = ''a'', a_username = ''u'', a_password = ''p'', a_start = 0, a_size = 0\<rparr>]\<rparr>"

lemma IP_String_ne_Nil [simp]: "length x = 16 \<Longrightarrow> IP_String x \<noteq> []"
  using ParseIP_String[of x] by (auto simp: ParseIP_def)

lemma sample_ok: "config_ok sample_config"
proof -
  have h: "hex_decode ''00ff'' = Some [0, 255]" by code_simp
  show ?thesis
    by (simp add: config_ok_def sample_config_def ParseIP_String seed_ok_def h
        del: hex_decode.simps)
qed

lemma sample_Load:
  "Load (\<lambda>_. Inr ''text'') (\<lambda>_. Inr sample_config) (\<lambda>_. Some kns) path
     = Inr (applyDefaults (applyEnableDefaults sample_config (presentKeys (Some kns))))"
  using sample_ok by (simp add: Load_filled)

theorem Load_valid_witness:
  "1 \<le> AvoidRecent (applyDefaults (applyEnableDefaults sample_config []))"
  using Load_valid[OF sample_Load[of "[]"]] by (simp add: presentKeys_def)

text \<open>C24. \<open>Load\<close> returns a configuration exactly when the file reads, decodes and the decoded values
  are valid, and then the decoded values are filled in as written here: every zero default field
  gets its default, a listener is enabled unless its key is present with a non-null value that
  decodes to false, and nothing else changes.\<close>

theorem Load_iff:
  "Load readFile decode nodes path = Inr c \<longleftrightarrow>
     (\<exists>data raw. readFile path = Inr data \<and> decode data = Inr raw \<and> config_ok raw
        \<and> c = raw\<lparr>
            EnableHTTP := (if ''enable_http'' \<in> set (presentKeys (nodes data)) then EnableHTTP raw else True),
            EnableSOCKS5 := (if ''enable_socks5'' \<in> set (presentKeys (nodes data)) then EnableSOCKS5 raw else True),
            EnableStats := (if ''enable_stats'' \<in> set (presentKeys (nodes data)) then EnableStats raw else True),
            HTTPListen := if HTTPListen raw = '''' then '':3128'' else HTTPListen raw,
            SOCKS5Listen := if SOCKS5Listen raw = '''' then '':1080'' else SOCKS5Listen raw,
            PoolBits := if PoolBits raw = 0 then 64 else PoolBits raw,
            StickyTTL := if StickyTTL raw = 0 then 300 else StickyTTL raw,
            AvoidRecent := if AvoidRecent raw = 0 then 128 else AvoidRecent raw,
            DialTimeout := if DialTimeout raw = 0 then 15 else DialTimeout raw,
            ClaimTTL := if ClaimTTL raw = 0 then 300 else ClaimTTL raw\<rparr>)"
proof -
  have imp: "(k \<in> K \<longrightarrow> b) \<longleftrightarrow> (if k \<in> K then b else True)" for k :: string and K b by simp
  have "Load readFile decode nodes path = Inr c \<longleftrightarrow>
     (\<exists>data raw. readFile path = Inr data \<and> decode data = Inr raw \<and> config_ok raw
        \<and> c = applyDefaults (applyEnableDefaults raw (presentKeys (nodes data))))"
    by (auto simp: Load_def Let_def option.case_eq_if validate_None config_ok_fill split: sum.splits)
  then show ?thesis by (simp add: fill_closed imp cong: if_cong)
qed

end
