(* ===== verification/Metrics.thy ===== *)
theory Metrics
  imports Codec
begin

text \<open>
  \<open>internal/metrics/metrics.go\<close>: the counters of a proxy instance and their JSON and Prometheus
  renderings.  \<open>atomic.Uint64\<close> counters are 64-bit words, \<open>atomic.Int64\<close> gauges integers (they
  count live objects).  Go maps are association lists; the order in which \<open>range\<close> visits the
  accounts is the parameter \<open>order\<close>.  The floating-point rendering of the uptime
  (\<open>secs\<close> for \<open>int(d.Seconds())\<close>, \<open>fmt_g\<close> for \<open>%g\<close>) and the Unicode table of printable
  characters beyond ASCII (\<open>printable\<close>, which \<open>strconv.IsPrint\<close> consults) are parameters.
\<close>

section \<open>Errors of the network\<close>

text \<open>What the program observes of a Go error: its message, whether a \<open>net.Error\<close> is in its
  chain and then its \<open>Timeout()\<close>, and whether a \<open>*net.OpError\<close> is in its chain.\<close>

record go_error =
  err_msg :: string
  err_net :: "bool option"
  err_op :: bool

datatype dial_reason = DialUnreachable | DialTimeoutReason | DialRefused | DialOther

definition reason_string :: "dial_reason \<Rightarrow> string" where
  "reason_string r =
     (case r of DialUnreachable \<Rightarrow> ''network_unreachable'' | DialTimeoutReason \<Rightarrow> ''timeout''
      | DialRefused \<Rightarrow> ''connection_refused'' | DialOther \<Rightarrow> ''other'')"

definition all_reasons :: "dial_reason list" where
  "all_reasons = [DialUnreachable, DialTimeoutReason, DialRefused, DialOther]"

text \<open>The buckets are all the reasons, so quantifiers over reasons evaluate.\<close>

instantiation dial_reason :: enum
begin

definition enum_dial_reason :: "dial_reason list" where
  "enum_dial_reason = all_reasons"

definition enum_all_dial_reason :: "(dial_reason \<Rightarrow> bool) \<Rightarrow> bool" where
  "enum_all_dial_reason P = list_all P all_reasons"

definition enum_ex_dial_reason :: "(dial_reason \<Rightarrow> bool) \<Rightarrow> bool" where
  "enum_ex_dial_reason P = list_ex P all_reasons"

instance proof
  have u: "UNIV = set all_reasons" using dial_reason.exhaust by (auto simp: all_reasons_def)
  show "(UNIV :: dial_reason set) = set Enum.enum" by (simp add: enum_dial_reason_def u)
  show "distinct (Enum.enum :: dial_reason list)" by (simp add: enum_dial_reason_def all_reasons_def)
  show "Enum.enum_all P = Ball UNIV P" "Enum.enum_ex P = Bex UNIV P" for P :: "dial_reason \<Rightarrow> bool"
    by (simp_all only: enum_all_dial_reason_def enum_ex_dial_reason_def list_all_iff list_ex_iff u)
qed

end

definition ClassifyDialErr :: "go_error \<Rightarrow> dial_reason" where
  "ClassifyDialErr err =
     (if err_net err = Some True then DialTimeoutReason
      else let msg = err_msg err
           in if Contains msg ''network is unreachable'' \<or> Contains msg ''no route to host''
              then DialUnreachable
              else if Contains msg ''connection refused'' then DialRefused
              else DialOther)"

section \<open>Counters\<close>

record acct_stats =
  acct_HTTPReqs :: u64
  acct_SOCKSConns :: u64
  acct_Rejected :: u64
  acct_BytesIn :: u64
  acct_BytesOut :: u64

record stats =
  Started :: int
  HTTPReqs :: u64
  SOCKSConns :: u64
  ActiveConns :: int
  Rejected :: u64
  BytesIn :: u64
  BytesOut :: u64
  ClaimsOK :: u64
  ClaimsFail :: u64
  SessionsCur :: int
  SessionsTot :: u64
  PicksTotal :: u64
  CycleSkips :: u64
  HostsCur :: int
  SeedFP :: string
  DialErrors :: "(dial_reason \<times> u64) list"
  AccountStats :: "(string \<times> acct_stats) list"

definition zero_acct :: acct_stats where
  "zero_acct = \<lparr>acct_HTTPReqs = 0, acct_SOCKSConns = 0, acct_Rejected = 0, acct_BytesIn = 0,
     acct_BytesOut = 0\<rparr>"

definition New_stats :: "int \<Rightarrow> string list \<Rightarrow> stats" where
  "New_stats now usernames =
     \<lparr>Started = now, HTTPReqs = 0, SOCKSConns = 0, ActiveConns = 0, Rejected = 0, BytesIn = 0,
      BytesOut = 0, ClaimsOK = 0, ClaimsFail = 0, SessionsCur = 0, SessionsTot = 0, PicksTotal = 0,
      CycleSkips = 0, HostsCur = 0, SeedFP = '''',
      DialErrors = fold (\<lambda>r. AList.update r 0) all_reasons [],
      AccountStats = fold (\<lambda>u. AList.update u zero_acct) usernames []\<rparr>"

definition Account :: "stats \<Rightarrow> string \<Rightarrow> acct_stats option" where
  "Account s username = map_of (AccountStats s) username"

text \<open>A bucket that does not exist would be a nil pointer: None.\<close>

definition AddDialErr :: "stats \<Rightarrow> go_error \<Rightarrow> stats option" where
  "AddDialErr s err =
     (case map_of (DialErrors s) (ClassifyDialErr err) of
        None \<Rightarrow> None
      | Some n \<Rightarrow> Some (s\<lparr>DialErrors := AList.update (ClassifyDialErr err) (n + 1) (DialErrors s)\<rparr>))"

section \<open>Rendering\<close>

definition dec_u64 :: "u64 \<Rightarrow> string" where
  "dec_u64 n = dec (unat n)"

definition dec_int :: "int \<Rightarrow> string" where
  "dec_int i = (if i < 0 then ''-'' @ dec (nat (- i)) else dec (nat i))"

text \<open>\<open>strconv.Quote\<close>, which \<open>%q\<close> uses.\<close>

definition escape :: "char \<Rightarrow> string" where
  "escape c =
     (let n = of_char c :: nat in
      if c = CHR 0x22 \<or> c = CHR 0x5C then [CHR 0x5C, c]
      else if 32 \<le> n \<and> n < 127 then [c]
      else if n = 7 then [CHR 0x5C, CHR ''a'']
      else if n = 8 then [CHR 0x5C, CHR ''b'']
      else if n = 12 then [CHR 0x5C, CHR ''f'']
      else if n = 10 then [CHR 0x5C, CHR ''n'']
      else if n = 13 then [CHR 0x5C, CHR ''r'']
      else if n = 9 then [CHR 0x5C, CHR ''t'']
      else if n = 11 then [CHR 0x5C, CHR ''v'']
      else [CHR 0x5C, CHR ''x'', digit_char (n div 16), digit_char (n mod 16)])"

text \<open>\<open>utf8.DecodeRuneInString\<close>: the rune at the front of a string and its width; 0xFFFD of width 1 for
  a byte that starts no well-formed sequence.  \<open>utf8_lead\<close>: the width of the sequence a byte starts,
  and the range of its second byte.\<close>

definition utf8_lead :: "nat \<Rightarrow> (nat \<times> nat \<times> nat) option" where
  "utf8_lead b =
     (if 0xC2 \<le> b \<and> b \<le> 0xDF then Some (2, 0x80, 0xBF)
      else if b = 0xE0 then Some (3, 0xA0, 0xBF)
      else if b = 0xED then Some (3, 0x80, 0x9F)
      else if 0xE1 \<le> b \<and> b \<le> 0xEF then Some (3, 0x80, 0xBF)
      else if b = 0xF0 then Some (4, 0x90, 0xBF)
      else if b = 0xF4 then Some (4, 0x80, 0x8F)
      else if 0xF1 \<le> b \<and> b \<le> 0xF3 then Some (4, 0x80, 0xBF)
      else None)"

definition DecodeRune :: "string \<Rightarrow> nat \<times> nat" where
  "DecodeRune s =
     (case map of_char s of
        [] \<Rightarrow> (0xFFFD, 0)
      | b # bs \<Rightarrow>
          if b < 0x80 then (b, 1)
          else (case utf8_lead b of
                  None \<Rightarrow> (0xFFFD, 1)
                | Some (w, lo, hi) \<Rightarrow>
                    if w - 1 \<le> length bs \<and> lo \<le> bs ! 0 \<and> bs ! 0 \<le> hi
                       \<and> list_all (\<lambda>c. 0x80 \<le> c \<and> c \<le> 0xBF) (take (w - 1) bs)
                    then (foldl (\<lambda>r c. r * 64 + c mod 64) (b mod 2 ^ (7 - w)) (take (w - 1) bs), w)
                    else (0xFFFD, 1)))"

definition hex_digits :: "nat \<Rightarrow> nat \<Rightarrow> string" where
  "hex_digits k r = map (\<lambda>i. digit_char (r div 16 ^ i mod 16)) (rev [0..<k])"

text \<open>\<open>appendEscapedRune\<close>, given the bytes the rune was decoded from (which are its encoding).\<close>

definition escape_rune :: "(nat \<Rightarrow> bool) \<Rightarrow> nat \<Rightarrow> string \<Rightarrow> string" where
  "escape_rune printable r bs =
     (if r < 0x80 then escape (char_of r)
      else if printable r then bs
      else if r < 0x10000 then [CHR 0x5C, CHR ''u''] @ hex_digits 4 r
      else [CHR 0x5C, CHR ''U''] @ hex_digits 8 r)"

fun quote_loop :: "(nat \<Rightarrow> bool) \<Rightarrow> string \<Rightarrow> string" where
  "quote_loop printable [] = []"
| "quote_loop printable (c # s) =
     (let (r, w) = DecodeRune (c # s)
      in (if w = 1 \<and> r = 0xFFFD then [CHR 0x5C, CHR ''x''] @ hex_digits 2 (of_char c)
          else escape_rune printable r (take w (c # s)))
         @ quote_loop printable (drop (w - 1) s))"

definition Quote :: "(nat \<Rightarrow> bool) \<Rightarrow> string \<Rightarrow> string" where
  "Quote printable s = [CHR 0x22] @ quote_loop printable s @ [CHR 0x22]"

datatype json = JInt int | JUint u64 | JStr string | JCounts "(string \<times> u64) list"

definition dialErrCounts :: "stats \<Rightarrow> (string \<times> u64) list" where
  "dialErrCounts s = map (\<lambda>(r, c). (reason_string r, c)) (DialErrors s)"

definition JSON :: "(int \<Rightarrow> int) \<Rightarrow> int \<Rightarrow> stats \<Rightarrow> (string \<times> json) list" where
  "JSON secs now s =
     [(''uptime_seconds'', JInt (secs (now - Started s))),
      (''accounts'', JInt (int (length (AccountStats s)))),
      (''session_count'', JInt (SessionsCur s)),
      (''http_requests'', JUint (HTTPReqs s)),
      (''socks5_conns'', JUint (SOCKSConns s)),
      (''active_conns'', JInt (ActiveConns s)),
      (''bytes_in'', JUint (BytesIn s)),
      (''bytes_out'', JUint (BytesOut s)),
      (''rejected'', JUint (Rejected s)),
      (''claims_ok'', JUint (ClaimsOK s)),
      (''claims_failed'', JUint (ClaimsFail s)),
      (''sessions_total'', JUint (SessionsTot s)),
      (''dial_errors'', JCounts (dialErrCounts s)),
      (''picks_total'', JUint (PicksTotal s)),
      (''cycle_skips'', JUint (CycleSkips s)),
      (''hosts_tracked'', JInt (HostsCur s)),
      (''pool_seed'', JStr (SeedFP s))]"

definition nl :: string where
  "nl = [CHR 0x0A]"

text \<open>The closure \<open>family\<close> of \<open>WritePrometheus\<close>: what one call writes.\<close>

definition family :: "string \<Rightarrow> string \<Rightarrow> string \<Rightarrow> string list \<Rightarrow> string" where
  "family name typ help samples =
     ''# HELP '' @ name @ '' '' @ help @ nl @ ''# TYPE '' @ name @ '' '' @ typ @ nl
     @ concat (map (\<lambda>smp. smp @ nl) samples)"

text \<open>A counter of \<open>DialErrors\<close> that is missing would be a nil pointer; \<open>stats_wf\<close> below rules it out.\<close>

definition dialErrorSamples :: "(nat \<Rightarrow> bool) \<Rightarrow> stats \<Rightarrow> string list" where
  "dialErrorSamples q s =
     map (\<lambda>r. ''v6pool_dial_errors_total{reason='' @ Quote q (reason_string r) @ ''} ''
              @ dec_u64 (the (map_of (DialErrors s) r))) all_reasons"

definition accountSamples ::
  "(nat \<Rightarrow> bool) \<Rightarrow> string list \<Rightarrow> stats \<Rightarrow> string \<Rightarrow> (acct_stats \<Rightarrow> u64) \<Rightarrow> string list" where
  "accountSamples q order s name load =
     map (\<lambda>u. name @ ''{account='' @ Quote q u @ ''} '' @ dec_u64 (load (the (map_of (AccountStats s) u))))
       order"

text \<open>The arguments of the calls of \<open>family\<close>, in their order.\<close>

definition families ::
  "(nat \<Rightarrow> bool) \<Rightarrow> (int \<Rightarrow> string) \<Rightarrow> string list \<Rightarrow> int \<Rightarrow> stats \<Rightarrow> string \<Rightarrow> string
   \<Rightarrow> (string \<times> string \<times> string \<times> string list) list" where
  "families q fmt_g order now s version poolMode =
     [(''v6pool_http_requests_total'', ''counter'', ''HTTP proxy requests.'',
         [''v6pool_http_requests_total '' @ dec_u64 (HTTPReqs s)]),
      (''v6pool_socks5_connections_total'', ''counter'', ''SOCKS5 connections.'',
         [''v6pool_socks5_connections_total '' @ dec_u64 (SOCKSConns s)]),
      (''v6pool_active_connections'', ''gauge'', ''Relayed connections in flight.'',
         [''v6pool_active_connections '' @ dec_int (ActiveConns s)]),
      (''v6pool_rejected_auth_total'', ''counter'', ''Requests rejected for bad credentials.'',
         [''v6pool_rejected_auth_total '' @ dec_u64 (Rejected s)]),
      (''v6pool_bytes_in_total'', ''counter'', ''Bytes received from upstreams.'',
         [''v6pool_bytes_in_total '' @ dec_u64 (BytesIn s)]),
      (''v6pool_bytes_out_total'', ''counter'', ''Bytes sent to upstreams.'',
         [''v6pool_bytes_out_total '' @ dec_u64 (BytesOut s)]),
      (''v6pool_claims_total'', ''counter'', ''Source addresses claimed on an interface.'',
         [''v6pool_claims_total{result='' @ [CHR 0x22] @ ''success'' @ [CHR 0x22] @ ''} '' @ dec_u64 (ClaimsOK s)]),
      (''v6pool_claims_failed_total'', ''counter'', ''Failed source address claims.'',
         [''v6pool_claims_failed_total '' @ dec_u64 (ClaimsFail s)]),
      (''v6pool_sessions_current'', ''gauge'', ''Active sticky sessions.'',
         [''v6pool_sessions_current '' @ dec_int (SessionsCur s)]),
      (''v6pool_sessions_created_total'', ''counter'', ''Sticky sessions created.'',
         [''v6pool_sessions_created_total '' @ dec_u64 (SessionsTot s)]),
      (''v6pool_picks_total'', ''counter'', ''Fresh rotating source picks.'',
         [''v6pool_picks_total '' @ dec_u64 (PicksTotal s)]),
      (''v6pool_cycle_skips_total'', ''counter'', ''Hygiene skip-advances inside rotation cycles.'',
         [''v6pool_cycle_skips_total '' @ dec_u64 (CycleSkips s)]),
      (''v6pool_hosts_tracked'', ''gauge'', ''Destinations with rotation-cycle state.'',
         [''v6pool_hosts_tracked '' @ dec_int (HostsCur s)]),
      (''v6pool_uptime_seconds'', ''gauge'', ''Seconds since start.'',
         [''v6pool_uptime_seconds '' @ fmt_g (now - Started s)]),
      (''v6pool_info'', ''gauge'', ''Static build and pool mode information.'',
         [''v6pool_info{version='' @ Quote q version @ '',pool_mode='' @ Quote q poolMode @ ''} 1'']),
      (''v6pool_dial_errors_total'', ''counter'', ''Outbound dial failures by reason.'',
         dialErrorSamples q s),
      (''v6pool_account_http_requests_total'', ''counter'', ''HTTP proxy requests per account.'',
         accountSamples q order s ''v6pool_account_http_requests_total'' acct_HTTPReqs),
      (''v6pool_account_socks5_connections_total'', ''counter'', ''SOCKS5 connections per account.'',
         accountSamples q order s ''v6pool_account_socks5_connections_total'' acct_SOCKSConns),
      (''v6pool_account_rejected_auth_total'', ''counter'', ''Failed authentication per account.'',
         accountSamples q order s ''v6pool_account_rejected_auth_total'' acct_Rejected),
      (''v6pool_account_bytes_in_total'', ''counter'', ''Bytes received per account.'',
         accountSamples q order s ''v6pool_account_bytes_in_total'' acct_BytesIn),
      (''v6pool_account_bytes_out_total'', ''counter'', ''Bytes sent per account.'',
         accountSamples q order s ''v6pool_account_bytes_out_total'' acct_BytesOut)]"

definition WritePrometheus ::
  "(nat \<Rightarrow> bool) \<Rightarrow> (int \<Rightarrow> string) \<Rightarrow> string list \<Rightarrow> int \<Rightarrow> stats \<Rightarrow> string \<Rightarrow> string
   \<Rightarrow> string" where
  "WritePrometheus q fmt_g order now s version poolMode =
     concat (map (\<lambda>(name, typ, help, samples). family name typ help samples)
               (families q fmt_g order now s version poolMode))"

section \<open>Quoting\<close>

text \<open>A reader of quoted strings, for the contract of \<open>codec\<close>.\<close>

fun unquote_body :: "string \<Rightarrow> string option" where
  "unquote_body [] = None"
| "unquote_body [c] = (if c = CHR 0x22 then Some [] else None)"
| "unquote_body (c # d # s) =
     (if c = CHR 0x22 then None
      else if c \<noteq> CHR 0x5C then map_option (Cons c) (unquote_body (d # s))
      else if d = CHR 0x22 \<or> d = CHR 0x5C then map_option (Cons d) (unquote_body s)
      else if d = CHR ''a'' then map_option (Cons (char_of (7 :: nat))) (unquote_body s)
      else if d = CHR ''b'' then map_option (Cons (char_of (8 :: nat))) (unquote_body s)
      else if d = CHR ''f'' then map_option (Cons (char_of (12 :: nat))) (unquote_body s)
      else if d = CHR ''n'' then map_option (Cons (char_of (10 :: nat))) (unquote_body s)
      else if d = CHR ''r'' then map_option (Cons (char_of (13 :: nat))) (unquote_body s)
      else if d = CHR ''t'' then map_option (Cons (char_of (9 :: nat))) (unquote_body s)
      else if d = CHR ''v'' then map_option (Cons (char_of (11 :: nat))) (unquote_body s)
      else if d = CHR ''x''
      then (case s of h # l # t \<Rightarrow>
              (case (hex_val h, hex_val l) of
                 (Some a, Some b) \<Rightarrow> map_option (Cons (char_of (16 * a + b))) (unquote_body t)
               | _ \<Rightarrow> None)
            | _ \<Rightarrow> None)
      else None)"

definition unquote :: "string \<Rightarrow> string option" where
  "unquote s = (case s of c # t \<Rightarrow> if c = CHR 0x22 then unquote_body t else None | [] \<Rightarrow> None)"

lemma unquote_escape:
  assumes "(of_char c :: nat) < 128" "s \<noteq> []"
  shows "unquote_body (escape c @ s) = map_option (Cons c) (unquote_body s)"
proof -
  obtain d t where s: "s = d # t" using assms(2) by (cases s) auto
  have ctrl: "char_of (n :: nat) = c" if "of_char c = n" for n using that by (metis char_of_char)
  have x: "char_of (16 * (of_char c div 16) + of_char c mod 16 :: nat) = c"
    by (simp only: mult_div_mod_eq char_of_char)
  show ?thesis using assms x ctrl by (auto simp: escape_def s Let_def ctrl)
qed

lemma concat_escape_unquote:
  "is_ascii s \<Longrightarrow> unquote_body (concat (map escape s) @ [CHR 0x22]) = Some s"
  by (induction s) (auto simp: is_ascii_def unquote_escape)

lemma quote_loop_ascii: "is_ascii s \<Longrightarrow> quote_loop q s = concat (map escape s)"
proof (induction s)
  case (Cons c s)
  then have "(of_char c :: nat) < 128" "is_ascii s" by (simp_all add: is_ascii_def)
  then show ?case using Cons.IH by (simp add: DecodeRune_def escape_rune_def)
qed simp

interpretation quoted: codec "Quote q" unquote is_ascii
  by unfold_locales (simp add: Quote_def unquote_def quote_loop_ascii concat_escape_unquote)

lemma digit_char_neq: "d < 16 \<Longrightarrow> of_char c \<notin> {48..57} \<union> {97..102 :: nat} \<Longrightarrow> digit_char d \<noteq> c"
  by (auto simp: of_char_digit_char split: if_splits)

lemma digit_char_newline [simp]: "d < 16 \<Longrightarrow> digit_char d \<noteq> CHR 0x0A"
  by (rule digit_char_neq) auto

lemma escape_no_newline:
  assumes "(of_char c :: nat) < 128"
  shows "CHR 0x0A \<notin> set (escape c)"
proof -
  have "of_char c div 16 < (16 :: nat)" "of_char c mod 16 < (16 :: nat)" using assms by auto
  note digit_char_newline[OF this(1), symmetric] digit_char_newline[OF this(2), symmetric]
  moreover have "CHR 0x0A \<noteq> c" if "of_char c \<noteq> (10 :: nat)" using that by auto
  ultimately show ?thesis by (auto simp: escape_def Let_def)
qed

lemma hex_digits_no_newline: "CHR 0x0A \<notin> set (hex_digits k r)"
proof -
  have "digit_char (r div 16 ^ i mod 16) \<noteq> CHR 0x0A" for i by (rule digit_char_newline) simp
  then show ?thesis unfolding hex_digits_def by (auto dest: sym)
qed

text \<open>The bytes of a rune beyond ASCII are beyond ASCII themselves.\<close>

lemma lead_range: "utf8_lead b = Some (w, lo, hi) \<Longrightarrow> 0x80 \<le> b \<and> 1 < w"
  by (auto simp: utf8_lead_def split: if_splits)

lemma DecodeRune_bytes:
  assumes "DecodeRune s = (r, w)" "\<not> (w = 1 \<and> r = 0xFFFD)" "0x80 \<le> r" "c \<in> set (take w s)"
  shows "0x80 \<le> (of_char c :: nat)"
proof (cases s)
  case (Cons d t)
  have "\<not> of_char d < (0x80 :: nat)"
    using assms(1,3) by (auto simp: DecodeRune_def Cons)
  moreover obtain v lo hi where v: "utf8_lead (of_char d) = Some (v, lo, hi)"
    using assms(1,2) calculation by (cases "utf8_lead (of_char d)") (auto simp: DecodeRune_def Cons)
  ultimately have "w = v" "list_all (\<lambda>c. 0x80 \<le> c \<and> c \<le> (0xBF :: nat)) (take (v - 1) (map of_char t))"
    using assms(1,2) by (auto simp: DecodeRune_def Cons Let_def split: if_splits)
  moreover have "c = d \<or> c \<in> set (take (w - 1) t)"
    using assms(4) lead_range[OF v] by (cases w) (auto simp: Cons)
  ultimately show ?thesis using lead_range[OF v] by (auto simp: list_all_iff take_map)
qed (use assms in simp)

lemma escape_rune_no_newline:
  assumes "DecodeRune s = (r, w)" "\<not> (w = 1 \<and> r = 0xFFFD)"
  shows "CHR 0x0A \<notin> set (escape_rune q r (take w s))"
proof (cases "r < 0x80")
  case True
  then have "(of_char (char_of r :: char) :: nat) < 128" by simp
  then show ?thesis using True escape_no_newline by (simp add: escape_rune_def)
next
  case False
  have "CHR 0x0A \<notin> set (take w s)"
  proof
    assume "CHR 0x0A \<in> set (take w s)"
    from DecodeRune_bytes[OF assms _ this] False show False by simp
  qed
  then show ?thesis using False hex_digits_no_newline by (simp add: escape_rune_def)
qed

lemma quote_loop_no_newline: "CHR 0x0A \<notin> set (quote_loop q s)"
proof (induction q s rule: quote_loop.induct)
  case (2 q c s)
  obtain r w where d: "DecodeRune (c # s) = (r, w)" by fastforce
  show ?case using 2[OF d[symmetric] refl] escape_rune_no_newline[OF d, of q] hex_digits_no_newline
    by (simp add: d del: take_Cons')
qed simp

lemma Quote_no_newline [simp]: "CHR 0x0A \<notin> set (Quote q s)"
  by (simp add: Quote_def quote_loop_no_newline)

lemma dec_no_newline [simp]: "CHR 0x0A \<notin> set (dec n)"
proof (induction n rule: dec.induct)
  case (1 n)
  have "n mod 10 < 10" by simp
  then have "CHR 0x0A \<noteq> digit_char (n mod 10)" using digit_char_newline[of "n mod 10"] by fastforce
  moreover have "n < 10 \<Longrightarrow> CHR 0x0A \<noteq> digit_char n" using digit_char_newline[of n] by fastforce
  ultimately show ?case using 1 by (subst dec.simps) auto
qed

lemma dec_u64_no_newline [simp]: "CHR 0x0A \<notin> set (dec_u64 n)"
  by (simp add: dec_u64_def)

lemma dec_int_no_newline [simp]: "CHR 0x0A \<notin> set (dec_int i)"
  by (simp add: dec_int_def)

section \<open>Lines of the exposition\<close>

definition family_lines :: "string \<times> string \<times> string \<times> string list \<Rightarrow> string list" where
  "family_lines f = (case f of (name, typ, help, samples) \<Rightarrow>
     (''# HELP '' @ name @ '' '' @ help) # (''# TYPE '' @ name @ '' '' @ typ) # samples)"

lemma split_at_append:
  "c \<notin> set l \<Longrightarrow> split_at c (l @ c # s) = l # split_at c s"
  by (induction l) auto

lemma split_at_lines:
  "list_all (\<lambda>l. CHR 0x0A \<notin> set l) ls \<Longrightarrow> split_at (CHR 0x0A) (concat (map (\<lambda>l. l @ nl) ls)) = ls @ [[]]"
  by (induction ls) (simp_all add: nl_def split_at_append)

lemma WritePrometheus_lines:
  "WritePrometheus q fmt_g order now s version poolMode
     = concat (map (\<lambda>l. l @ nl) (concat (map family_lines (families q fmt_g order now s version poolMode))))"
proof -
  have "concat (map (\<lambda>(name, typ, help, samples). family name typ help samples) fs)
      = concat (map (\<lambda>l. l @ nl) (concat (map family_lines fs)))" for fs
    by (induction fs) (auto simp: family_def family_lines_def)
  then show ?thesis by (simp add: WritePrometheus_def)
qed

lemma samples_no_newline:
  "CHR 0x0A \<notin> set name \<Longrightarrow>
     list_all (\<lambda>l. CHR 0x0A \<notin> set l) (accountSamples q order s name load)"
  "list_all (\<lambda>l. CHR 0x0A \<notin> set l) (dialErrorSamples q s)"
  by (auto simp: accountSamples_def dialErrorSamples_def list_all_iff)

lemma family_lines_ok:
  assumes "CHR 0x0A \<notin> set (fmt_g (now - Started s))"
  shows "list_all (\<lambda>l. CHR 0x0A \<notin> set l)
    (concat (map family_lines (families q fmt_g order now s version poolMode)))"
  using assms unfolding families_def by (simp add: family_lines_def samples_no_newline)

section \<open>Properties\<close>

text \<open>C26. The Prometheus text has exactly the intended lines, whatever bytes the user names, the version
  and the pool mode contain, UTF-8 or not, and whatever the Unicode table: the HELP line, the TYPE line
  and the samples of every family, in order, so a label value cannot inject a line; every family is
  declared once.  (The printed uptime, a number, has no line break.)\<close>

theorem exposition_lines:
  assumes "CHR 0x0A \<notin> set (fmt_g (now - Started s))"
  shows "split_at (CHR 0x0A) (WritePrometheus q fmt_g order now s version poolMode)
      = concat (map family_lines (families q fmt_g order now s version poolMode)) @ [[]]
    \<and> distinct (map fst (families q fmt_g order now s version poolMode))
    \<and> length (split_at (CHR 0x0A) (WritePrometheus q fmt_g order now s version poolMode))
      = 62 + 5 * length order"
proof -
  have "split_at (CHR 0x0A) (WritePrometheus q fmt_g order now s version poolMode)
      = concat (map family_lines (families q fmt_g order now s version poolMode)) @ [[]]"
    unfolding WritePrometheus_lines by (rule split_at_lines, rule family_lines_ok; fact)
  moreover have "distinct (map fst (families q fmt_g order now s version poolMode))"
    by (simp add: families_def)
  moreover have "length (concat (map family_lines (families q fmt_g order now s version poolMode)))
      = 61 + 5 * length order"
    by (simp add: families_def family_lines_def accountSamples_def dialErrorSamples_def all_reasons_def)
  ultimately show ?thesis by simp
qed

theorem exposition_lines_witness:
  "length (split_at (CHR 0x0A) (WritePrometheus (\<lambda>r. True) (\<lambda>d. ''1.5'') [''bob'', [CHR 0x0A, CHR 0xC3, CHR 0xA9]] 5
     (New_stats 0 [''bob'', [CHR 0x0A, CHR 0xC3, CHR 0xA9]]) ''1.0'' ''prefix'')) = 72"
  using exposition_lines[THEN conjunct2, THEN conjunct2, of "\<lambda>d. ''1.5''" 5
      "New_stats 0 [''bob'', [CHR 0x0A, CHR 0xC3, CHR 0xA9]]" "\<lambda>r. True" "[''bob'', [CHR 0x0A, CHR 0xC3, CHR 0xA9]]"
      "''1.0''" "''prefix''"]
  by simp

text \<open>The four buckets exist.\<close>

definition stats_wf :: "stats \<Rightarrow> bool" where
  "stats_wf s \<longleftrightarrow> list_all (\<lambda>r. map_of (DialErrors s) r \<noteq> None) all_reasons"

definition dial_count :: "stats \<Rightarrow> dial_reason \<Rightarrow> u64" where
  "dial_count s r = the (map_of (DialErrors s) r)"

lemma stats_wf_all: "stats_wf s \<longleftrightarrow> (\<forall>r. map_of (DialErrors s) r \<noteq> None)"
  by (simp add: stats_wf_def enum_all_dial_reason_def[symmetric])

lemma stats_wf_New [simp]: "stats_wf (New_stats now us)"
  by (simp add: stats_wf_def New_stats_def all_reasons_def)

lemma AddDialErr_ok:
  assumes "stats_wf s"
  obtains t where "AddDialErr s err = Some t" "stats_wf t"
    "\<And>r. dial_count t r = (if r = ClassifyDialErr err then dial_count s r + 1 else dial_count s r)"
proof -
  from assms obtain n where n: "map_of (DialErrors s) (ClassifyDialErr err) = Some n"
    unfolding stats_wf_all by blast
  show ?thesis
    by (rule that[of "s\<lparr>DialErrors := AList.update (ClassifyDialErr err) (n + 1) (DialErrors s)\<rparr>"])
       (use n assms in \<open>auto simp: AddDialErr_def stats_wf_all dial_count_def update_conv'\<close>)
qed

fun add_dial_errs :: "stats \<Rightarrow> go_error list \<Rightarrow> stats option" where
  "add_dial_errs s [] = Some s"
| "add_dial_errs s (e # es) = (case AddDialErr s e of None \<Rightarrow> None | Some t \<Rightarrow> add_dial_errs t es)"

lemma add_dial_errs_count:
  "stats_wf s \<Longrightarrow> \<exists>t. add_dial_errs s es = Some t \<and> stats_wf t
     \<and> (\<forall>r. dial_count t r = dial_count s r + of_nat (length (filter (\<lambda>e. ClassifyDialErr e = r) es)))"
proof (induction es arbitrary: s)
  case (Cons e es)
  from AddDialErr_ok[OF Cons.prems, of e] obtain u where u: "AddDialErr s e = Some u" "stats_wf u"
    "\<And>r. dial_count u r = (if r = ClassifyDialErr e then dial_count s r + 1 else dial_count s r)" by blast
  from Cons.IH[OF u(2)] u show ?case by (auto simp: algebra_simps)
qed auto

text \<open>Dial errors are counted, never lost and never a crash: from the fresh counters, any sequence
  of \<open>AddDialErr\<close> calls succeeds, and every bucket holds the number (modulo \<open>2^64\<close>) of the errors
  classified into it; a timeout is classified as such whatever its message says.\<close>

theorem AddDialErr_counts:
  "(\<exists>t. add_dial_errs (New_stats now us) es = Some t
      \<and> (\<forall>r. dial_count t r = of_nat (length (filter (\<lambda>e. ClassifyDialErr e = r) es))))
   \<and> ClassifyDialErr (e\<lparr>err_net := Some True\<rparr>) = DialTimeoutReason"
proof -
  have "dial_count (New_stats now us) r = 0" for r
    by (cases r) (simp_all add: dial_count_def New_stats_def all_reasons_def)
  with add_dial_errs_count[OF stats_wf_New, of now us es] show ?thesis
    by (auto simp: ClassifyDialErr_def)
qed

end
