(* ===== verification/Expiring.thy ===== *)
theory Expiring
  imports Prelude
begin

text \<open>
  The contract of the stores the program sweeps periodically: sticky sessions, rotation cycles and
  claimed addresses.  An entry has a deadline, its last touch plus a time to live; a sweep removes
  the entries whose deadline has passed.  A bounded store (\<open>expiring\<close>) may drop other entries when
  one is touched, an unbounded one (\<open>keeping\<close>) may not.
\<close>

datatype 'k event = Touch 'k int | Sweep int

locale expiring =
  fixes deadline :: "'s \<Rightarrow> 'k \<Rightarrow> int option" and touch :: "'k \<Rightarrow> int \<Rightarrow> 's \<Rightarrow> 's"
    and sweep :: "int \<Rightarrow> 's \<Rightarrow> 's" and ttl :: int and inv :: "'s \<Rightarrow> bool" and ok :: "'k \<Rightarrow> bool"
  assumes inv_touch: "inv s \<Longrightarrow> ok k \<Longrightarrow> inv (touch k t s)"
    and inv_sweep: "inv s \<Longrightarrow> inv (sweep t s)"
    and touch_same: "inv s \<Longrightarrow> ok k \<Longrightarrow> deadline (touch k t s) k = Some (t + ttl)"
    and touch_other: "inv s \<Longrightarrow> ok j \<Longrightarrow> ok k \<Longrightarrow> j \<noteq> k \<Longrightarrow>
      deadline (touch k t s) j \<in> {None, deadline s j}"
    and sweep_gone: "inv s \<Longrightarrow> ok k \<Longrightarrow> deadline s k = Some d \<Longrightarrow> d < t \<Longrightarrow> deadline (sweep t s) k = None"
    and sweep_kept: "inv s \<Longrightarrow> ok k \<Longrightarrow> deadline (sweep t s) k = Some d \<Longrightarrow> deadline s k = Some d"
begin

fun apply_event :: "'k event \<Rightarrow> 's \<Rightarrow> 's" where
  "apply_event (Touch k t) s = touch k t s"
| "apply_event (Sweep t) s = sweep t s"

definition run :: "'k event list \<Rightarrow> 's \<Rightarrow> 's" where
  "run es s = fold apply_event es s"

fun ok_event :: "'k event \<Rightarrow> bool" where
  "ok_event (Touch k t) = ok k"
| "ok_event (Sweep t) = True"

lemma inv_event: "inv s \<Longrightarrow> ok_event e \<Longrightarrow> inv (apply_event e s)"
  by (cases e) (simp_all add: inv_touch inv_sweep)

lemma inv_run: "inv s \<Longrightarrow> list_all ok_event es \<Longrightarrow> inv (run es s)"
  by (induction es arbitrary: s) (auto simp: run_def inv_event)

lemma deadline_event:
  "inv s \<Longrightarrow> ok_event e \<Longrightarrow> ok k \<Longrightarrow> deadline (apply_event e s) k = Some d \<Longrightarrow>
     deadline s k = Some d \<or> (\<exists>t. e = Touch k t \<and> d = t + ttl)"
proof (cases e)
  case (Touch j t)
  assume *: "inv s" "ok_event e" "ok k" "deadline (apply_event e s) k = Some d"
  show ?thesis
  proof (cases "j = k")
    case True
    then show ?thesis using * touch_same[of s k t] by (auto simp: Touch)
  next
    case False
    then show ?thesis using * touch_other[of s k j t] by (auto simp: Touch)
  qed
qed (auto dest: sweep_kept)

text \<open>A deadline comes from the start or from a touch.\<close>

lemma deadline_origin:
  "inv s \<Longrightarrow> list_all ok_event es \<Longrightarrow> ok k \<Longrightarrow> deadline (run es s) k = Some d \<Longrightarrow>
     deadline s k = Some d \<or> (\<exists>t. Touch k t \<in> set es \<and> d = t + ttl)"
proof (induction es arbitrary: s)
  case (Cons e es)
  have "deadline (apply_event e s) k = Some d \<or> (\<exists>t. Touch k t \<in> set es \<and> d = t + ttl)"
    by (rule Cons.IH) (use Cons.prems in \<open>simp_all add: run_def inv_event\<close>)
  then show ?case using deadline_event[OF Cons.prems(1) _ Cons.prems(3), of e d] Cons.prems(2) by auto
qed (simp add: run_def)

text \<open>Right after a sweep, every entry left was touched at most the time to live ago.\<close>

lemma fresh_after_sweep:
  assumes "inv s" "list_all ok_event es" "ok k" "deadline s k = None"
    "deadline (sweep t (run es s)) k = Some d"
  shows "t \<le> d \<and> (\<exists>t0. Touch k t0 \<in> set es \<and> d = t0 + ttl \<and> t - t0 \<le> ttl)"
proof -
  have i: "inv (run es s)" using assms(1,2) by (rule inv_run)
  have d: "deadline (run es s) k = Some d" using sweep_kept[OF i assms(3,5)] .
  have "\<not> d < t" using sweep_gone[OF i assms(3) d, of t] assms(5) by auto
  then show ?thesis using deadline_origin[OF assms(1,2,3) d] assms(4) by auto
qed

end

locale keeping = expiring +
  assumes touch_keeps: "inv s \<Longrightarrow> ok j \<Longrightarrow> ok k \<Longrightarrow> j \<noteq> k \<Longrightarrow> deadline (touch k t s) j = deadline s j"
    and sweep_keeps: "inv s \<Longrightarrow> ok k \<Longrightarrow> deadline s k = Some d \<Longrightarrow> t \<le> d \<Longrightarrow>
      deadline (sweep t s) k = Some d"
begin

text \<open>An entry survives every sweep up to its deadline, whatever else happens.\<close>

lemma survives:
  "inv s \<Longrightarrow> list_all ok_event es \<Longrightarrow> ok k \<Longrightarrow> deadline s k = Some d \<Longrightarrow>
     (\<And>t. Sweep t \<in> set es \<Longrightarrow> t \<le> d) \<Longrightarrow> (\<And>t. Touch k t \<notin> set es) \<Longrightarrow>
     deadline (run es s) k = Some d"
proof (induction es arbitrary: s)
  case (Cons e es)
  have "deadline (apply_event e s) k = Some d"
  proof (cases e)
    case (Touch j t)
    with Cons.prems(6)[of t] have "k \<noteq> j" by auto
    then show ?thesis using touch_keeps[OF Cons.prems(1,3)] Cons.prems(2,4) by (simp add: Touch)
  next
    case (Sweep t)
    then show ?thesis using sweep_keeps[OF Cons.prems(1,3,4)] Cons.prems(5)[of t] by simp
  qed
  moreover have "inv (apply_event e s)" using Cons.prems(1,2) by (simp add: inv_event)
  ultimately have "deadline (run es (apply_event e s)) k = Some d"
    using Cons.prems(2,3,5,6) by (intro Cons.IH) auto
  then show ?case by (simp add: run_def)
qed (simp add: run_def)

end

end
