(* ===== verification/Claim.thy ===== *)
theory Claim
  imports Ifaceutil IP_Text Expiring
begin

text \<open>
  \<open>internal/claim/claim.go\<close>: source addresses claimed as /128 on an interface with the \<open>ip\<close>
  command, and the sweep that removes idle ones.  Running a command is the parameter \<open>exec\<close>: from
  the argument list and the network state to (failed, combined output) and the next network state.
  Clock readings are arguments (nanoseconds); in \<open>Sweep\<close> each entry is compared with its own
  reading.  The order in which \<open>range\<close> visits the map of claims is the argument \<open>order\<close>.
\<close>

section \<open>Data and operations\<close>

type_synonym exec = "string list \<Rightarrow> netenv \<Rightarrow> (bool \<times> string) \<times> netenv"

text \<open>\<open>time.Duration(n) * time.Second\<close>, an int64 product.\<close>

definition seconds :: "int \<Rightarrow> int" where
  "seconds n = sint (word_of_int (n * 1000000000) :: u64)"

definition DefaultTTL :: int where
  "DefaultTTL = seconds 300"

record claimer =
  cl_iface :: string
  cl_ttl :: int
  cl_claims :: "(string \<times> int) list"
  cl_cached :: string

definition New_claimer :: "string \<Rightarrow> int \<Rightarrow> claimer" where
  "New_claimer iface ttlSeconds =
     (let ttl = seconds ttlSeconds; ttl = (if ttl \<le> 0 then DefaultTTL else ttl)
      in \<lparr>cl_iface = iface, cl_ttl = ttl, cl_claims = [], cl_cached = ''''\<rparr>)"

definition ifaceAddrs :: "netenv \<Rightarrow> string \<Rightarrow> ipnet list" where
  "ifaceAddrs env name =
     (if \<not> env_exists env name then []
      else case env_addrs env name of
             None \<Rightarrow> []
           | Some as \<Rightarrow> List.map_filter (\<lambda>a. map_option snd (ParseCIDR a)) as)"

definition ifaceHasAddrInPrefix :: "netenv \<Rightarrow> string \<Rightarrow> ip \<Rightarrow> bool" where
  "ifaceHasAddrInPrefix env name src =
     list_ex (\<lambda>n. IPNet_Contains n src \<and> \<not> skip_addr (net_ip n)) (ifaceAddrs env name)"

text \<open>The last part of \<open>claimIface\<close>, from \<open>InterfaceByName\<close> on.\<close>

definition on_iface :: "netenv \<Rightarrow> string \<Rightarrow> ip \<Rightarrow> string \<times> bool" where
  "on_iface env name src =
     (if \<not> env_exists env name then ('''', False)
      else (name, list_ex (\<lambda>n. IP_Equal (net_ip n) src) (ifaceAddrs env name)))"

definition claimIface :: "netenv \<Rightarrow> claimer \<Rightarrow> ip \<Rightarrow> (string \<times> bool) \<times> claimer" where
  "claimIface env c src =
     (let name = (if cl_iface c = '''' then cl_cached c else cl_iface c)
      in if name \<noteq> '''' then (on_iface env name src, c)
         else (case env_ifaces env of
                 None \<Rightarrow> (('''', False), c)
               | Some ifaces \<Rightarrow>
                   (case find (\<lambda>i. ifaceHasAddrInPrefix env i src) ifaces of
                      None \<Rightarrow> (('''', False), c)
                    | Some i \<Rightarrow> if i = '''' then (('''', False), c)
                                else (on_iface env i src, c\<lparr>cl_cached := i\<rparr>))))"

definition claimAddr :: "exec \<Rightarrow> string \<Rightarrow> ip \<Rightarrow> netenv \<Rightarrow> string option \<times> netenv" where
  "claimAddr exec ifname x env =
     (let ((failed, out), env') =
            exec [''ip'', ''-6'', ''addr'', ''add'', IP_String x @ ''/128'', ''dev'', ifname, ''nodad''] env
      in if failed
         then (let msg = TrimSpace out
               in if Contains msg ''File exists'' \<or> Contains msg ''already assigned'' then (None, env')
                  else (Some (''ip: '' @ msg), env'))
         else (None, env'))"

definition delAddr :: "exec \<Rightarrow> string \<Rightarrow> ip \<Rightarrow> netenv \<Rightarrow> string option \<times> netenv" where
  "delAddr exec ifname x env =
     (let ((failed, out), env') =
            exec [''ip'', ''-6'', ''addr'', ''del'', IP_String x @ ''/128'', ''dev'', ifname] env
      in if failed
         then (let msg = TrimSpace out
               in if Contains msg ''Cannot assign requested address'' \<or> Contains msg ''File exists''
                  then (None, env')
                  else (Some (''ip: '' @ msg), env'))
         else (None, env'))"

text \<open>The update of the claims map in \<open>EnsureClaimed\<close>.\<close>

definition track :: "ip \<Rightarrow> int \<Rightarrow> claimer \<Rightarrow> claimer" where
  "track src now c = c\<lparr>cl_claims := AList.update (IP_String src) now (cl_claims c)\<rparr>"

definition EnsureClaimed ::
  "exec \<Rightarrow> int \<Rightarrow> ip \<Rightarrow> netenv \<times> claimer \<Rightarrow> string option \<times> netenv \<times> claimer" where
  "EnsureClaimed exec now src s =
     (let (env, c) = s; ((ifname, onIface), c) = claimIface env c src
      in if ifname = '''' \<or> onIface then (None, env, c)
         else (let c = track src now c; (err, env) = claimAddr exec ifname src env
               in (err, env, c)))"

text \<open>\<open>Sweep\<close>: the stale addresses under the first lock, then one removal after the other; an
  entry is dropped only if its removal succeeded and it is still stale.\<close>

definition sweep_stale :: "(string \<Rightarrow> int) \<Rightarrow> string list \<Rightarrow> claimer \<Rightarrow> string list" where
  "sweep_stale now1 order c =
     filter (\<lambda>k. case map_of (cl_claims c) k of None \<Rightarrow> False | Some seen \<Rightarrow> now1 k - seen > cl_ttl c) order"

fun sweep_del ::
  "exec \<Rightarrow> string \<Rightarrow> (string \<Rightarrow> int) \<Rightarrow> string list \<Rightarrow> netenv \<times> claimer \<Rightarrow> netenv \<times> claimer" where
  "sweep_del exec name now2 [] s = s"
| "sweep_del exec name now2 (k # ks) (env, c) =
     (let x = ParseIP k
      in if x = [] then sweep_del exec name now2 ks (env, c)
         else (let (err, env) = delAddr exec name x env;
                   c = (if err = None
                        then (case map_of (cl_claims c) k of
                                Some seen \<Rightarrow> if now2 k - seen > cl_ttl c
                                             then c\<lparr>cl_claims := AList.delete k (cl_claims c)\<rparr> else c
                              | None \<Rightarrow> c)
                        else c)
               in sweep_del exec name now2 ks (env, c)))"

definition Sweep_claims ::
  "exec \<Rightarrow> (string \<Rightarrow> int) \<Rightarrow> (string \<Rightarrow> int) \<Rightarrow> string list \<Rightarrow> netenv \<times> claimer \<Rightarrow> netenv \<times> claimer" where
  "Sweep_claims exec now1 now2 order s =
     (let (env, c) = s; staleName = (if cl_iface c = '''' then cl_cached c else cl_iface c);
          stale = sweep_stale now1 order c
      in if stale = [] then (env, c) else sweep_del exec staleName now2 stale (env, c))"

section \<open>Interface addresses in text\<close>

lemma parse_dec_dec [simp]: "parse_dec (dec n) = Some n"
proof -
  have "fold (\<lambda>c acc. case (acc, dec_val c) of (Some a, Some d) \<Rightarrow> Some (a * 10 + d) | _ \<Rightarrow> None)
          (dec n) (Some 0) = Some n"
  proof (induction n rule: dec.induct)
    case (1 n)
    have "n div 10 * 10 + n mod 10 = n" by simp
    with 1 show ?case by (subst dec.simps) auto
  qed
  then show ?thesis by (simp add: parse_dec_def)
qed

lemma digit_char_slash [simp]: "d < 16 \<Longrightarrow> digit_char d \<noteq> CHR ''/''"
  by (auto simp: digit_char_def split: if_splits dest!: arg_cong[of _ _ "of_char :: char \<Rightarrow> nat"])

text \<open>The address \<open>x/n\<close> as the interface reports it.\<close>

definition cidr_text :: "ip \<times> nat \<Rightarrow> string" where
  "cidr_text a = IP_String (fst a) @ ''/'' @ dec (snd a)"

lemma ParseCIDR_text:
  assumes "length x = 16" "To4 x = []" "n \<le> 128"
  shows "ParseCIDR (cidr_text (x, n))
    = Some (x, \<lparr>net_ip = IP_Mask x (CIDRMask (int n) 16), net_mask = CIDRMask (int n) 16\<rparr>)"
proof -
  have s: "IP_String x = string6 x" using assms by (auto simp: IP_String_def)
  have "CHR ''/'' \<notin> set (IP_String x)"
  proof
    assume "CHR ''/'' \<in> set (IP_String x)"
    then obtain d where "d < 16" "CHR ''/'' = digit_char d"
      using string6_parse(3)[OF assms(1)] by (auto simp: s)
    then show False using digit_char_slash[of d] by simp
  qed
  then have "IndexByte (cidr_text (x, n)) (CHR ''/'') = Some (length (IP_String x))"
    by (simp add: cidr_text_def IndexByte_append)
  moreover have "CHR '':'' \<in> set (IP_String x)" using string6_parse(2)[OF assms(1)] by (simp add: s)
  moreover have "x \<noteq> []" using assms(1) by auto
  ultimately show ?thesis using assms
    by (simp add: ParseCIDR_def ParseIP_String cidr_text_def Let_def)
qed

section \<open>What a sweep does\<close>

definition old_claim :: "(string \<Rightarrow> int) \<Rightarrow> claimer \<Rightarrow> string \<Rightarrow> bool" where
  "old_claim now c k =
     (case map_of (cl_claims c) k of None \<Rightarrow> False | Some seen \<Rightarrow> now k - seen > cl_ttl c)"

lemma sweep_stale_iff: "k \<in> set (sweep_stale now order c) \<longleftrightarrow> k \<in> set order \<and> old_claim now c k"
  by (simp add: sweep_stale_def old_claim_def)

lemma cl_ttl_sweep_del [simp]: "cl_ttl (snd (sweep_del exec name now ks s)) = cl_ttl (snd s)"
  by (induction exec name now ks s rule: sweep_del.induct)
     (simp_all add: Let_def split: prod.splits option.splits)

text \<open>The removal loop drops the old entries of its list whose removal succeeds, nothing else.\<close>

lemma map_of_delete: "map_of (AList.delete k xs) j = (if j = k then None else map_of xs j)"
  by (simp add: delete_conv')

lemma sweep_del_claims:
  "map_of (cl_claims (snd (sweep_del exec name now ks (env, c)))) k = map_of (cl_claims c) k
   \<or> (map_of (cl_claims (snd (sweep_del exec name now ks (env, c)))) k = None
      \<and> k \<in> set ks \<and> ParseIP k \<noteq> [] \<and> old_claim now c k)"
proof (induction exec name now ks "(env, c)" arbitrary: env c rule: sweep_del.induct)
  case (2 exec name now j ks env c)
  show ?case
  proof (cases "ParseIP j = []")
    case True
    then show ?thesis using "2.hyps"(1)[OF refl True] by auto
  next
    case False
    obtain err env' where d: "delAddr exec name (ParseIP j) env = (err, env')" by fastforce
    let ?c = "if err = None then (case map_of (cl_claims c) j of
                Some seen \<Rightarrow> if now j - seen > cl_ttl c
                            then c\<lparr>cl_claims := AList.delete j (cl_claims c)\<rparr> else c
              | None \<Rightarrow> c) else c"
    have c': "map_of (cl_claims ?c) k = map_of (cl_claims c) k
        \<or> (map_of (cl_claims ?c) k = None \<and> k = j \<and> old_claim now c k)"
      and ttl: "cl_ttl ?c = cl_ttl c"
      by (auto simp: old_claim_def map_of_delete split: option.splits)
    have "sweep_del exec name now (j # ks) (env, c) = sweep_del exec name now ks (env', ?c)"
      using False d by (simp add: Let_def)
    moreover note "2.hyps"(2)[OF refl False d[symmetric] refl]
    ultimately show ?thesis using c' False ttl
      by (auto simp: old_claim_def split: option.splits)
  qed
qed auto

text \<open>Every removal succeeds (or finds the address gone).\<close>

definition del_ok :: "exec \<Rightarrow> bool" where
  "del_ok exec \<longleftrightarrow> (\<forall>name x env. fst (delAddr exec name x env) = None)"

lemma sweep_del_gone:
  assumes "del_ok exec"
  shows "k \<in> set ks \<Longrightarrow> ParseIP k \<noteq> [] \<Longrightarrow> old_claim now c k \<Longrightarrow>
     map_of (cl_claims (snd (sweep_del exec name now ks (env, c)))) k = None"
proof (induction ks arbitrary: env c)
  case (Cons j ks)
  show ?case
  proof (cases "ParseIP j = []")
    case True
    then have "k \<in> set ks" using Cons.prems by auto
    then show ?thesis using Cons.IH Cons.prems(2,3) True by simp
  next
    case False
    obtain env' where d: "delAddr exec name (ParseIP j) env = (None, env')"
      using assms unfolding del_ok_def by (metis prod.collapse)
    let ?c = "case map_of (cl_claims c) j of
                Some seen \<Rightarrow> if now j - seen > cl_ttl c
                            then c\<lparr>cl_claims := AList.delete j (cl_claims c)\<rparr> else c
              | None \<Rightarrow> c"
    have step: "sweep_del exec name now (j # ks) (env, c) = sweep_del exec name now ks (env', ?c)"
      using False d by (simp add: Let_def)
    show ?thesis
    proof (cases "j = k")
      case True
      then have "map_of (cl_claims ?c) k = None"
        using Cons.prems(3) by (auto simp: old_claim_def map_of_delete split: option.splits)
      then show ?thesis unfolding step using sweep_del_claims[of exec name now ks env' ?c k] by auto
    next
      case F: False
      then have "old_claim now ?c k" using Cons.prems(3)
        by (auto simp: old_claim_def map_of_delete split: option.splits)
      then show ?thesis unfolding step using Cons.IH Cons.prems(1,2) F by auto
    qed
  qed
qed simp

text \<open>The whole sweep, on the map of claims: \<open>both\<close> readings must find the entry old.\<close>

lemma Sweep_claims_map:
  fixes s :: "netenv \<times> claimer"
  assumes "del_ok exec" "k \<in> set order" "ParseIP k \<noteq> []"
  shows "map_of (cl_claims (snd (Sweep_claims exec now1 now2 order s))) k
    = (if old_claim now1 (snd s) k \<and> old_claim now2 (snd s) k then None else map_of (cl_claims (snd s)) k)"
proof -
  obtain env c where s: "s = (env, c)" by (cases s)
  let ?ks = "sweep_stale now1 order c"
  have k: "k \<in> set ?ks \<longleftrightarrow> old_claim now1 c k" using assms(2) by (simp add: sweep_stale_iff)
  show ?thesis
  proof (cases "?ks = []")
    case True
    then show ?thesis using k by (simp add: Sweep_claims_def s)
  next
    case False
    then obtain name where "Sweep_claims exec now1 now2 order s = sweep_del exec name now2 ?ks (env, c)"
      by (simp add: Sweep_claims_def s Let_def)
    then show ?thesis
      using sweep_del_gone[OF assms(1), of k ?ks now2 c name env] k assms(3)
        sweep_del_claims[of exec name now2 ?ks env c k] by (auto simp: s)
  qed
qed

lemma Sweep_claims_keeps:
  "map_of (cl_claims (snd (Sweep_claims exec now1 now2 order s))) k \<in> {None, map_of (cl_claims (snd s)) k}
   \<and> (\<not> old_claim now1 (snd s) k \<or> \<not> old_claim now2 (snd s) k \<longrightarrow>
      map_of (cl_claims (snd (Sweep_claims exec now1 now2 order s))) k = map_of (cl_claims (snd s)) k)
   \<and> cl_ttl (snd (Sweep_claims exec now1 now2 order s)) = cl_ttl (snd s)"
proof -
  obtain env c where s: "s = (env, c)" by (cases s)
  let ?name = "if cl_iface c = '''' then cl_cached c else cl_iface c"
  have "Sweep_claims exec now1 now2 order s = (env, c)
      \<or> Sweep_claims exec now1 now2 order s = sweep_del exec ?name now2 (sweep_stale now1 order c) (env, c)"
    by (simp add: Sweep_claims_def s Let_def)
  then show ?thesis
    using sweep_del_claims[of exec ?name now2 "sweep_stale now1 order c" env c k]
    by (auto simp: s sweep_stale_iff)
qed

lemma track_simps [simp]:
  "cl_ttl (track x t c) = cl_ttl c" "cl_iface (track x t c) = cl_iface c"
  "map_of (cl_claims (track x t c)) k = (if k = IP_String x then Some t else map_of (cl_claims c) k)"
  by (simp_all add: track_def update_conv')

text \<open>The claims as an expiring store; the deadline of an address is its claim time plus the TTL.\<close>

definition claim_deadline :: "netenv \<times> claimer \<Rightarrow> ip \<Rightarrow> int option" where
  "claim_deadline s x = map_option (\<lambda>t. t + cl_ttl (snd s)) (map_of (cl_claims (snd s)) (IP_String x))"

definition sweep_at :: "exec \<Rightarrow> int \<Rightarrow> netenv \<times> claimer \<Rightarrow> netenv \<times> claimer" where
  "sweep_at exec t s = Sweep_claims exec (\<lambda>_. t) (\<lambda>_. t) (map fst (cl_claims (snd s))) s"

lemma ParseIP_String_ne: "length x = 16 \<Longrightarrow> ParseIP (IP_String x) \<noteq> []"
  by (simp add: ParseIP_String) auto

lemma claim_deadline_sweep:
  assumes "del_ok exec" "length x = 16"
  shows "claim_deadline (sweep_at exec t s) x
    = (case claim_deadline s x of None \<Rightarrow> None | Some d \<Rightarrow> if t > d then None else Some d)"
proof (cases "IP_String x \<in> set (map fst (cl_claims (snd s)))")
  case True
  then show ?thesis
    using Sweep_claims_map[OF assms(1) True ParseIP_String_ne[OF assms(2)], of "\<lambda>_. t" "\<lambda>_. t" s]
      Sweep_claims_keeps[of exec "\<lambda>_. t" "\<lambda>_. t" "map fst (cl_claims (snd s))" s "IP_String x"]
    by (auto simp: claim_deadline_def sweep_at_def old_claim_def split: option.splits)
next
  case False
  then have "map_of (cl_claims (snd s)) (IP_String x) = None" by (simp add: map_of_eq_None_iff image_image)
  then show ?thesis
    using Sweep_claims_keeps[of exec "\<lambda>_. t" "\<lambda>_. t" "map fst (cl_claims (snd s))" s "IP_String x"]
    by (auto simp: claim_deadline_def sweep_at_def)
qed

lemma cl_ttl_sweep_at [simp]: "cl_ttl (snd (sweep_at exec t s)) = cl_ttl (snd s)"
  using Sweep_claims_keeps by (simp add: sweep_at_def)

interpretation claims: keeping claim_deadline "\<lambda>x t s. (fst s, track x t (snd s))" "sweep_at exec" ttl
    "\<lambda>s. del_ok exec \<and> cl_ttl (snd s) = ttl" "\<lambda>x. length x = 16"
  by unfold_locales
    (auto simp: claim_deadline_sweep claim_deadline_def[of "(_, track _ _ _)"] claim_deadline_def[of "(a, b)" for a b]
       iptext.enc_inj split: option.splits if_splits)


section \<open>Properties\<close>

text \<open>The keys of a sweep's list whose removal by \<open>ip\<close> succeeds (or finds the address gone); a key that is no
  address is not tried.\<close>

fun removed :: "exec \<Rightarrow> string \<Rightarrow> string list \<Rightarrow> netenv \<Rightarrow> string list" where
  "removed exec name [] env = []"
| "removed exec name (k # ks) env =
     (if ParseIP k = [] then removed exec name ks env
      else let (err, env) = delAddr exec name (ParseIP k) env
           in if err = None then k # removed exec name ks env else removed exec name ks env)"

lemma removed_sub: "k \<in> set (removed exec name ks env) \<Longrightarrow> k \<in> set ks \<and> ParseIP k \<noteq> []"
  by (induction ks arbitrary: env) (auto simp: Let_def split: if_splits prod.splits)

lemma sweep_del_exact:
  "map_of (cl_claims (snd (sweep_del exec name now ks (env, c)))) k
     = (if k \<in> set (removed exec name ks env) \<and> old_claim now c k then None else map_of (cl_claims c) k)
   \<and> cl_iface (snd (sweep_del exec name now ks (env, c))) = cl_iface c
   \<and> cl_cached (snd (sweep_del exec name now ks (env, c))) = cl_cached c"
proof (induction ks arbitrary: env c)
  case (Cons j ks)
  show ?case
  proof (cases "ParseIP j = []")
    case True
    then show ?thesis using Cons.IH by simp
  next
    case False
    obtain err env' where d: "delAddr exec name (ParseIP j) env = (err, env')" by fastforce
    show ?thesis
    proof (cases "err = None \<and> old_claim now c j")
      case True
      then have step: "sweep_del exec name now (j # ks) (env, c)
          = sweep_del exec name now ks (env', c\<lparr>cl_claims := AList.delete j (cl_claims c)\<rparr>)"
        using False d by (simp add: old_claim_def split: option.splits)
      have "old_claim now (c\<lparr>cl_claims := AList.delete j (cl_claims c)\<rparr>) k \<longleftrightarrow> k \<noteq> j \<and> old_claim now c k"
        by (auto simp: old_claim_def map_of_delete split: option.splits)
      then show ?thesis unfolding step
        using Cons.IH[of env' "c\<lparr>cl_claims := AList.delete j (cl_claims c)\<rparr>"] False True d
        by (auto simp: map_of_delete)
    next
      case F: False
      then have step: "sweep_del exec name now (j # ks) (env, c) = sweep_del exec name now ks (env', c)"
        using False d by (auto simp: Let_def old_claim_def split: option.splits)
      show ?thesis unfolding step using Cons.IH[of env' c] False F d by auto
    qed
  qed
qed simp

text \<open>C27. A sweep drops exactly the claims that are older than the TTL at both of its readings and whose
  removal from the interface succeeds, whatever the clock, the order of the map and the \<open>ip\<close> command
  answer: any other entry stays as it is, one that is younger at a reading, one whose removal fails,
  and one whose key is no address; and nothing but entries changes.\<close>

theorem Sweep_claims_exact:
  "(let name = (if cl_iface c = '''' then cl_cached c else cl_iface c);
        gone = removed exec name (filter (\<lambda>k. old_claim now1 c k) order) env;
        c' = snd (Sweep_claims exec now1 now2 order (env, c))
    in map_of (cl_claims c') k = (if k \<in> set gone \<and> old_claim now2 c k then None else map_of (cl_claims c) k)
       \<and> cl_iface c' = cl_iface c \<and> cl_cached c' = cl_cached c \<and> cl_ttl c' = cl_ttl c)"
proof -
  have "sweep_stale now1 order c = filter (\<lambda>k. old_claim now1 c k) order"
    by (simp add: sweep_stale_def old_claim_def)
  then show ?thesis by (simp add: Sweep_claims_def sweep_del_exact Let_def del: sweep_del.simps)
qed

definition sample_exec :: exec where
  "sample_exec argv env = ((False, ''''), env)"

lemma del_ok_sample [simp]: "del_ok sample_exec"
  by (simp add: del_ok_def delAddr_def sample_exec_def)

definition sample_env :: "string list \<Rightarrow> netenv" where
  "sample_env as = \<lparr>env_ifaces = Some [''eth0''], env_exists = (\<lambda>n. n = ''eth0''),
     env_addrs = (\<lambda>_. Some as), env_route = None\<rparr>"

text \<open>The networks of an interface whose addresses are the given IPv6 addresses.\<close>

definition ipv6_addr :: "ip \<times> nat \<Rightarrow> bool" where
  "ipv6_addr a \<longleftrightarrow> length (fst a) = 16 \<and> To4 (fst a) = [] \<and> 1 \<le> snd a \<and> snd a \<le> 128"

lemma ifaceAddrs_text:
  assumes "env_exists env name" "env_addrs env name = Some (map cidr_text as)" "list_all ipv6_addr as"
  shows "ifaceAddrs env name
    = map (\<lambda>a. \<lparr>net_ip = PrefixFromAddr (fst a) (int (snd a)), net_mask = CIDRMask (int (snd a)) 16\<rparr>) as"
proof -
  have "List.map_filter (\<lambda>a. map_option snd (ParseCIDR a)) (map cidr_text as)
    = map (\<lambda>a. \<lparr>net_ip = PrefixFromAddr (fst a) (int (snd a)), net_mask = CIDRMask (int (snd a)) 16\<rparr>) as"
    using assms(3) by (induction as)
      (auto simp: map_filter_simps ParseCIDR_text ipv6_addr_def PrefixFromAddr_def)
  then show ?thesis using assms(1,2) by (simp add: ifaceAddrs_def)
qed

text \<open>Whether an address counts as assigned is decided on the networks of the interface, not on its
  addresses: \<open>src\<close> is taken for assigned exactly when it is the base address of the network of an
  interface address.  In particular the host's own address in a /64 is not recognised, unless its
  host part is zero, and is claimed and tracked.\<close>

theorem on_iface_network_base:
  assumes "env_exists env name" "env_addrs env name = Some (map cidr_text as)" "list_all ipv6_addr as"
    and "length src = 16"
  shows "on_iface env name src = (name, list_ex (\<lambda>a. PrefixFromAddr (fst a) (int (snd a)) = src) as)"
proof -
  have "IP_Equal (PrefixFromAddr (fst a) (int (snd a))) src \<longleftrightarrow> PrefixFromAddr (fst a) (int (snd a)) = src"
    if "ipv6_addr a" for a
    using that assms(4) PrefixFromAddr_bits(1)[of "fst a" "int (snd a)"]
    by (auto simp: ipv6_addr_def IP_Equal_def)
  then show ?thesis using assms ifaceAddrs_text[OF assms(1-3)]
    by (auto simp: on_iface_def list_ex_iff list_all_iff)
qed

lemma To4_not_mapped: "x ! 0 \<noteq> 0 \<Longrightarrow> length x = 16 \<Longrightarrow> To4 x = []"
  by (auto simp: To4_def v4InV6Prefix_def nth_append dest!: arg_cong[of "take 12 x" _ "\<lambda>xs. xs ! 0"])

theorem on_iface_network_base_witness:
  "on_iface (sample_env [cidr_text (0x20 # replicate 15 1, 64)]) ''eth0'' (0x20 # replicate 15 1)
     = (''eth0'', False)"
proof -
  let ?x = "0x20 # replicate 15 1 :: ip"
  have v: "ipv6_addr (?x, 64)" by (simp add: ipv6_addr_def To4_not_mapped)
  have "addr_bit ?x 127" by (simp add: addr_bit_def)
  moreover have "\<not> addr_bit (PrefixFromAddr ?x 64) 127" by (simp add: PrefixFromAddr_bits)
  ultimately have "PrefixFromAddr ?x 64 \<noteq> ?x" by metis
  with on_iface_network_base[of "sample_env [cidr_text (?x, 64)]" "''eth0''" "[(?x, 64)]" ?x] v
  show ?thesis by (simp add: sample_env_def)
qed



end
