(* ===== verification/Proxy_State.thy ===== *)
theory Proxy_State
  imports Pool_Cycle Config Metrics Claim
begin

text \<open>
  \<open>internal/proxy/proxy.go\<close>, lines 1-223 and \<open>normalizeHost\<close>/\<open>tweakHost\<close>: the state of a proxy
  instance, its construction from a configuration, and authentication.  The struct's mutex is not
  part of the state: an operation that holds it is one function.  The \<open>dial\<close> field is a parameter
  of the handlers that call it.  The maps are association lists.
\<close>

section \<open>Data\<close>

definition SessionSeparator :: string where
  "SessionSeparator = ''-session-''"

definition defaultHostsMax :: int where
  "defaultHostsMax = 1024"

definition hostIdleTTL :: int where
  "hostIdleTTL = seconds 3600"

record paccount = account +
  pa_domain :: u64

record session =
  ses_ip :: ip
  ses_acct :: string
  ses_expire :: int

record stream_entry =
  e_stream :: stream
  e_seen :: int

record proxy =
  px_cfg :: config
  px_pool :: "pool option"
  px_hosts :: "ip list"
  px_accounts :: "(string \<times> paccount) list"
  px_claimer :: claimer
  px_stats :: stats
  px_seed :: u64
  px_sessions :: "(string \<times> session) list"
  px_streams :: "(string \<times> stream_entry) list"
  streamMax :: int
  brMap :: "string set"
  brRing :: "string list"
  brIdx :: nat
  brCap :: int
  hostPick :: u64

section \<open>Construction\<close>

datatype seed_error = RandError string | SeedNotHex string | SeedLength string

text \<open>\<open>rand\<close> is what \<open>crypto/rand\<close> returns: an error or eight bytes.\<close>

definition parseSeed :: "string + byte list \<Rightarrow> string \<Rightarrow> seed_error + u64" where
  "parseSeed rand s =
     (if s = ''''
      then (case rand of
              Inl e \<Rightarrow> Inl (RandError e)
            | Inr b \<Rightarrow> Inr (push_bit 56 (ucast (b ! 0)) OR push_bit 48 (ucast (b ! 1))
                OR push_bit 40 (ucast (b ! 2)) OR push_bit 32 (ucast (b ! 3))
                OR push_bit 24 (ucast (b ! 4)) OR push_bit 16 (ucast (b ! 5))
                OR push_bit 8 (ucast (b ! 6)) OR ucast (b ! 7)))
      else (case hex_decode s of
              None \<Rightarrow> Inl (SeedNotHex s)
            | Some raw \<Rightarrow>
                if length raw = 0 \<or> length raw > 8 then Inl (SeedLength s)
                else Inr (foldl (\<lambda>v b. push_bit 8 v OR ucast b) 0 raw)))"

definition uint64Bytes :: "u64 \<Rightarrow> byte list" where
  "uint64Bytes v =
     [ucast (drop_bit 56 v), ucast (drop_bit 48 v), ucast (drop_bit 40 v), ucast (drop_bit 32 v),
      ucast (drop_bit 24 v), ucast (drop_bit 16 v), ucast (drop_bit 8 v), ucast v]"

text \<open>The account loop of \<open>New\<close>: account \<open>i\<close> gets the domain of its index, when there is a pool.\<close>

fun add_accounts :: "pool option \<Rightarrow> nat \<Rightarrow> account list \<Rightarrow> (string \<times> paccount) list \<Rightarrow> (string \<times> paccount) list" where
  "add_accounts pl i [] m = m"
| "add_accounts pl i (a # as) m =
     (let a' = account.extend a
            (paccount.fields (case pl of None \<Rightarrow> 0 | Some p \<Rightarrow> AccountDomain p (word_of_nat i)))
      in add_accounts pl (i + 1) as (AList.update (a_username a) a' m))"

definition New_proxy :: "string + byte list \<Rightarrow> int \<Rightarrow> config \<Rightarrow> seed_error + proxy" where
  "New_proxy rand now c =
     (case parseSeed rand (PoolSeed c) of
        Inl e \<Rightarrow> Inl e
      | Inr seed \<Rightarrow>
          (let pl = (if PoolPrefix c \<noteq> ''''
                     then Some (NewWithSeed (PoolBits c) (ParseIP (PoolPrefix c)) seed) else None)
           in Inr \<lparr>px_cfg = c, px_pool = pl, px_hosts = map (\<lambda>h. To16 (ParseIP h)) (PoolHosts c),
                  px_accounts = add_accounts pl 0 (Accounts c) [],
                  px_claimer = New_claimer (ClaimIface c) (ClaimTTL c),
                  px_stats = (New_stats now (map a_username (Accounts c)))
                    \<lparr>SeedFP := take 16 (hex_bytes (uint64Bytes seed))\<rparr>,
                  px_seed = 0, px_sessions = [], px_streams = [],
                  streamMax = (if AvoidHostsMax c \<le> 0 then defaultHostsMax else AvoidHostsMax c),
                  brMap = {}, brRing = [], brIdx = 0, brCap = AvoidRecent c, hostPick = 0\<rparr>))"

definition PoolMode :: "proxy \<Rightarrow> string" where
  "PoolMode p =
     (if FixedSource (px_cfg p) \<noteq> '''' then ''fixed_source''
      else if length (px_hosts p) > 0 then ''pool_hosts''
      else if AutoPool (px_cfg p) then ''auto_pool''
      else if SourceIface (px_cfg p) \<noteq> '''' then ''source_iface''
      else ''pool_prefix'')"

section \<open>Authentication\<close>

text \<open>The loop of \<open>indexOf\<close> from index \<open>i\<close> on; None for -1.\<close>

function indexOf_from :: "nat \<Rightarrow> string \<Rightarrow> string \<Rightarrow> nat option" where
  "indexOf_from i s sub =
     (if i + length sub \<le> length s
      then (if take (length sub) (drop i s) = sub then Some i else indexOf_from (i + 1) s sub)
      else None)"
  by pat_completeness auto
termination by (relation "measure (\<lambda>(i, s, sub). Suc (length s) - i)") auto

declare indexOf_from.simps [simp del]

definition indexOf :: "string \<Rightarrow> string \<Rightarrow> nat option" where
  "indexOf s sub = indexOf_from 0 s sub"

definition splitUsername :: "string \<Rightarrow> string \<times> string" where
  "splitUsername user =
     (case indexOf user SessionSeparator of
        Some i \<Rightarrow> (take i user, drop (i + length SessionSeparator) user)
      | None \<Rightarrow> (user, ''''))"

definition ConstantTimeEqual :: "string \<Rightarrow> string \<Rightarrow> bool" where
  "ConstantTimeEqual a b =
     (if length a \<noteq> length b then False
      else fold (\<lambda>(x, y) v. v OR (byte_of x XOR byte_of y)) (zip a b) 0 = 0)"

definition authenticate :: "proxy \<Rightarrow> string \<Rightarrow> string \<Rightarrow> (paccount \<times> string) option" where
  "authenticate p user pass =
     (let (base, sessionKey) = splitUsername user
      in case map_of (px_accounts p) base of
           None \<Rightarrow> None
         | Some acct \<Rightarrow>
             if \<not> ConstantTimeEqual (a_password acct) pass then None else Some (acct, sessionKey))"

section \<open>Destinations\<close>

definition normalizeHost :: "(string \<Rightarrow> string) \<Rightarrow> string \<Rightarrow> string" where
  "normalizeHost uni_lower host = ToLower uni_lower (TrimSuffix host ''.'')"

text \<open>FNV-1a over 64 bits, as \<open>hash/fnv\<close> has it.\<close>

definition tweakHost :: "string \<Rightarrow> u64" where
  "tweakHost destHost =
     foldl (\<lambda>h b. (h XOR ucast b) * 1099511628211) 14695981039346656037 (bytes_of destHost)"

section \<open>Facts\<close>

lemma xor_eq_0_byte: "v XOR w = 0 \<longleftrightarrow> v = w" for v w :: byte
proof
  assume "v XOR w = 0"
  then have "(v XOR w) XOR w = 0 XOR w" by (simp only:)
  then show "v = w" by (simp add: xor.assoc)
qed simp

lemma ConstantTimeEqual_eq [simp]: "ConstantTimeEqual a b \<longleftrightarrow> a = b"
proof -
  have "fold (\<lambda>(x, y) v. v OR (byte_of x XOR byte_of y)) ps (v :: byte) = 0
      \<longleftrightarrow> v = 0 \<and> (\<forall>(x, y) \<in> set ps. x = y)" for ps v
    by (induction ps arbitrary: v) (auto simp: or_eq_0_iff xor_eq_0_byte)
  moreover have "length a = length b \<Longrightarrow> (\<forall>(x, y) \<in> set (zip a b). x = y) \<longleftrightarrow> a = b"
    by (induction a b rule: list_induct2) auto
  ultimately show ?thesis by (auto simp: ConstantTimeEqual_def simp del: fold_simps)
qed

definition occurs :: "nat \<Rightarrow> string \<Rightarrow> string \<Rightarrow> bool" where
  "occurs k s sub \<longleftrightarrow> k + length sub \<le> length s \<and> take (length sub) (drop k s) = sub"

lemma indexOf_from_Some:
  "indexOf_from i s sub = Some j \<longleftrightarrow> i \<le> j \<and> occurs j s sub \<and> (\<forall>k. i \<le> k \<and> k < j \<longrightarrow> \<not> occurs k s sub)"
proof (induction i s sub rule: indexOf_from.induct)
  case (1 i s sub)
  show ?case
  proof (cases "occurs i s sub")
    case True
    then show ?thesis by (subst indexOf_from.simps) (auto simp: occurs_def le_less)
  next
    case False
    show ?thesis
    proof (cases "i + length sub \<le> length s")
      case True
      then have "indexOf_from i s sub = indexOf_from (i + 1) s sub"
        using False by (subst indexOf_from.simps) (auto simp: occurs_def)
      moreover have "(i + 1 \<le> j \<and> occurs j s sub \<and> (\<forall>k. i + 1 \<le> k \<and> k < j \<longrightarrow> \<not> occurs k s sub))
        \<longleftrightarrow> (i \<le> j \<and> occurs j s sub \<and> (\<forall>k. i \<le> k \<and> k < j \<longrightarrow> \<not> occurs k s sub))"
      proof -
        have "k = i \<or> i + 1 \<le> k \<longleftrightarrow> i \<le> k" "i + 1 \<le> j \<longleftrightarrow> i \<le> j \<and> j \<noteq> i" for k by auto
        with False show ?thesis by metis
      qed
      moreover have "take (length sub) (drop i s) \<noteq> sub" using True False by (simp add: occurs_def)
      ultimately show ?thesis using 1 True by simp
    next
      case F: False
      then show ?thesis by (subst indexOf_from.simps) (auto simp: occurs_def)
    qed
  qed
qed

lemma indexOf_Some:
  "indexOf s sub = Some j \<longleftrightarrow> occurs j s sub \<and> (\<forall>k<j. \<not> occurs k s sub)"
  by (simp add: indexOf_def indexOf_from_Some)

lemma indexOf_None: "indexOf s sub = None \<longleftrightarrow> (\<forall>k. \<not> occurs k s sub)"
proof
  assume n: "indexOf s sub = None"
  show "\<forall>k. \<not> occurs k s sub"
  proof (rule ccontr)
    assume "\<not> (\<forall>k. \<not> occurs k s sub)"
    then obtain k where "occurs k s sub" "\<forall>j<k. \<not> occurs j s sub"
      using exists_least_iff[of "\<lambda>k. occurs k s sub"] by blast
    then have "indexOf s sub = Some k" by (simp add: indexOf_Some)
    with n show False by simp
  qed
next
  assume "\<forall>k. \<not> occurs k s sub"
  then show "indexOf s sub = None" using indexOf_Some[of s sub] by (cases "indexOf s sub") auto
qed

lemma occurs_append:
  "k + length sub \<le> length s \<Longrightarrow> occurs k (s @ t) sub \<longleftrightarrow> occurs k s sub"
  by (auto simp: occurs_def)

text \<open>\<open>plain\<close>: no separator in the name; \<open>taggable\<close>: the first separator of the name with a token
  appended is the one that was appended.\<close>

definition plain :: "string \<Rightarrow> bool" where
  "plain u \<longleftrightarrow> indexOf u SessionSeparator = None"

definition taggable :: "string \<Rightarrow> bool" where
  "taggable base \<longleftrightarrow> indexOf (base @ SessionSeparator) SessionSeparator = Some (length base)"

lemma taggable_plain: "taggable base \<Longrightarrow> plain base"
proof -
  assume t: "taggable base"
  have "\<not> occurs k base SessionSeparator" for k
  proof
    assume o: "occurs k base SessionSeparator"
    then have "k + length SessionSeparator \<le> length base" by (simp add: occurs_def)
    moreover have "0 < length SessionSeparator" by (simp add: SessionSeparator_def)
    ultimately have "k < length base" by linarith
    with o t occurs_append[of k SessionSeparator base SessionSeparator] show False
      using \<open>k + length SessionSeparator \<le> length base\<close>
      by (simp add: taggable_def indexOf_Some)
  qed
  then show ?thesis by (simp add: plain_def indexOf_None)
qed

lemma splitUsername_plain: "plain u \<Longrightarrow> splitUsername u = (u, '''')"
  by (simp add: plain_def splitUsername_def)

lemma splitUsername_tagged:
  "splitUsername user = (base, key) \<and> \<not> plain user \<longleftrightarrow> user = base @ SessionSeparator @ key \<and> taggable base"
proof
  assume *: "splitUsername user = (base, key) \<and> \<not> plain user"
  then obtain i where i: "indexOf user SessionSeparator = Some i" by (auto simp: plain_def)
  with * have b: "base = take i user" "key = drop (i + length SessionSeparator) user"
    by (auto simp: splitUsername_def)
  from i have o: "occurs i user SessionSeparator" "\<forall>k<i. \<not> occurs k user SessionSeparator"
    by (simp_all add: indexOf_Some)
  have l: "length base = i" using o(1) b by (simp add: occurs_def)
  have "drop i user = take (length SessionSeparator) (drop i user) @ drop (length SessionSeparator) (drop i user)"
    by (rule append_take_drop_id[symmetric])
  then have "drop i user = SessionSeparator @ key" using o(1) b by (simp add: occurs_def add.commute)
  then have u: "user = base @ SessionSeparator @ key" using b by (metis append_take_drop_id)
  moreover have "taggable base"
    unfolding taggable_def indexOf_Some using o l occurs_append[of _ SessionSeparator "base @ SessionSeparator" key]
    by (auto simp: u)
  ultimately show "user = base @ SessionSeparator @ key \<and> taggable base" by simp
next
  assume *: "user = base @ SessionSeparator @ key \<and> taggable base"
  then have "indexOf user SessionSeparator = Some (length base)"
    using occurs_append[of _ SessionSeparator "base @ SessionSeparator" key]
    by (auto simp: taggable_def indexOf_Some)
  with * show "splitUsername user = (base, key) \<and> \<not> plain user"
    by (simp add: splitUsername_def plain_def)
qed

text \<open>Every account is stored under its own username.\<close>

definition accounts_wf :: "(string \<times> paccount) list \<Rightarrow> bool" where
  "accounts_wf m \<longleftrightarrow> list_all (\<lambda>(u, a). a_username a = u) m"

lemma accounts_wf_map_of: "accounts_wf m \<Longrightarrow> map_of m u = Some a \<Longrightarrow> a_username a = u"
  by (auto simp: accounts_wf_def list_all_iff dest: map_of_SomeD)

lemma accounts_wf_add: "accounts_wf m \<Longrightarrow> accounts_wf (add_accounts pl i as m)"
proof (induction pl i as m rule: add_accounts.induct)
  case (2 pl i a as m)
  have "set (AList.update k v m) \<subseteq> insert (k, v) (set m)" for k v
    by (induction m) (auto split: if_splits)
  then have "accounts_wf (AList.update (a_username a) a' m)" if "a_username a' = a_username a" for a'
    using "2.prems" that by (fastforce simp: accounts_wf_def list_all_iff)
  then show ?case using 2 by (simp add: Let_def account.defs paccount.defs)
qed simp

lemma New_proxy_accounts_wf: "New_proxy rand now c = Inr p \<Longrightarrow> accounts_wf (px_accounts p)"
  by (auto simp: New_proxy_def Let_def accounts_wf_add accounts_wf_def[of "[]"] split: sum.splits)

text \<open>The seed and its printed form.\<close>

lemma uint64Bytes_eq: "uint64Bytes v = be_bytes64 v"
  by (simp add: uint64Bytes_def be_bytes64_def upt_rec[of _ 8] numeral_eq_Suc)

lemma be_uint64_be_bytes64 [simp]: "be_uint64 (be_bytes64 v) = v"
  by (rule bit_word_eqI) (simp add: bit_be_uint64 addr_bit_be_bytes64)

lemma parseSeed_hex:
  assumes "bs \<noteq> []" "length bs \<le> 8"
  shows "parseSeed rand (hex_bytes bs) = Inr (be_uint64 bs)"
proof -
  have "hex_bytes bs \<noteq> []" using assms(1) by (cases bs) (simp_all add: hex_bytes_Cons)
  then show ?thesis using assms by (simp add: parseSeed_def hex_decode_hex_bytes be_uint64_def)
qed

section \<open>Properties\<close>

text \<open>C10. \<open>authenticate\<close> accepts exactly: a user string without the session separator that names an
  account, or an account name, the separator and a token, split at the first separator; in both
  cases the password must be the account's.  No other string authenticates.\<close>

theorem authenticate_iff:
  "authenticate p user pass = Some (acct, key) \<longleftrightarrow>
     (if plain user then map_of (px_accounts p) user = Some acct \<and> a_password acct = pass \<and> key = ''''
      else list_ex (\<lambda>(base, a). map_of (px_accounts p) base = Some acct \<and> a_password acct = pass
             \<and> user = base @ SessionSeparator @ key \<and> taggable base) (px_accounts p))"
proof (cases "plain user")
  case True
  then show ?thesis
    by (auto simp: authenticate_def splitUsername_plain split: option.splits)
next
  case False
  obtain b k where bk: "splitUsername user = (b, k)" by fastforce
  have sp: "user = b' @ SessionSeparator @ k' \<and> taggable b' \<longleftrightarrow> b' = b \<and> k' = k" for b' k'
    using splitUsername_tagged[of user b' k'] False bk by auto
  have "list_ex (\<lambda>(base, a). map_of (px_accounts p) base = Some acct \<and> a_password acct = pass
             \<and> user = base @ SessionSeparator @ key \<and> taggable base) (px_accounts p)
      \<longleftrightarrow> map_of (px_accounts p) b = Some acct \<and> a_password acct = pass \<and> key = k"
    unfolding list_ex_iff sp by (auto dest: map_of_SomeD)
  then show ?thesis using False bk
    by (auto simp: authenticate_def split: option.splits)
qed

lemma plain_indexOf: "plain u \<longleftrightarrow> indexOf_from 0 u ''-session-'' = None"
  by (simp add: plain_def indexOf_def SessionSeparator_def)

lemmas index_eval = plain_indexOf taggable_def indexOf_def SessionSeparator_def indexOf_from.simps

text \<open>C30. An account whose username contains the session separator can never authenticate, with any
  user string and password, although the configuration accepts it.\<close>

theorem separator_account_locked_out:
  assumes "New_proxy rand now c = Inr p" and "\<not> plain u" "a_username acct = u"
  shows "authenticate p user pass \<noteq> Some (acct, key)"
proof
  assume "authenticate p user pass = Some (acct, key)"
  moreover have "map_of (px_accounts p) b = Some acct \<Longrightarrow> b = u" for b
    using accounts_wf_map_of[OF New_proxy_accounts_wf[OF assms(1)]] assms(3) by blast
  ultimately show False using assms(2) taggable_plain
    by (auto simp: authenticate_iff list_ex_iff split: if_splits)
qed

lemma parseSeed_sample: "parseSeed rand ''00ff'' = Inr 255"
proof -
  have "hex_bytes [0, 255] = ''00ff''" by code_simp
  with parseSeed_hex[of "[0, 255]" rand] show ?thesis by (simp add: be_uint64_def)
qed

theorem separator_account_locked_out_witness:
  "case New_proxy (Inl '''') 0 (sample_config\<lparr>Accounts := [\<lparr>a_name = ''a'', a_username = ''x-session-y'',
        a_password = ''p'', a_start = 0, a_size = 0\<rparr>]\<rparr>) of
     Inr p \<Rightarrow> list_all (\<lambda>(u, acct). authenticate p ''x-session-y'' ''p'' \<noteq> Some (acct, ''y'')) (px_accounts p)
   | Inl e \<Rightarrow> False"
proof -
  let ?c = "sample_config\<lparr>Accounts := [\<lparr>a_name = ''a'', a_username = ''x-session-y'',
        a_password = ''p'', a_start = 0, a_size = 0\<rparr>]\<rparr>"
  have "PoolSeed ?c = ''00ff''" by (simp add: sample_config_def)
  then obtain p where p: "New_proxy (Inl '''') 0 ?c = Inr p"
    by (simp add: New_proxy_def parseSeed_sample Let_def)
  have np: "\<not> plain ''x-session-y''" by (simp add: index_eval)
  have only: "(u, acct) \<in> set (px_accounts p) \<Longrightarrow> a_username acct = ''x-session-y''" for u acct
    using p by (auto simp: New_proxy_def Let_def account.defs paccount.defs split: sum.splits)
  show ?thesis
    using separator_account_locked_out[OF p np only] p by (auto simp: list_all_iff)
qed

text \<open>C29. The seed fingerprint the statistics publish is the whole seed: it is 16 hex digits, and using it
  as \<open>pool_seed\<close> gives the same seed again, whatever seed the proxy was started with.\<close>

theorem SeedFP_is_seed:
  "case New_proxy rand now c of
     Inl e \<Rightarrow> parseSeed rand (PoolSeed c) = Inl e
   | Inr p \<Rightarrow> length (SeedFP (px_stats p)) = 16
       \<and> parseSeed r (SeedFP (px_stats p)) = parseSeed rand (PoolSeed c)"
proof (cases "parseSeed rand (PoolSeed c)")
  case (Inr seed)
  have "length (hex_bytes (uint64Bytes seed)) = 16" by (simp add: uint64Bytes_eq)
  moreover have "parseSeed r (hex_bytes (uint64Bytes seed)) = Inr seed"
    using parseSeed_hex[of "uint64Bytes seed" r]
    by (simp add: uint64Bytes_eq be_bytes64_def[THEN arg_cong[of _ _ length]]) (auto simp: be_bytes64_def)
  ultimately show ?thesis by (simp add: New_proxy_def Inr Let_def)
qed (simp add: New_proxy_def)

end
