(* ===== verification/Recent_Ring.thy ===== *)
theory Recent_Ring
  imports Proxy_State
begin

text \<open>
  \<open>internal/proxy/proxy.go\<close>, lines 348-387: the ring of recently used addresses.  The closure
  \<open>next\<close> that draws another candidate is a function from the proxy state to an address and the next
  state; it is never nil in the program.  The specification is a bounded FIFO queue; the contract of
  the closures is the locale \<open>pick_source\<close>.
\<close>

section \<open>Operations\<close>

type_synonym picker = "proxy \<Rightarrow> ip \<times> proxy"

definition brHit :: "proxy \<Rightarrow> ip \<Rightarrow> bool" where
  "brHit p x \<longleftrightarrow> IP_String x \<in> brMap p"

text \<open>The regeneration loop, at most \<open>n\<close> more rounds.\<close>

fun regen :: "nat \<Rightarrow> picker \<Rightarrow> ip \<Rightarrow> proxy \<Rightarrow> ip \<times> proxy" where
  "regen 0 nxt x p = (x, p)"
| "regen (Suc n) nxt x p = (if brHit p x then let (x, p) = nxt p in regen n nxt x p else (x, p))"

text \<open>The bookkeeping after the loop.\<close>

definition record_recent :: "string \<Rightarrow> proxy \<Rightarrow> proxy" where
  "record_recent key p =
     (if key \<in> brMap p then p
      else let p = (if int (length (brRing p)) < brCap p
                    then p\<lparr>brRing := brRing p @ [key]\<rparr>
                    else if brCap p > 0
                    then (let i = brIdx p mod length (brRing p)
                          in p\<lparr>brMap := brMap p - {brRing p ! i}, brRing := (brRing p)[i := key],
                               brIdx := brIdx p + 1\<rparr>)
                    else p)
           in p\<lparr>brMap := insert key (brMap p)\<rparr>)"

definition backstopLocked :: "picker \<Rightarrow> ip \<Rightarrow> proxy \<Rightarrow> ip \<times> proxy" where
  "backstopLocked nxt x p =
     (if brCap p \<le> 0 then (x, p)
      else let (x, p) = regen 3 nxt x p in (x, record_recent (IP_String x) p))"

definition backstopGuard :: "picker \<Rightarrow> ip \<Rightarrow> proxy \<Rightarrow> ip \<times> proxy" where
  "backstopGuard nxt x p = (if brCap p \<le> 0 then (x, p) else backstopLocked nxt x p)"

section \<open>The ring is a bounded queue\<close>

definition ring_wf :: "proxy \<Rightarrow> bool" where
  "ring_wf p \<longleftrightarrow> distinct (brRing p) \<and> brMap p = set (brRing p)
     \<and> (0 < brCap p \<longrightarrow> int (length (brRing p)) \<le> brCap p)
     \<and> (int (length (brRing p)) < brCap p \<longrightarrow> brIdx p = 0)"

text \<open>The recorded addresses, the oldest first, and the queue they implement.\<close>

definition recent :: "proxy \<Rightarrow> string list" where
  "recent p = rotate (brIdx p) (brRing p)"

definition fifo :: "nat \<Rightarrow> string \<Rightarrow> string list \<Rightarrow> string list" where
  "fifo cap key q =
     (if key \<in> set q then q else if length q < cap then q @ [key] else tl q @ [key])"

lemma set_recent: "ring_wf p \<Longrightarrow> set (recent p) = brMap p"
  by (simp add: ring_wf_def recent_def)

lemma rotate_update:
  assumes "xs \<noteq> []"
  shows "rotate n (xs[n mod length xs := k]) = (rotate n xs)[0 := k]"
proof -
  have "n mod length xs < length xs" using assms by simp
  then show ?thesis
    by (simp add: rotate_drop_take drop_update_swap list_update_append)
qed

lemma rotate_head: "xs \<noteq> [] \<Longrightarrow> hd (rotate n xs) = xs ! (n mod length xs)"
  by (simp add: hd_rotate_conv_nth)

lemma record_recent_full:
  assumes "xs \<noteq> []"
  shows "rotate (Suc n) (xs[n mod length xs := k]) = tl (rotate n xs) @ [k]"
proof -
  obtain y ys where "rotate n xs = y # ys" using assms by (metis list.exhaust rotate_is_Nil_conv)
  then show ?thesis using rotate_update[OF assms, of n k] by simp
qed

lemma ring_step:
  assumes "ring_wf p" "0 < brCap p"
  shows record_recent_wf: "ring_wf (record_recent key p)"
    and record_recent_fifo: "recent (record_recent key p) = fifo (nat (brCap p)) key (recent p)"
proof -
  have "ring_wf (record_recent key p) \<and> recent (record_recent key p) = fifo (nat (brCap p)) key (recent p)"
  proof (cases "key \<in> brMap p")
    case True
    then show ?thesis using assms set_recent[OF assms(1)] by (simp add: record_recent_def fifo_def)
  next
    case key: False
    show ?thesis
    proof (cases "int (length (brRing p)) < brCap p")
      case True
      then have "record_recent key p = p\<lparr>brRing := brRing p @ [key], brMap := insert key (brMap p)\<rparr>"
        using key by (simp add: record_recent_def)
      moreover have "length (brRing p) < nat (brCap p)" using True by linarith
      ultimately show ?thesis using True key assms
        by (auto simp: ring_wf_def recent_def fifo_def)
    next
      case False
      then have len: "int (length (brRing p)) = brCap p" using assms by (simp add: ring_wf_def)
      then have ne: "brRing p \<noteq> []" using assms(2) by auto
      let ?i = "brIdx p mod length (brRing p)"
      have i: "?i < length (brRing p)" using ne by simp
      have r: "record_recent key p = p\<lparr>brMap := insert key (brMap p - {brRing p ! ?i}),
          brRing := (brRing p)[?i := key], brIdx := brIdx p + 1\<rparr>"
        using key False assms(2) by (simp add: record_recent_def Let_def)
      have d: "distinct (brRing p)" "set (brRing p) = brMap p" using assms(1) by (simp_all add: ring_wf_def)
      have "set ((brRing p)[?i := key]) = insert key (brMap p - {brRing p ! ?i})"
        using set_update_distinct[OF d(1) i, of key] d(2) by simp
      moreover have "distinct ((brRing p)[?i := key])"
        using d key by (intro distinct_list_update) auto
      ultimately have "ring_wf (record_recent key p)" using len by (simp add: r ring_wf_def)
      moreover have "recent (record_recent key p) = tl (recent p) @ [key]"
        using record_recent_full[OF ne, of "brIdx p" key] by (simp add: r recent_def)
      moreover have "key \<notin> set (recent p)" using key set_recent[OF assms(1)] by simp
      moreover have "\<not> length (recent p) < nat (brCap p)" using len by (simp add: recent_def)
      ultimately show ?thesis by (simp add: fifo_def)
    qed
  qed
  then show "ring_wf (record_recent key p)"
    "recent (record_recent key p) = fifo (nat (brCap p)) key (recent p)" by simp_all
qed

lemma brCap_record [simp]: "brCap (record_recent key p) = brCap p"
  by (simp add: record_recent_def Let_def)

lemma fifo_window:
  "q = a @ k # b \<Longrightarrow> length b + length ks < cap \<Longrightarrow> length q \<le> cap \<Longrightarrow> k \<in> set (fold (fifo cap) ks q)"
proof (induction ks arbitrary: q a b)
  case (Cons x ks)
  consider "x \<in> set q" | "x \<notin> set q" "length q < cap" | "x \<notin> set q" "length q = cap"
    using Cons.prems(3) by linarith
  then show ?case
  proof cases
    case 1
    then show ?thesis using Cons.IH[OF Cons.prems(1)] Cons.prems by (simp add: fifo_def)
  next
    case 2
    then show ?thesis using Cons.IH[of "q @ [x]" a "b @ [x]"] Cons.prems by (simp add: fifo_def)
  next
    case 3
    then have "a \<noteq> []" using Cons.prems(1,2) by auto
    then have "tl q @ [x] = tl a @ k # b @ [x]" using Cons.prems(1) by simp
    then show ?thesis using Cons.IH[of "tl q @ [x]" "tl a" "b @ [x]"] Cons.prems 3
      by (simp add: fifo_def)
  qed
qed simp

section \<open>The contract of the candidate closures\<close>

text \<open>A closure that draws candidates leaves the ring alone, keeps an invariant of its caller, and
  yields addresses its caller accepts; the invariant does not look at the ring.\<close>

locale pick_source =
  fixes nxt :: picker and inv :: "proxy \<Rightarrow> bool" and ok :: "ip \<Rightarrow> bool"
  assumes next_inv: "inv p \<Longrightarrow> inv (snd (nxt p))"
    and next_ok: "inv p \<Longrightarrow> ok (fst (nxt p))"
    and next_ring: "inv p \<Longrightarrow> brMap (snd (nxt p)) = brMap p \<and> brRing (snd (nxt p)) = brRing p
      \<and> brIdx (snd (nxt p)) = brIdx p \<and> brCap (snd (nxt p)) = brCap p"
    and inv_record: "inv p \<Longrightarrow> inv (record_recent key p)"
begin

text \<open>The candidates the loop may look at.\<close>

fun cands :: "nat \<Rightarrow> ip \<Rightarrow> proxy \<Rightarrow> ip list" where
  "cands 0 x p = [x]"
| "cands (Suc n) x p = x # cands n (fst (nxt p)) (snd (nxt p))"

lemma regen_props:
  "inv p \<Longrightarrow> ok x \<Longrightarrow> regen n nxt x p = (y, q) \<Longrightarrow>
     inv q \<and> ok y \<and> brMap q = brMap p \<and> brRing q = brRing p \<and> brIdx q = brIdx p \<and> brCap q = brCap p
     \<and> y = (case find (\<lambda>c. \<not> brHit p c) (cands n x p) of Some c \<Rightarrow> c | None \<Rightarrow> last (cands n x p))"
proof (induction n arbitrary: x p)
  case (Suc n)
  show ?case
  proof (cases "brHit p x")
    case True
    obtain x' p' where n: "nxt p = (x', p')" by fastforce
    have r: "regen n nxt x' p' = (y, q)" using Suc.prems True n by simp
    have p': "inv p'" "ok x'" "brMap p' = brMap p" "brRing p' = brRing p" "brIdx p' = brIdx p"
      "brCap p' = brCap p"
      using next_inv[OF Suc.prems(1)] next_ok[OF Suc.prems(1)] next_ring[OF Suc.prems(1)] n by auto
    then have "brHit p' c \<longleftrightarrow> brHit p c" for c by (simp add: brHit_def)
    moreover have "cands n x' p' \<noteq> []" by (cases n) simp_all
    ultimately show ?thesis using Suc.IH[OF p'(1,2) r] p' True n
      by (auto cong: option.case_cong)
  qed (use Suc.prems in auto)
qed auto

lemma backstop_props:
  assumes "inv p" "ok x" "backstopLocked nxt x p = (y, q)"
  shows "inv q \<and> ok y \<and> brCap q = brCap p"
  using assms regen_props[OF assms(1,2), of 3]
  by (cases "regen 3 nxt x p") (auto simp: backstopLocked_def inv_record split: if_splits)

lemma backstop_choice:
  assumes "inv p" "ok x" "0 < brCap p" "ring_wf p" "backstopLocked nxt x p = (y, q)"
  shows "y = (case find (\<lambda>c. \<not> brHit p c) (cands 3 x p) of Some c \<Rightarrow> c | None \<Rightarrow> last (cands 3 x p))
    \<and> ring_wf q \<and> recent q = fifo (nat (brCap p)) (IP_String y) (recent p)"
proof -
  obtain y' q' where r: "regen 3 nxt x p = (y', q')" by fastforce
  then have q: "y = y'" "q = record_recent (IP_String y) q'"
    using assms(3,5) by (auto simp: backstopLocked_def)
  note props = regen_props[OF assms(1,2) r]
  then have "ring_wf q'" "0 < brCap q'" "recent q' = recent p" "brCap q' = brCap p"
    using assms(3,4) by (simp_all add: ring_wf_def recent_def)
  with ring_step[of q' "IP_String y"] props q show ?thesis by simp
qed

lemma backstop_ring:
  assumes "inv p" "ok x" "ring_wf p" "backstopLocked nxt x p = (y, q)"
  shows "ring_wf q"
proof (cases "brCap p \<le> 0")
  case True
  then show ?thesis using assms by (simp add: backstopLocked_def)
next
  case False
  then show ?thesis using backstop_choice[OF assms(1,2) _ assms(3,4)] by simp
qed

end

section \<open>Properties\<close>

text \<open>A run of recordings.\<close>

lemma fold_record_recent:
  "ring_wf p \<Longrightarrow> 0 < brCap p \<Longrightarrow> ring_wf (fold record_recent ks p) \<and> brCap (fold record_recent ks p) = brCap p
     \<and> recent (fold record_recent ks p) = fold (fifo (nat (brCap p))) ks (recent p)"
  by (induction ks arbitrary: p) (simp_all add: ring_step)

lemma ring_bound: "ring_wf p \<Longrightarrow> 0 < brCap p \<Longrightarrow> length (recent p) \<le> nat (brCap p)"
  by (auto simp: ring_wf_def recent_def)

definition sample_proxy :: "int \<Rightarrow> proxy" where
  "sample_proxy cap = \<lparr>px_cfg = sample_config, px_pool = None, px_hosts = [], px_accounts = [],
     px_claimer = New_claimer '''' 300, px_stats = New_stats 0 [], px_seed = 0, px_sessions = [],
     px_streams = [], streamMax = 2, brMap = {}, brRing = [], brIdx = 0, brCap = cap, hostPick = 0\<rparr>"

lemma ring_wf_sample [simp]: "ring_wf (sample_proxy cap)"
  by (auto simp: ring_wf_def sample_proxy_def)

text \<open>C12. The ring refines a bounded FIFO queue: recording keeps the ring and its map consistent (no
  duplicates, at most \<open>brCap\<close> entries), and a sequence of recordings acts on the abstract queue
  \<open>recent\<close> as the queue operations do.\<close>

theorem ring_refines_fifo:
  assumes "ring_wf p" "0 < brCap p"
  shows "ring_wf (fold record_recent ks p)
    \<and> recent (fold record_recent ks p) = fold (fifo (nat (brCap p))) ks (recent p)
    \<and> brMap (fold record_recent ks p) = set (recent (fold record_recent ks p))
    \<and> length (recent (fold record_recent ks p)) \<le> nat (brCap p)"
proof -
  let ?q = "fold record_recent ks p"
  have q: "ring_wf ?q" "brCap ?q = brCap p" "recent ?q = fold (fifo (nat (brCap p))) ks (recent p)"
    using fold_record_recent[OF assms] by blast+
  moreover have "0 < brCap ?q" using q(2) assms(2) by simp
  ultimately show ?thesis using ring_bound[of ?q] set_recent[of ?q] by (simp only: simp_thms)
qed

theorem ring_refines_fifo_witness:
  "recent (fold record_recent [''a'', ''b'', ''a'', ''c''] (sample_proxy 2)) = [''b'', ''c'']"
proof -
  have "0 < brCap (sample_proxy 2)" by (simp add: sample_proxy_def)
  note ring_refines_fifo[OF ring_wf_sample this, of "[''a'', ''b'', ''a'', ''c'']"]
  moreover have "nat (brCap (sample_proxy 2)) = 2" "recent (sample_proxy 2) = []"
    by (simp_all add: sample_proxy_def recent_def)
  ultimately show ?thesis by (simp add: fifo_def)
qed

text \<open>The recent window: an address that was just recorded for the first time is still a hit
  after any further recordings, as long as they are fewer than \<open>brCap\<close>.\<close>

theorem recent_window:
  assumes "ring_wf p" "0 < brCap p" "\<not> brHit p x" "int (length ks) < brCap p"
  shows "brHit (fold record_recent ks (record_recent (IP_String x) p)) x"
proof -
  let ?q = "record_recent (IP_String x) p"
  note q = ring_step[OF assms(1,2), of "IP_String x"]
  have "recent ?q = (if length (recent p) < nat (brCap p) then recent p else tl (recent p)) @ [IP_String x]"
    using assms(3) q(2) set_recent[OF assms(1)] by (auto simp: fifo_def brHit_def)
  moreover have "length (recent ?q) \<le> nat (brCap p)"
    using ring_bound[OF q(1)] assms(2) by simp
  ultimately have "IP_String x \<in> set (fold (fifo (nat (brCap p))) ks (recent ?q))"
    using assms(4) by (intro fifo_window[where b = "[]"]) auto
  then show ?thesis
    using fold_record_recent[OF q(1), of ks] set_recent[of "fold record_recent ks ?q"] assms(2)
    by (auto simp: brHit_def)
qed

theorem recent_window_witness:
  "brHit (fold record_recent [''a'', ''b''] (record_recent (IP_String (replicate 16 7)) (sample_proxy 3)))
     (replicate 16 7)"
proof -
  have "0 < brCap (sample_proxy 3)" "\<not> brHit (sample_proxy 3) (replicate 16 7)"
    "int (length [''a'', ''b'']) < brCap (sample_proxy 3)"
    by (simp_all add: sample_proxy_def brHit_def)
  then show ?thesis by (rule recent_window[OF ring_wf_sample])
qed

end
