(* ===== verification/Stream_Table.thy ===== *)
theory Stream_Table
  imports Recent_Ring
begin

text \<open>
  \<open>internal/proxy/proxy.go\<close>, lines 316-346 and 462-477: the bounded table of rotation cycles, keyed
  by account, destination and prefix.  The order in which \<open>range\<close> visits the table is the parameter
  \<open>rng\<close>, a rearrangement of the entries.  The eviction loops end only because no key is the empty
  string; they are partial functions, and their termination is proved.  \<open>now\<close> is the clock reading of
  a call (in the sweep, of each entry's test).
\<close>

section \<open>Operations\<close>

type_synonym table = "(string \<times> stream_entry) list"

definition stream_key :: "paccount \<Rightarrow> string \<Rightarrow> string \<Rightarrow> string" where
  "stream_key acct destHost suffix = a_username acct @ [CHR 0x00] @ destHost @ suffix"

text \<open>One round of the scan of \<open>evictStreamLocked\<close>, over the pair (oldest, oldestAt).\<close>

definition evict_step :: "string \<times> stream_entry \<Rightarrow> string \<times> int \<Rightarrow> string \<times> int" where
  "evict_step ke acc =
     (let (k, e) = ke; (oldest, oldestAt) = acc
      in if e_seen e < oldestAt \<or> oldest = '''' then (k, e_seen e) else (oldest, oldestAt))"

definition evictStreamLocked :: "(table \<Rightarrow> table) \<Rightarrow> int \<Rightarrow> proxy \<Rightarrow> proxy" where
  "evictStreamLocked rng now p =
     (let (oldest, oldestAt) = fold evict_step (rng (px_streams p)) ('''', now)
      in if oldest \<noteq> '''' then p\<lparr>px_streams := AList.delete oldest (px_streams p)\<rparr> else p)"

text \<open>\<open>for busy() { p.evictStreamLocked() }\<close>; None stands for a loop that does not end.\<close>

partial_function (option) evict_while ::
  "(proxy \<Rightarrow> bool) \<Rightarrow> (table \<Rightarrow> table) \<Rightarrow> int \<Rightarrow> proxy \<Rightarrow> proxy option" where
  "evict_while busy rng now p =
     (if busy p then evict_while busy rng now (evictStreamLocked rng now p) else Some p)"

declare evict_while.simps [code]

definition at_cap :: "proxy \<Rightarrow> bool" where
  "at_cap p \<longleftrightarrow> streamMax p > 0 \<and> int (length (px_streams p)) \<ge> streamMax p"

definition over_cap :: "proxy \<Rightarrow> bool" where
  "over_cap p \<longleftrightarrow> streamMax p > 0 \<and> int (length (px_streams p)) > streamMax p"

definition store_hosts_cur :: "proxy \<Rightarrow> proxy" where
  "store_hosts_cur p = p\<lparr>px_stats := (px_stats p)\<lparr>HostsCur := int (length (px_streams p))\<rparr>\<rparr>"

text \<open>\<open>streamLocked\<close> after its key is built: the entry of the key, created with the stream \<open>fresh\<close>.\<close>

definition stream_at :: "(table \<Rightarrow> table) \<Rightarrow> int \<Rightarrow> string \<Rightarrow> stream \<Rightarrow> proxy \<Rightarrow> proxy option" where
  "stream_at rng now key fresh p =
     (case map_of (px_streams p) key of
        Some e \<Rightarrow> Some (p\<lparr>px_streams := AList.update key (e\<lparr>e_seen := now\<rparr>) (px_streams p)\<rparr>)
      | None \<Rightarrow>
          (case evict_while at_cap rng now p of
             None \<Rightarrow> None
           | Some p \<Rightarrow>
               Some (store_hosts_cur
                 (p\<lparr>px_streams := AList.update key \<lparr>e_stream = fresh, e_seen = now\<rparr> (px_streams p)\<rparr>))))"

text \<open>The result names the entry by its key: the code returns a pointer to its stream.\<close>

definition streamLocked ::
  "(table \<Rightarrow> table) \<Rightarrow> int \<Rightarrow> paccount \<Rightarrow> string \<Rightarrow> pool \<Rightarrow> string \<Rightarrow> proxy \<Rightarrow> (string \<times> proxy) option" where
  "streamLocked rng now acct destHost pl suffix p =
     (let key = stream_key acct destHost suffix
      in map_option (\<lambda>q. (key, q))
           (stream_at rng now key (NewStream pl (pa_domain acct) (tweakHost destHost)) p))"

definition SweepStreams :: "(table \<Rightarrow> table) \<Rightarrow> (string \<Rightarrow> int) \<Rightarrow> proxy \<Rightarrow> proxy option" where
  "SweepStreams rng now p =
     (let p = p\<lparr>px_streams := filter (\<lambda>(k, e). \<not> now k - e_seen e > hostIdleTTL) (px_streams p)\<rparr>
      in map_option store_hosts_cur (evict_while over_cap rng 0 p))"

section \<open>Well-formed tables\<close>

definition table_wf :: "table \<Rightarrow> bool" where
  "table_wf t \<longleftrightarrow> distinct (map fst t) \<and> '''' \<notin> set (map fst t)"

definition rng_ok :: "(table \<Rightarrow> table) \<Rightarrow> bool" where
  "rng_ok rng \<longleftrightarrow> (\<forall>t. set (rng t) = set t)"

lemma table_wf_update: "table_wf t \<Longrightarrow> k \<noteq> '''' \<Longrightarrow> table_wf (AList.update k v t)"
  by (auto simp: table_wf_def distinct_update dom_update)

lemma table_wf_delete: "table_wf t \<Longrightarrow> table_wf (AList.delete k t)"
  by (simp add: table_wf_def delete_keys distinct_removeAll)

lemma table_wf_filter: "table_wf t \<Longrightarrow> table_wf (filter P t)"
  by (auto simp: table_wf_def distinct_map_filter)

lemma length_delete: "table_wf t \<Longrightarrow> map_of t k = Some v \<Longrightarrow> Suc (length (AList.delete k t)) = length t"
proof -
  assume *: "table_wf t" "map_of t k = Some v"
  then have "k \<in> set (map fst t)" by (force dest: map_of_SomeD)
  then have "length (map fst (AList.delete k t)) = length (removeAll k (map fst t))"
    by (simp add: delete_keys)
  also have "\<dots> = length (map fst t) - 1"
    using * \<open>k \<in> _\<close> by (simp add: table_wf_def distinct_remove1_removeAll[symmetric] length_remove1)
  finally show ?thesis using \<open>k \<in> _\<close> by (cases t) auto
qed

lemma length_update_new: "k \<notin> set (map fst t) \<Longrightarrow> length (AList.update k v t) = Suc (length t)"
  by (induction t) auto

lemma length_update_old: "k \<in> set (map fst t) \<Longrightarrow> length (AList.update k v t) = length t"
  by (induction t) auto

section \<open>Eviction\<close>

lemma fold_evict_step:
  "'''' \<notin> fst ` set es \<Longrightarrow> fold evict_step es acc = (k, a) \<Longrightarrow>
     (k = fst acc \<and> a = snd acc \<or> (\<exists>e. (k, e) \<in> set es \<and> e_seen e = a))
     \<and> (fst acc \<noteq> '''' \<longrightarrow> a \<le> snd acc) \<and> (es \<noteq> [] \<or> fst acc \<noteq> '''' \<longrightarrow> k \<noteq> '''')
     \<and> (\<forall>(j, e) \<in> set es. a \<le> e_seen e)"
proof (induction es arbitrary: acc)
  case (Cons ke es)
  obtain j e where ke: "ke = (j, e)" by (cases ke)
  obtain ob ab where acc: "acc = (ob, ab)" by (cases acc)
  have st: "evict_step ke acc = (if e_seen e < ab \<or> ob = '''' then (j, e_seen e) else (ob, ab))"
    by (simp add: evict_step_def ke acc)
  have "fold evict_step es (evict_step ke acc) = (k, a)" "'''' \<notin> fst ` set es" "j \<noteq> ''''"
    using Cons.prems ke by auto
  with Cons.IH[of "evict_step ke acc"] show ?case
    unfolding st by (auto simp: ke acc split: if_splits)
qed auto

lemma evict_lru:
  assumes "table_wf (px_streams p)" "rng_ok rng" "px_streams p \<noteq> []"
  obtains k e where "map_of (px_streams p) k = Some e"
    "evictStreamLocked rng now p = p\<lparr>px_streams := AList.delete k (px_streams p)\<rparr>"
    "\<And>j f. map_of (px_streams p) j = Some f \<Longrightarrow> e_seen e \<le> e_seen f"
proof -
  obtain k a where f: "fold evict_step (rng (px_streams p)) ('''', now) = (k, a)" by fastforce
  have r: "set (rng (px_streams p)) = set (px_streams p)" using assms(2) by (simp add: rng_ok_def)
  then have ne: "rng (px_streams p) \<noteq> []" using assms(3) by auto
  have "'''' \<notin> fst ` set (rng (px_streams p))" using assms(1) r by (simp add: table_wf_def)
  from fold_evict_step[OF this f] ne have k: "k \<noteq> ''''" "\<forall>(j, e) \<in> set (px_streams p). a \<le> e_seen e"
    "\<exists>e. (k, e) \<in> set (px_streams p) \<and> e_seen e = a"
    unfolding r by auto
  then obtain e where e: "(k, e) \<in> set (px_streams p)" "e_seen e = a" by blast
  have "map_of (px_streams p) k = Some e" using e(1) assms(1) by (simp add: table_wf_def)
  moreover have "evictStreamLocked rng now p = p\<lparr>px_streams := AList.delete k (px_streams p)\<rparr>"
    using f k(1) by (simp add: evictStreamLocked_def)
  moreover have "e_seen e \<le> e_seen f" if "map_of (px_streams p) j = Some f" for j f
    using k(2) e(2) that by (auto dest: map_of_SomeD)
  ultimately show ?thesis by (rule that)
qed

text \<open>What a loop of evictions leaves: a part of the table, the most recently seen entries.\<close>

definition lru_part :: "table \<Rightarrow> table \<Rightarrow> bool" where
  "lru_part t u \<longleftrightarrow> (\<forall>k. map_of u k \<in> {None, map_of t k})
     \<and> (\<forall>k e j f. map_of t k = Some e \<and> map_of u k = None \<and> map_of u j = Some f \<longrightarrow> e_seen e \<le> e_seen f)"

lemma lru_part_refl [simp]: "lru_part t t"
  by (auto simp: lru_part_def)

lemma lru_part_delete:
  assumes "map_of t k = Some e" "\<And>j f. map_of t j = Some f \<Longrightarrow> e_seen e \<le> e_seen f"
    and "lru_part (AList.delete k t) u"
  shows "lru_part t u"
  unfolding lru_part_def
proof (intro conjI allI impI)
  fix j
  show "map_of u j \<in> {None, map_of t j}"
    using assms(3) by (auto simp: lru_part_def map_of_delete split: if_splits dest: spec[of _ j])
next
  fix i g j f
  assume *: "map_of t i = Some g \<and> map_of u i = None \<and> map_of u j = Some f"
  from assms(3) have "map_of u j \<in> {None, map_of (AList.delete k t) j}" by (simp add: lru_part_def)
  with * have j: "map_of t j = Some f" by (auto simp: map_of_delete split: if_splits)
  show "e_seen g \<le> e_seen f"
  proof (cases "i = k")
    case True
    then show ?thesis using * assms(1,2) j by auto
  next
    case False
    then have "map_of (AList.delete k t) i = Some g" using * by (simp add: map_of_delete)
    then show ?thesis using * assms(3) unfolding lru_part_def by blast
  qed
qed

text \<open>The eviction loops end, with the table cut down to their bound.\<close>

lemma evict_while_ends:
  assumes "rng_ok rng" and busy: "\<And>t. busy (p\<lparr>px_streams := t\<rparr>) \<longleftrightarrow> b < length t"
  shows "table_wf t \<Longrightarrow> \<exists>u. evict_while busy rng now (p\<lparr>px_streams := t\<rparr>) = Some (p\<lparr>px_streams := u\<rparr>)
     \<and> table_wf u \<and> lru_part t u \<and> length u = min (length t) b"
proof (induction "length t" arbitrary: t rule: less_induct)
  case less
  show ?case
  proof (cases "b < length t")
    case True
    then have ne: "px_streams (p\<lparr>px_streams := t\<rparr>) \<noteq> []" by auto
    have wf: "table_wf (px_streams (p\<lparr>px_streams := t\<rparr>))" using less.prems by simp
    obtain k e where k: "map_of t k = Some e"
      "evictStreamLocked rng now (p\<lparr>px_streams := t\<rparr>) = p\<lparr>px_streams := AList.delete k t\<rparr>"
      "\<And>j f. map_of t j = Some f \<Longrightarrow> e_seen e \<le> e_seen f"
      by (rule evict_lru[OF wf assms(1) ne, of now]) auto
    have len: "Suc (length (AList.delete k t)) = length t" using length_delete[OF less.prems k(1)] .
    then obtain u where u: "evict_while busy rng now (p\<lparr>px_streams := AList.delete k t\<rparr>) = Some (p\<lparr>px_streams := u\<rparr>)"
      "table_wf u" "lru_part (AList.delete k t) u" "length u = min (length (AList.delete k t)) b"
      using less.hyps[of "AList.delete k t"] table_wf_delete[OF less.prems, of k] by auto
    have "evict_while busy rng now (p\<lparr>px_streams := t\<rparr>) = Some (p\<lparr>px_streams := u\<rparr>)"
      using True u(1) k(2) by (subst evict_while.simps) (simp add: busy)
    moreover have "lru_part t u" using lru_part_delete[OF k(1) k(3) u(3)] .
    moreover have "length u = min (length t) b" using u(4) len True by linarith
    ultimately show ?thesis using u(2) by blast
  next
    case False
    then have "evict_while busy rng now (p\<lparr>px_streams := t\<rparr>) = Some (p\<lparr>px_streams := t\<rparr>)"
      by (subst evict_while.simps) (simp add: busy)
    then show ?thesis using less.prems False by (intro exI[of _ t]) auto
  qed
qed

lemma at_cap_bound: "0 < streamMax p \<Longrightarrow> at_cap (p\<lparr>px_streams := t\<rparr>) \<longleftrightarrow> nat (streamMax p) - 1 < length t"
  by (auto simp: at_cap_def)

lemma over_cap_bound: "0 < streamMax p \<Longrightarrow> over_cap (p\<lparr>px_streams := t\<rparr>) \<longleftrightarrow> nat (streamMax p) < length t"
  by (auto simp: over_cap_def)

lemma evict_at_cap:
  assumes "rng_ok rng" "0 < streamMax p" "table_wf (px_streams p)"
  obtains u where "evict_while at_cap rng now p = Some (p\<lparr>px_streams := u\<rparr>)" "table_wf u"
    "lru_part (px_streams p) u" "length u = min (length (px_streams p)) (nat (streamMax p) - 1)"
  using evict_while_ends[OF assms(1) at_cap_bound[OF assms(2)] assms(3), of now] by auto

lemma evict_over_cap:
  assumes "rng_ok rng" "0 < streamMax p" "table_wf t"
  obtains u where "evict_while over_cap rng now (p\<lparr>px_streams := t\<rparr>) = Some (p\<lparr>px_streams := u\<rparr>)"
    "table_wf u" "lru_part t u" "length u = min (length t) (nat (streamMax p))"
  using evict_while_ends[OF assms(1) over_cap_bound[OF assms(2)] assms(3), of now] by auto

section \<open>The operations on the table\<close>

text \<open>The cap and the gauge agree with the table.\<close>

definition streams_ok :: "proxy \<Rightarrow> bool" where
  "streams_ok p \<longleftrightarrow> table_wf (px_streams p) \<and> 0 < streamMax p
     \<and> int (length (px_streams p)) \<le> streamMax p \<and> HostsCur (px_stats p) = int (length (px_streams p))"

text \<open>The state outside the table and its gauge.\<close>

definition same_rest :: "proxy \<Rightarrow> proxy \<Rightarrow> bool" where
  "same_rest p q \<longleftrightarrow> q = p\<lparr>px_streams := px_streams q,
     px_stats := (px_stats p)\<lparr>HostsCur := HostsCur (px_stats q)\<rparr>\<rparr>"

lemma same_rest_keeps:
  assumes "same_rest p q"
  shows "px_cfg q = px_cfg p" "px_pool q = px_pool p" "px_hosts q = px_hosts p" "brMap q = brMap p"
    "brRing q = brRing p" "brIdx q = brIdx p" "brCap q = brCap p" "px_sessions q = px_sessions p"
proof -
  obtain t u where "q = p\<lparr>px_streams := t, px_stats := u\<rparr>" using assms unfolding same_rest_def by blast
  then show "px_cfg q = px_cfg p" "px_pool q = px_pool p" "px_hosts q = px_hosts p" "brMap q = brMap p"
    "brRing q = brRing p" "brIdx q = brIdx p" "brCap q = brCap p" "px_sessions q = px_sessions p"
    by simp_all
qed

lemma stream_at_effect:
  assumes "rng_ok rng" "streams_ok p" "key \<noteq> ''''"
  obtains q where "stream_at rng now key fresh p = Some q" "streams_ok q" "same_rest p q"
    "map_of (px_streams q) key = Some \<lparr>e_stream = (case map_of (px_streams p) key of
        Some e \<Rightarrow> e_stream e | None \<Rightarrow> fresh), e_seen = now\<rparr>"
    "lru_part (AList.delete key (px_streams p)) (AList.delete key (px_streams q))"
    "length (px_streams q) = (if map_of (px_streams p) key \<noteq> None then length (px_streams p)
       else min (Suc (length (px_streams p))) (nat (streamMax p)))"
proof (cases "map_of (px_streams p) key")
  case (Some e)
  have wf: "table_wf (px_streams p)" using assms(2) by (simp add: streams_ok_def)
  have "key \<in> set (map fst (px_streams p))" using Some by (force dest: map_of_SomeD)
  note len = length_update_old[OF this]
  let ?q = "p\<lparr>px_streams := AList.update key (e\<lparr>e_seen := now\<rparr>) (px_streams p)\<rparr>"
  have eq: "map_of (AList.delete key (AList.update key v (px_streams p))) k
      = map_of (AList.delete key (px_streams p)) k" for v k
    by (simp add: map_of_delete update_conv')
  have "lru_part (AList.delete key (px_streams p)) (AList.delete key (px_streams ?q))"
    unfolding lru_part_def by (simp add: eq) (auto simp: map_of_delete)
  then show ?thesis
    using Some len table_wf_update[OF wf assms(3)] assms(2)
    by (intro that[of ?q]) (auto simp: stream_at_def streams_ok_def same_rest_def update_conv')
next
  case None
  have wf: "table_wf (px_streams p)" "0 < streamMax p" using assms(2) by (simp_all add: streams_ok_def)
  obtain u where u: "evict_while at_cap rng now p = Some (p\<lparr>px_streams := u\<rparr>)" "table_wf u"
    "lru_part (px_streams p) u" "length u = min (length (px_streams p)) (nat (streamMax p) - 1)"
    by (rule evict_at_cap[OF assms(1) wf(2,1)])
  have "map_of u key \<in> {None, map_of (px_streams p) key}" using u(3) by (simp add: lru_part_def)
  then have uk: "map_of u key = None" using None by simp
  then have "key \<notin> set (map fst u)" by (simp add: map_of_eq_None_iff)
  note len = length_update_new[OF this]
  let ?q = "store_hosts_cur
      (p\<lparr>px_streams := AList.update key \<lparr>e_stream = fresh, e_seen = now\<rparr> u\<rparr>)"
  have d: "map_of (AList.delete key (px_streams p)) k = map_of (px_streams p) k"
    "map_of (AList.delete key (px_streams ?q)) k = map_of u k" for k
    using None uk by (auto simp: map_of_delete update_conv' store_hosts_cur_def)
  have "lru_part (AList.delete key (px_streams p)) (AList.delete key (px_streams ?q))"
    using u(3) unfolding lru_part_def d .
  moreover have "streams_ok ?q"
    using table_wf_update[OF u(2) assms(3)] len u(4) wf
    by (auto simp: streams_ok_def store_hosts_cur_def)
  ultimately show ?thesis using None u(1,4) len wf(2)
    by (intro that[of ?q]) (auto simp: stream_at_def same_rest_def update_conv' store_hosts_cur_def)
qed

definition idle :: "(string \<Rightarrow> int) \<Rightarrow> string \<times> stream_entry \<Rightarrow> bool" where
  "idle now ke \<longleftrightarrow> now (fst ke) - e_seen (snd ke) > hostIdleTTL"

lemma map_of_filter_keys:
  "distinct (map fst t) \<Longrightarrow> map_of (filter P t) k
     = (case map_of t k of None \<Rightarrow> None | Some e \<Rightarrow> if P (k, e) then Some e else None)"
  by (induction t) (auto simp: map_of_eq_None_iff image_iff split: option.splits)

lemma SweepStreams_effect:
  assumes "rng_ok rng" "table_wf (px_streams p)" "0 < streamMax p"
  obtains q where "SweepStreams rng now p = Some q" "streams_ok q" "same_rest p q"
    "lru_part (filter (\<lambda>ke. \<not> idle now ke) (px_streams p)) (px_streams q)"
    "length (px_streams q) = min (length (filter (\<lambda>ke. \<not> idle now ke) (px_streams p))) (nat (streamMax p))"
proof -
  let ?t = "filter (\<lambda>ke. \<not> idle now ke) (px_streams p)"
  have t: "?t = filter (\<lambda>(k, e). \<not> now k - e_seen e > hostIdleTTL) (px_streams p)"
    by (rule filter_cong) (auto simp: idle_def)
  obtain u where u: "evict_while over_cap rng 0 (p\<lparr>px_streams := ?t\<rparr>) = Some (p\<lparr>px_streams := u\<rparr>)"
    "table_wf u" "lru_part ?t u" "length u = min (length ?t) (nat (streamMax p))"
    by (rule evict_over_cap[OF assms(1,3) table_wf_filter[OF assms(2)]])
  show ?thesis
  proof (rule that[of "store_hosts_cur (p\<lparr>px_streams := u\<rparr>)"])
    show "SweepStreams rng now p = Some (store_hosts_cur (p\<lparr>px_streams := u\<rparr>))"
      using u(1) unfolding SweepStreams_def t by simp
    show "streams_ok (store_hosts_cur (p\<lparr>px_streams := u\<rparr>))"
      using u(2,4) assms(3) by (auto simp: streams_ok_def store_hosts_cur_def)
    show "same_rest p (store_hosts_cur (p\<lparr>px_streams := u\<rparr>))"
      by (simp add: same_rest_def store_hosts_cur_def)
    show "lru_part ?t (px_streams (store_hosts_cur (p\<lparr>px_streams := u\<rparr>)))"
      using u(3) by (simp add: store_hosts_cur_def)
    show "length (px_streams (store_hosts_cur (p\<lparr>px_streams := u\<rparr>))) = min (length ?t) (nat (streamMax p))"
      using u(4) by (simp add: store_hosts_cur_def)
  qed
qed

section \<open>The table as an expiring store\<close>

definition stream_deadline :: "proxy \<Rightarrow> string \<Rightarrow> int option" where
  "stream_deadline p k = map_option (\<lambda>e. e_seen e + hostIdleTTL) (map_of (px_streams p) k)"

definition use_stream :: "(table \<Rightarrow> table) \<Rightarrow> stream \<Rightarrow> string \<Rightarrow> int \<Rightarrow> proxy \<Rightarrow> proxy" where
  "use_stream rng fresh k now p = (case stream_at rng now k fresh p of Some q \<Rightarrow> q | None \<Rightarrow> p)"

definition sweep_streams_at :: "(table \<Rightarrow> table) \<Rightarrow> int \<Rightarrow> proxy \<Rightarrow> proxy" where
  "sweep_streams_at rng now p = (case SweepStreams rng (\<lambda>_. now) p of Some q \<Rightarrow> q | None \<Rightarrow> p)"

lemma use_stream_effect:
  assumes "rng_ok rng" "streams_ok p" "k \<noteq> ''''"
  shows "streams_ok (use_stream rng fresh k now p)"
    and "stream_deadline (use_stream rng fresh k now p) k = Some (now + hostIdleTTL)"
    and "j \<noteq> k \<Longrightarrow> stream_deadline (use_stream rng fresh k now p) j \<in> {None, stream_deadline p j}"
proof -
  obtain q where q: "stream_at rng now k fresh p = Some q" "streams_ok q"
    "map_of (px_streams q) k = Some \<lparr>e_stream = (case map_of (px_streams p) k of
        Some e \<Rightarrow> e_stream e | None \<Rightarrow> fresh), e_seen = now\<rparr>"
    "lru_part (AList.delete k (px_streams p)) (AList.delete k (px_streams q))"
    by (rule stream_at_effect[OF assms, of now fresh])
  have "map_of (AList.delete k (px_streams q)) j \<in> {None, map_of (AList.delete k (px_streams p)) j}" for j
    using q(4) by (simp add: lru_part_def)
  then have "j \<noteq> k \<Longrightarrow> map_of (px_streams q) j \<in> {None, map_of (px_streams p) j}" for j
    by (metis map_of_delete)
  then have "j \<noteq> k \<Longrightarrow> stream_deadline q j \<in> {None, stream_deadline p j}"
    by (fastforce simp: stream_deadline_def)
  then show "streams_ok (use_stream rng fresh k now p)"
    "stream_deadline (use_stream rng fresh k now p) k = Some (now + hostIdleTTL)"
    "j \<noteq> k \<Longrightarrow> stream_deadline (use_stream rng fresh k now p) j \<in> {None, stream_deadline p j}"
    using q by (simp_all add: use_stream_def stream_deadline_def)
qed

lemma sweep_streams_effect:
  assumes "rng_ok rng" "streams_ok p"
  shows "streams_ok (sweep_streams_at rng now p)"
    and "stream_deadline (sweep_streams_at rng now p) k
      = (case stream_deadline p k of None \<Rightarrow> None | Some d \<Rightarrow> if now > d then None else Some d)"
proof -
  have wf: "table_wf (px_streams p)" "0 < streamMax p" "int (length (px_streams p)) \<le> streamMax p"
    using assms(2) by (simp_all add: streams_ok_def)
  let ?t = "filter (\<lambda>ke. \<not> idle (\<lambda>_. now) ke) (px_streams p)"
  obtain q where q: "SweepStreams rng (\<lambda>_. now) p = Some q" "streams_ok q"
    "lru_part ?t (px_streams q)" "length (px_streams q) = min (length ?t) (nat (streamMax p))"
    by (rule SweepStreams_effect[OF assms(1) wf(1,2), of "\<lambda>_. now"])
  have "length ?t \<le> length (px_streams p)" by (rule length_filter_le)
  then have len: "length (px_streams q) = length ?t" using q(4) wf(3) by linarith
  have keys: "distinct (map fst (px_streams q))" "distinct (map fst ?t)"
    using q(2) table_wf_filter[OF wf(1)] by (simp_all add: streams_ok_def table_wf_def)
  have "map_of (px_streams q) j \<in> {None, map_of ?t j}" for j using q(3) by (simp add: lru_part_def)
  then have "set (px_streams q) \<subseteq> set ?t"
    using keys by (metis (no_types, lifting) insertE map_of_SomeD map_of_eq_Some_iff option.distinct(1)
        singletonD subrelI)
  moreover have "card (set xs) = length xs" if "distinct (map fst xs)" for xs :: table
    using that distinct_card by (auto simp: distinct_map)
  then have "card (set (px_streams q)) = card (set ?t)" using keys len by (simp del: set_filter)
  ultimately have "set (px_streams q) = set ?t" by (intro card_subset_eq) auto
  then have eq: "map_of (px_streams q) k = map_of ?t k" by (metis keys map_of_inject_set)
  show "streams_ok (sweep_streams_at rng now p)" using q by (simp add: sweep_streams_at_def)
  have d: "distinct (map fst (px_streams p))" using wf(1) by (simp add: table_wf_def)
  show "stream_deadline (sweep_streams_at rng now p) k
      = (case stream_deadline p k of None \<Rightarrow> None | Some d \<Rightarrow> if now > d then None else Some d)"
    using q(1) eq by (auto simp: sweep_streams_at_def stream_deadline_def map_of_filter_keys[OF d] idle_def
        split: option.splits)
qed

interpretation cycles: expiring stream_deadline "use_stream rng fresh" "sweep_streams_at rng" hostIdleTTL
    "\<lambda>p. rng_ok rng \<and> streams_ok p" "\<lambda>k. k \<noteq> ''''"
proof unfold_locales
  fix p :: proxy and j k :: string and t d :: int
  assume p: "rng_ok rng \<and> streams_ok p"
  note sweep = sweep_streams_effect(2)[OF conjunct1[OF p] conjunct2[OF p], of t k]
  show "rng_ok rng \<and> streams_ok (sweep_streams_at rng t p)"
    using p sweep_streams_effect(1) by blast
  show "stream_deadline (sweep_streams_at rng t p) k = None" if "stream_deadline p k = Some d" "d < t"
    using that sweep by simp
  show "stream_deadline p k = Some d" if "stream_deadline (sweep_streams_at rng t p) k = Some d"
    using that sweep by (simp split: option.splits if_splits)
  assume k: "k \<noteq> []"
  show "rng_ok rng \<and> streams_ok (use_stream rng fresh k t p)"
    using p k use_stream_effect(1) by blast
  show "stream_deadline (use_stream rng fresh k t p) k = Some (t + hostIdleTTL)"
    using p k use_stream_effect(2) by blast
  show "stream_deadline (use_stream rng fresh k t p) j \<in> {None, stream_deadline p j}" if "j \<noteq> k"
    using p k that use_stream_effect(3) by blast
qed

definition stream_run :: "(table \<Rightarrow> table) \<Rightarrow> stream \<Rightarrow> string event list \<Rightarrow> proxy \<Rightarrow> proxy" where
  "stream_run rng fresh es p =
     fold (\<lambda>e p. case e of Touch k t \<Rightarrow> use_stream rng fresh k t p | Sweep t \<Rightarrow> sweep_streams_at rng t p) es p"

lemma cycles_run: "cycles.run rng fresh es p = stream_run rng fresh es p"
proof -
  have "cycles.apply_event rng fresh e p
    = (case e of Touch k t \<Rightarrow> use_stream rng fresh k t p | Sweep t \<Rightarrow> sweep_streams_at rng t p)" for e p
    by (cases e) simp_all
  then have "cycles.apply_event rng fresh
    = (\<lambda>e p. case e of Touch k t \<Rightarrow> use_stream rng fresh k t p | Sweep t \<Rightarrow> sweep_streams_at rng t p)"
    by (intro ext)
  then show ?thesis by (simp add: cycles.run_def stream_run_def)
qed

section \<open>Properties\<close>

text \<open>C14. Looking up a rotation cycle always returns (the eviction loop ends), and keeps the table
  within its cap: the cycle of the key is the one stored before, or the fresh one, seen now; every
  other entry is kept unchanged, except that a full table drops entries seen no later than any
  entry that stays; nothing else of the proxy changes but the gauge, which is the table's size.\<close>

theorem streamLocked_lru:
  assumes "rng_ok rng" "streams_ok p"
  shows "\<exists>q. streamLocked rng now acct dest pl suffix p = Some (stream_key acct dest suffix, q)
    \<and> streams_ok q \<and> same_rest p q
    \<and> map_of (px_streams q) (stream_key acct dest suffix) = Some \<lparr>
        e_stream = (case map_of (px_streams p) (stream_key acct dest suffix) of
          Some e \<Rightarrow> e_stream e | None \<Rightarrow> NewStream pl (pa_domain acct) (tweakHost dest)), e_seen = now\<rparr>
    \<and> lru_part (AList.delete (stream_key acct dest suffix) (px_streams p))
        (AList.delete (stream_key acct dest suffix) (px_streams q))
    \<and> length (px_streams q) = (if map_of (px_streams p) (stream_key acct dest suffix) \<noteq> None
        then length (px_streams p) else min (Suc (length (px_streams p))) (nat (streamMax p)))"
proof -
  let ?k = "stream_key acct dest suffix"
  have "?k \<noteq> ''''" by (simp add: stream_key_def)
  then obtain q where q: "stream_at rng now ?k (NewStream pl (pa_domain acct) (tweakHost dest)) p = Some q"
    and rest: "streams_ok q" "same_rest p q"
      "map_of (px_streams q) ?k = Some \<lparr>e_stream = (case map_of (px_streams p) ?k of
        Some e \<Rightarrow> e_stream e | None \<Rightarrow> NewStream pl (pa_domain acct) (tweakHost dest)), e_seen = now\<rparr>"
      "lru_part (AList.delete ?k (px_streams p)) (AList.delete ?k (px_streams q))"
      "length (px_streams q) = (if map_of (px_streams p) ?k \<noteq> None then length (px_streams p)
         else min (Suc (length (px_streams p))) (nat (streamMax p)))"
    by (rule stream_at_effect[OF assms])
  have "streamLocked rng now acct dest pl suffix p = Some (?k, q)"
    using q by (simp add: streamLocked_def Let_def)
  with rest show ?thesis by blast
qed

lemma streams_ok_sample [simp]: "streams_ok (sample_proxy cap)"
  by (simp add: streams_ok_def sample_proxy_def table_wf_def New_stats_def)

lemma rng_ok_id [simp]: "rng_ok id" "rng_ok rev"
  by (simp_all add: rng_ok_def)

definition sample_acct :: paccount where
  "sample_acct = \<lparr>a_name = ''a'', a_username = ''u'', a_password = ''p'', a_start = 0, a_size = 0, pa_domain = 3\<rparr>"

definition sample_pool :: pool where
  "sample_pool = \<lparr>p_prefix = 0x20 # replicate 15 0, p_bits = 64, p_seed = 5\<rparr>"

theorem streamLocked_lru_witness:
  "\<exists>q. streamLocked rev 7 sample_acct ''example.org'' sample_pool '''' (sample_proxy 3)
       = Some (stream_key sample_acct ''example.org'' '''', q) \<and> length (px_streams q) = 1"
  using streamLocked_lru[OF rng_ok_id(2) streams_ok_sample[of 3], of 7 sample_acct "''example.org''" sample_pool "''''"]
  by (auto simp: sample_proxy_def)

text \<open>\<open>SweepStreams\<close> always returns; from a table within its cap it removes exactly the cycles idle
  longer than an hour and sets the gauge to the number of cycles left.\<close>

theorem SweepStreams_exact:
  assumes "rng_ok rng" "streams_ok p"
  shows "\<exists>q. SweepStreams rng (\<lambda>_. now) p = Some q \<and> streams_ok q \<and> same_rest p q
    \<and> map_of (px_streams q) k = (case map_of (px_streams p) k of None \<Rightarrow> None
        | Some e \<Rightarrow> if now - e_seen e > hostIdleTTL then None else Some e)"
proof -
  have wf: "table_wf (px_streams p)" "0 < streamMax p" using assms(2) by (simp_all add: streams_ok_def)
  obtain q where q: "SweepStreams rng (\<lambda>_. now) p = Some q" "streams_ok q" "same_rest p q"
    "lru_part (filter (\<lambda>ke. \<not> idle (\<lambda>_. now) ke) (px_streams p)) (px_streams q)"
    by (rule SweepStreams_effect[OF assms(1) wf, of "\<lambda>_. now"])
  have d: "distinct (map fst (px_streams p))" using wf(1) by (simp add: table_wf_def)
  have "map_of (px_streams q) k \<in> {None, map_of (filter (\<lambda>ke. \<not> idle (\<lambda>_. now) ke) (px_streams p)) k}"
    using q(4) by (simp add: lru_part_def)
  moreover have "stream_deadline q k
      = (case stream_deadline p k of None \<Rightarrow> None | Some d \<Rightarrow> if now > d then None else Some d)"
    using sweep_streams_effect(2)[OF assms, of now k] q(1) by (simp add: sweep_streams_at_def)
  ultimately show ?thesis using q(1-3)
    by (intro exI[of _ q])
      (auto simp: map_of_filter_keys[OF d] idle_def stream_deadline_def split: option.splits if_splits)
qed

theorem SweepStreams_exact_witness:
  "\<exists>q. SweepStreams rev (\<lambda>_. 5) (sample_proxy 3) = Some q \<and> streams_ok q"
  using SweepStreams_exact[OF rng_ok_id(2) streams_ok_sample[of 3], of 5] by blast

text \<open>Starting from an empty table, after any sequence of look-ups and sweeps that ends with a sweep
  every cycle left was last looked up at the time its entry says, at most an hour before the sweep,
  and the table is within its cap.\<close>

theorem no_stale_cycles:
  assumes "rng_ok rng" "streams_ok p" "px_streams p = []"
    and "list_all (\<lambda>e. case e of Touch k t \<Rightarrow> k \<noteq> '''' | Sweep t \<Rightarrow> True) es"
    and "map_of (px_streams (sweep_streams_at rng now (stream_run rng fresh es p))) k = Some e"
  shows "Touch k (e_seen e) \<in> set es \<and> now - e_seen e \<le> hostIdleTTL
    \<and> int (length (px_streams (sweep_streams_at rng now (stream_run rng fresh es p)))) \<le> streamMax
        (sweep_streams_at rng now (stream_run rng fresh es p))"
proof -
  have inv: "rng_ok rng \<and> streams_ok p" using assms by blast
  have "cycles.ok_event = (\<lambda>e. case e of Touch k t \<Rightarrow> k \<noteq> '''' | Sweep t \<Rightarrow> True)"
    by (rule ext) (simp split: event.splits)
  then have ev: "list_all cycles.ok_event es" using assms(4) by simp
  have i: "rng_ok rng \<and> streams_ok (sweep_streams_at rng now (stream_run rng fresh es p))"
    using cycles.inv_sweep[OF cycles.inv_run[OF inv ev]] by (simp add: cycles_run)
  then have k: "k \<noteq> ''''" using assms(5) by (force simp: streams_ok_def table_wf_def dest: map_of_SomeD)
  have "stream_deadline (sweep_streams_at rng now (cycles.run rng fresh es p)) k = Some (e_seen e + hostIdleTTL)"
    using assms(5) by (simp add: stream_deadline_def cycles_run)
  moreover have "stream_deadline p k = None" by (simp add: stream_deadline_def assms(3))
  ultimately show ?thesis using cycles.fresh_after_sweep[OF inv ev k] i by (force simp: streams_ok_def)
qed

theorem no_stale_cycles_witness:
  "\<exists>e. map_of (px_streams (sweep_streams_at rev 10 (stream_run rev (NewStream sample_pool 1 2) [Touch ''k'' 5] (sample_proxy 3)))) ''k''
       = Some e \<and> Touch ''k'' (e_seen e) \<in> set [Touch ''k'' 5] \<and> 10 - e_seen e \<le> hostIdleTTL"
proof -
  let ?f = "NewStream sample_pool 1 2" and ?p = "sample_proxy 3"
  have r: "stream_run rev ?f [Touch ''k'' 5] ?p = use_stream rev ?f ''k'' 5 ?p"
    by (simp add: stream_run_def)
  have ok: "streams_ok (use_stream rev ?f ''k'' 5 ?p)"
    by (rule use_stream_effect(1)) (simp_all del: rng_ok_id add: rng_ok_id(2))
  have "stream_deadline (use_stream rev ?f ''k'' 5 ?p) ''k'' = Some (5 + hostIdleTTL)"
    by (rule use_stream_effect(2)) (simp_all del: rng_ok_id add: rng_ok_id(2))
  moreover have "10 \<le> 5 + hostIdleTTL" by (simp add: hostIdleTTL_def seconds_def)
  ultimately have "stream_deadline (sweep_streams_at rev 10 (use_stream rev ?f ''k'' 5 ?p)) ''k'' \<noteq> None"
    using sweep_streams_effect(2)[OF rng_ok_id(2) ok, of 10 "''k''"] by simp
  then obtain e where e: "map_of (px_streams (sweep_streams_at rev 10 (stream_run rev ?f [Touch ''k'' 5] ?p))) ''k'' = Some e"
    unfolding r by (auto simp: stream_deadline_def)
  have "px_streams ?p = []" by (simp add: sample_proxy_def)
  from no_stale_cycles[OF rng_ok_id(2) streams_ok_sample this _ e] e show ?thesis by simp
qed

end
