(* ===== verification/Fresh.thy ===== *)
theory Fresh
  imports Stream_Table "HOL-Library.Multiset"
begin

text \<open>
  \<open>internal/proxy/proxy.go\<close>, lines 246-314: the choice of a fresh source address.  \<open>env\<close> is what the
  operating system answers about interfaces and routes, \<open>rng\<close> the order of \<open>range\<close> over the cycle
  table, \<open>now\<close> a clock reading.  The stream the code points to is the table's entry, so a draw
  updates the entry.  None stands for an eviction loop that does not end.
\<close>

section \<open>Operations\<close>

definition livePrefix :: "netenv \<Rightarrow> proxy \<Rightarrow> ip" where
  "livePrefix env p =
     (let iface = SourceIface (px_cfg p);
          iface = (if iface = '''' then DefaultRouteIface env else iface)
      in if iface = '''' then []
         else let x = GlobalIP env iface
              in if x = [] then [] else PrefixFromAddr x (PoolBits (px_cfg p)))"

definition poolForPick :: "netenv \<Rightarrow> proxy \<Rightarrow> pool option \<times> string" where
  "poolForPick env p =
     (if \<not> AutoPool (px_cfg p) then (px_pool p, '''')
      else let pre = livePrefix env p
           in if pre = [] then (None, '''')
              else (Some (NewWithSeed (PoolBits (px_cfg p)) pre (px_seed p)), [CHR 0x00] @ IP_String pre))"

text \<open>The closure of the sliced branch, and the draw from the cycle of a key.\<close>

definition gen :: "pool \<Rightarrow> paccount \<Rightarrow> string \<Rightarrow> picker" where
  "gen pl acct destHost p =
     (let n = hostPick p + 1
      in (IPForAcct pl n (pa_domain acct XOR tweakHost destHost) (a_start acct) (a_size acct),
          p\<lparr>hostPick := n\<rparr>))"

definition draw :: "string \<Rightarrow> picker" where
  "draw key p =
     (case map_of (px_streams p) key of
        None \<Rightarrow> ([], p)
      | Some e \<Rightarrow>
          (let (x, sk, s) = Next (e_stream e)
           in (x, p\<lparr>px_streams := AList.update key (e\<lparr>e_stream := s\<rparr>) (px_streams p),
                    px_stats := (px_stats p)\<lparr>CycleSkips := CycleSkips (px_stats p) + of_nat sk\<rparr>\<rparr>)))"

definition freshIP ::
  "netenv \<Rightarrow> (table \<Rightarrow> table) \<Rightarrow> int \<Rightarrow> paccount \<Rightarrow> string \<Rightarrow> proxy \<Rightarrow> (ip \<times> proxy) option" where
  "freshIP env rng now acct destHost p =
     (if length (px_hosts p) > 0
      then (let n = hostPick p + 1
            in Some (px_hosts p ! unat (n mod of_nat (length (px_hosts p))), p\<lparr>hostPick := n\<rparr>))
      else case poolForPick env p of
        (None, _) \<Rightarrow> Some ([], p)
      | (Some pl, suffix) \<Rightarrow>
          if a_size acct > 0
          then (let (x, p) = gen pl acct destHost p in Some (backstopGuard (gen pl acct destHost) x p))
          else (case streamLocked rng now acct destHost pl suffix p of
                  None \<Rightarrow> None
                | Some (key, p) \<Rightarrow>
                    (let (x, p) = draw key p; (x, p) = backstopLocked (draw key) x p
                     in Some (x, p\<lparr>px_stats := (px_stats p)\<lparr>PicksTotal := PicksTotal (px_stats p) + 1\<rparr>\<rparr>))))"

section \<open>The closures meet the contract\<close>

lemma record_recent_simps [simp]:
  "px_streams (record_recent k p) = px_streams p" "px_hosts (record_recent k p) = px_hosts p"
  "px_cfg (record_recent k p) = px_cfg p" "px_pool (record_recent k p) = px_pool p"
  "px_stats (record_recent k p) = px_stats p" "streamMax (record_recent k p) = streamMax p"
  "px_sessions (record_recent k p) = px_sessions p" "px_seed (record_recent k p) = px_seed p"
  "px_accounts (record_recent k p) = px_accounts p" "px_claimer (record_recent k p) = px_claimer p"
  "hostPick (record_recent k p) = hostPick p"
  by (simp_all add: record_recent_def Let_def)

lemma gen_simps [simp]:
  "brMap (snd (gen pl a d p)) = brMap p" "brRing (snd (gen pl a d p)) = brRing p"
  "brIdx (snd (gen pl a d p)) = brIdx p" "brCap (snd (gen pl a d p)) = brCap p"
  "px_streams (snd (gen pl a d p)) = px_streams p"
  by (simp_all add: gen_def Let_def)

text \<open>What the keyed draws change: the counter and the ring.\<close>

definition gen_frame :: "proxy \<Rightarrow> proxy \<Rightarrow> bool" where
  "gen_frame p0 p \<longleftrightarrow>
     p\<lparr>hostPick := hostPick p0, brMap := brMap p0, brRing := brRing p0, brIdx := brIdx p0\<rparr> = p0"

lemma gen_frame_record: "gen_frame p0 p \<Longrightarrow> gen_frame p0 (record_recent k p)"
  by (cases p) (simp add: gen_frame_def record_recent_def Let_def)

interpretation keyed: pick_source "gen pl acct dest" "\<lambda>p. pool_wf pl \<and> gen_frame p0 p"
    "in_prefix (nat (p_bits pl)) (p_prefix pl)"
  by unfold_locales (auto simp: gen_def Let_def IPForAcct_prefix gen_frame_record, simp add: gen_frame_def)

text \<open>The cycle of a key belongs to a prefix.\<close>

definition cycle_of :: "string \<Rightarrow> int \<Rightarrow> byte list \<Rightarrow> proxy \<Rightarrow> bool" where
  "cycle_of key bits pre p \<longleftrightarrow>
     (case map_of (px_streams p) key of None \<Rightarrow> False
      | Some e \<Rightarrow> stream_wf (e_stream e) \<and> s_bits (e_stream e) = bits \<and> s_prefix (e_stream e) = pre)"

lemma Next_wf:
  assumes "stream_wf s" "Next s = (x, k, t)"
  shows "stream_wf t \<and> s_bits t = s_bits s \<and> s_prefix t = s_prefix s
    \<and> in_prefix (nat (s_bits s)) (s_prefix s) x"
  using Next_visit[OF assms(2)] assms(1) visit_in_prefix by (auto simp del: funpow.simps)

text \<open>What the draws from one cycle leave alone: the other cycles, and everything but the ring and
  the skip counter.\<close>

definition draw_frame :: "string \<Rightarrow> proxy \<Rightarrow> proxy \<Rightarrow> bool" where
  "draw_frame key p0 p \<longleftrightarrow>
     (\<forall>j. j \<noteq> key \<longrightarrow> map_of (px_streams p) j = map_of (px_streams p0) j)
     \<and> px_cfg p = px_cfg p0 \<and> px_pool p = px_pool p0 \<and> px_hosts p = px_hosts p0
     \<and> px_accounts p = px_accounts p0 \<and> px_claimer p = px_claimer p0 \<and> px_seed p = px_seed p0
     \<and> px_sessions p = px_sessions p0 \<and> streamMax p = streamMax p0 \<and> hostPick p = hostPick p0
     \<and> (\<exists>n. px_stats p = (px_stats p0)\<lparr>CycleSkips := n\<rparr>)"

definition drawing :: "string \<Rightarrow> int \<Rightarrow> byte list \<Rightarrow> proxy \<Rightarrow> proxy \<Rightarrow> bool" where
  "drawing key bits pre p0 p \<longleftrightarrow> cycle_of key bits pre p \<and> streams_ok p \<and> draw_frame key p0 p"

lemma draw_drawing:
  assumes "drawing key bits pre p0 p"
  shows "drawing key bits pre p0 (snd (draw key p)) \<and> in_prefix (nat bits) pre (fst (draw key p))
    \<and> brMap (snd (draw key p)) = brMap p \<and> brRing (snd (draw key p)) = brRing p
    \<and> brIdx (snd (draw key p)) = brIdx p \<and> brCap (snd (draw key p)) = brCap p"
proof -
  have c: "cycle_of key bits pre p" and st: "streams_ok p" and fr: "draw_frame key p0 p"
    using assms by (simp_all add: drawing_def)
  obtain e where e: "map_of (px_streams p) key = Some e" "stream_wf (e_stream e)"
    "s_bits (e_stream e) = bits" "s_prefix (e_stream e) = pre"
    using c by (auto simp: cycle_of_def split: option.splits)
  obtain y k t where n: "Next (e_stream e) = (y, k, t)" by (metis prod_cases3)
  let ?q = "p\<lparr>px_streams := AList.update key (e\<lparr>e_stream := t\<rparr>) (px_streams p),
      px_stats := (px_stats p)\<lparr>CycleSkips := CycleSkips (px_stats p) + of_nat k\<rparr>\<rparr>"
  have d: "draw key p = (y, ?q)" by (simp add: draw_def e(1) n)
  have "key \<in> set (map fst (px_streams p))" using e(1) by (force dest: map_of_SomeD)
  note len = length_update_old[OF this, of "e\<lparr>e_stream := t\<rparr>"]
  have "key \<noteq> ''''" using e(1) st by (force simp: streams_ok_def table_wf_def dest: map_of_SomeD)
  then have "streams_ok ?q" using st len table_wf_update by (simp add: streams_ok_def)
  moreover have "draw_frame key p0 ?q" using fr by (auto simp: draw_frame_def update_conv')
  ultimately show ?thesis
    using Next_wf[OF e(2) n] e(3,4) by (simp add: d drawing_def cycle_of_def update_conv')
qed

interpretation cycle: pick_source "draw key" "drawing key bits pre p0" "in_prefix (nat bits) pre"
proof unfold_locales
  fix p k assume "drawing key bits pre p0 p"
  then show "drawing key bits pre p0 (record_recent k p)"
    by (simp add: drawing_def cycle_of_def streams_ok_def draw_frame_def)
qed (use draw_drawing in blast)+

section \<open>Every cycle fits its pool\<close>

definition clamp_bits :: "int \<Rightarrow> int" where
  "clamp_bits b = max 0 (min 128 b)"

text \<open>In \<open>auto_pool\<close> mode the key of a cycle ends with the prefix it was made for; otherwise all cycles
  belong to the static pool.\<close>

definition fit_entry :: "proxy \<Rightarrow> string \<Rightarrow> stream \<Rightarrow> bool" where
  "fit_entry p k s \<longleftrightarrow> stream_wf s
     \<and> (if AutoPool (px_cfg p)
        then s_bits s = clamp_bits (PoolBits (px_cfg p)) \<and> HasSuffix k (CHR 0x00 # IP_String (s_prefix s))
        else case px_pool p of None \<Rightarrow> False | Some pl \<Rightarrow> s_bits s = p_bits pl \<and> s_prefix s = p_prefix pl)"

definition cycles_fit :: "proxy \<Rightarrow> bool" where
  "cycles_fit p \<longleftrightarrow> streams_ok p \<and> list_all (\<lambda>(k, e). fit_entry p k (e_stream e)) (px_streams p)
     \<and> (case px_pool p of None \<Rightarrow> True | Some pl \<Rightarrow> pool_wf pl)"

lemma cycles_fit_iff:
  "cycles_fit p \<longleftrightarrow> streams_ok p \<and> (\<forall>k e. map_of (px_streams p) k = Some e \<longrightarrow> fit_entry p k (e_stream e))
     \<and> (case px_pool p of None \<Rightarrow> True | Some pl \<Rightarrow> pool_wf pl)"
proof -
  have "list_all (\<lambda>(k, e). fit_entry p k (e_stream e)) (px_streams p)
      \<longleftrightarrow> (\<forall>k e. map_of (px_streams p) k = Some e \<longrightarrow> fit_entry p k (e_stream e))" if "streams_ok p"
    using that by (auto simp: streams_ok_def table_wf_def list_all_iff)
  then show ?thesis unfolding cycles_fit_def by blast
qed

lemma IP_String_no_NUL:
  assumes "length x = 16"
  shows "CHR 0x00 \<notin> set (IP_String x)"
proof -
  have d: "CHR 0x00 \<noteq> digit_char n" if "n < 16" for n
    by (rule not_sym, rule digit_char_neq) (use that in auto)
  show ?thesis
  proof (cases "To4 x = []")
    case True
    then have "IP_String x = string6 x" using assms by (auto simp: IP_String_def)
    then show ?thesis using string6_parse(3)[OF assms] d by force
  next
    case False
    then have "IP_String x = dotted (To4 x)" using assms by (auto simp: IP_String_def)
    moreover have "CHR 0x00 \<notin> set (dec (unat (b :: byte)))" for b
      by (cases rule: dec_digits[OF unat_byte_less[of b]]) (use d in auto)
    ultimately show ?thesis by (simp add: dotted_def)
  qed
qed

lemma suffix_unique:
  assumes "HasSuffix k (c # s)" "HasSuffix k (c # t)" "c \<notin> set s" "c \<notin> set t"
  shows "s = t"
proof -
  have split: "\<exists>u. k = u @ c # s'" if "HasSuffix k (c # s')" for s'
    using that by (metis HasSuffix_def append_take_drop_id)
  obtain u v where "k = u @ c # s" "k = v @ c # t" using split assms(1,2) by blast
  then have "rev s @ c # rev u = rev t @ c # rev v" by (metis append_Cons append_Nil append_assoc rev_append rev_singleton_conv rev.simps(2))
  then have "takeWhile (\<lambda>x. x \<noteq> c) (rev s @ c # rev u) = takeWhile (\<lambda>x. x \<noteq> c) (rev t @ c # rev v)" by simp
  moreover have "\<forall>x \<in> set s. x \<noteq> c" "\<forall>x \<in> set t. x \<noteq> c" using assms(3,4) by auto
  ultimately show ?thesis by (simp add: takeWhile_append)
qed

lemma HasSuffix_append [simp]: "HasSuffix (u @ s) s"
  by (simp add: HasSuffix_def)

text \<open>The live prefix is a 16-byte address.\<close>

lemma livePrefix_length: "livePrefix env p = [] \<or> length (livePrefix env p) = 16"
proof -
  have g: "GlobalIP env i = [] \<or> length (GlobalIP env i) = 16" for i
  proof -
    have "fst (fold global_step as b) = [] \<or> length (fst (fold global_step as b)) = 16"
      if "fst b = [] \<or> length (fst b) = 16" for as b
      using that
      by (induction as arbitrary: b)
        (auto simp: global_step_def To16_def v4InV6Prefix_def Let_def split: option.splits prod.splits)
    then show ?thesis by (auto simp: GlobalIP_def split: option.splits)
  qed
  have "length (PrefixFromAddr x b) = 16" if "length x = 16" for x b
    using that by (auto simp: PrefixFromAddr_def IP_Mask_def length_CIDRMask Let_def)
  then show ?thesis using g by (auto simp: livePrefix_def Let_def)
qed

lemma poolForPick_wf:
  assumes "cycles_fit p" "poolForPick env p = (Some pl, suffix)"
  shows "pool_wf pl" and "fit_entry p (stream_key acct dest suffix) (NewStream pl d t)"
    and "fit_entry p (stream_key acct dest suffix) s \<Longrightarrow> s_bits s = p_bits pl \<and> s_prefix s = p_prefix pl"
proof -
  have new: "s_bits (NewStream pl d t) = p_bits pl" "s_prefix (NewStream pl d t) = p_prefix pl"
    by (simp_all add: NewStream_def Let_def)
  have "pool_wf pl \<and> fit_entry p (stream_key acct dest suffix) (NewStream pl d t)
    \<and> (fit_entry p (stream_key acct dest suffix) s \<longrightarrow> s_bits s = p_bits pl \<and> s_prefix s = p_prefix pl)"
  proof (cases "AutoPool (px_cfg p)")
    case True
    let ?pre = "livePrefix env p"
    have pre: "length ?pre = 16" "pl = NewWithSeed (PoolBits (px_cfg p)) ?pre (px_seed p)"
      "suffix = [CHR 0x00] @ IP_String ?pre"
      using assms(2) True livePrefix_length[of env p] by (auto simp: poolForPick_def Let_def split: if_splits)
    have wf: "pool_wf pl" by (simp add: pre(2))
    have pl: "p_prefix pl = ?pre" "p_bits pl = clamp_bits (PoolBits (px_cfg p))"
      using pre by (auto simp: NewWithSeed_def Let_def To16_def clamp_bits_def)
    have key: "HasSuffix (stream_key acct dest suffix) (CHR 0x00 # IP_String ?pre)"
      using HasSuffix_append[of "a_username acct @ CHR 0x00 # dest" "CHR 0x00 # IP_String ?pre"]
      by (simp add: stream_key_def pre(3))
    have "s_prefix s = ?pre" if "fit_entry p (stream_key acct dest suffix) s"
    proof -
      have s: "HasSuffix (stream_key acct dest suffix) (CHR 0x00 # IP_String (s_prefix s))"
        "length (s_prefix s) = 16" using that True by (simp_all add: fit_entry_def stream_wf_def)
      from suffix_unique[OF s(1) key IP_String_no_NUL[OF s(2)] IP_String_no_NUL[OF pre(1)]]
      show ?thesis using iptext.enc_inj s(2) pre(1) by blast
    qed
    then show ?thesis using wf key pl True by (auto simp: fit_entry_def new)
  next
    case False
    then have "px_pool p = Some pl" using assms(2) by (simp add: poolForPick_def)
    then show ?thesis using assms(1) False by (auto simp: fit_entry_def cycles_fit_iff new)
  qed
  then show "pool_wf pl" "fit_entry p (stream_key acct dest suffix) (NewStream pl d t)"
    "fit_entry p (stream_key acct dest suffix) s \<Longrightarrow> s_bits s = p_bits pl \<and> s_prefix s = p_prefix pl"
    by blast+
qed

section \<open>A pick\<close>

lemma gen_frame_keeps:
  assumes "gen_frame p0 p"
  shows "px_streams p = px_streams p0" "px_cfg p = px_cfg p0" "px_pool p = px_pool p0" "px_hosts p = px_hosts p0"
    "px_stats p = px_stats p0" "px_sessions p = px_sessions p0" "streamMax p = streamMax p0"
proof -
  obtain n m r i where "p0 = p\<lparr>hostPick := n, brMap := m, brRing := r, brIdx := i\<rparr>"
    using assms unfolding gen_frame_def by metis
  then show "px_streams p = px_streams p0" "px_cfg p = px_cfg p0" "px_pool p = px_pool p0" "px_hosts p = px_hosts p0"
    "px_stats p = px_stats p0" "px_sessions p = px_sessions p0" "streamMax p = streamMax p0"
    by simp_all
qed

text \<open>A pick from a pool returns, in the pool's prefix, and keeps every invariant.\<close>

definition proxy_ok :: "proxy \<Rightarrow> bool" where
  "proxy_ok p \<longleftrightarrow> cycles_fit p \<and> ring_wf p"

lemma backstopGuard_eq: "backstopGuard nxt x p = backstopLocked nxt x p"
  by (simp add: backstopGuard_def backstopLocked_def)

lemma fit_entry_same:
  "fit_entry p k s \<Longrightarrow> stream_wf t \<Longrightarrow> s_bits t = s_bits s \<Longrightarrow> s_prefix t = s_prefix s \<Longrightarrow> fit_entry p k t"
  by (auto simp: fit_entry_def split: option.splits if_splits)

lemma freshIP_keyed:
  assumes "proxy_ok p" "px_hosts p = []" "poolForPick env p = (Some pl, suffix)" "0 < a_size acct"
  obtains x q where "freshIP env rng now acct dest p = Some (x, q)" "proxy_ok q"
    "in_prefix (nat (p_bits pl)) (p_prefix pl) x" "px_streams q = px_streams p"
proof -
  have wf: "pool_wf pl" using poolForPick_wf(1)[OF _ assms(3)] assms(1) by (simp add: proxy_ok_def)
  obtain x1 p1 where g: "gen pl acct dest p = (x1, p1)" by fastforce
  obtain x q where b: "backstopLocked (gen pl acct dest) x1 p1 = (x, q)" by fastforce
  have p1: "pool_wf pl \<and> gen_frame p p1" "in_prefix (nat (p_bits pl)) (p_prefix pl) x1" "ring_wf p1"
    using keyed.next_inv[of pl p p acct dest] keyed.next_ok[of pl p p acct dest]
      keyed.next_ring[of pl p p acct dest] wf g assms(1)
    by (auto simp: gen_frame_def proxy_ok_def ring_wf_def)
  have q: "gen_frame p q" "in_prefix (nat (p_bits pl)) (p_prefix pl) x" "ring_wf q"
    using keyed.backstop_props[OF p1(1,2) b] keyed.backstop_ring[OF p1 b] by simp_all
  note keep = gen_frame_keeps[OF q(1)]
  have "fit_entry q k s = fit_entry p k s" for k s by (simp add: fit_entry_def keep)
  then have "proxy_ok q" using assms(1) q(3) keep
    by (simp add: proxy_ok_def cycles_fit_def streams_ok_def)
  moreover have "freshIP env rng now acct dest p = Some (x, q)"
    using assms(2-4) g b by (simp add: freshIP_def backstopGuard_eq)
  ultimately show ?thesis using q(2) keep(1) that by blast
qed

lemma freshIP_cycle:
  assumes "proxy_ok p" "rng_ok rng" "px_hosts p = []" "poolForPick env p = (Some pl, suffix)" "a_size acct = 0"
  obtains p1 x1 p2 x q where "streamLocked rng now acct dest pl suffix p = Some (stream_key acct dest suffix, p1)"
    "draw (stream_key acct dest suffix) p1 = (x1, p2)"
    "backstopLocked (draw (stream_key acct dest suffix)) x1 p2 = (x, q)"
    "freshIP env rng now acct dest p
      = Some (x, q\<lparr>px_stats := (px_stats q)\<lparr>PicksTotal := PicksTotal (px_stats q) + 1\<rparr>\<rparr>)"
    "drawing (stream_key acct dest suffix) (p_bits pl) (p_prefix pl) p1 p2"
    "drawing (stream_key acct dest suffix) (p_bits pl) (p_prefix pl) p1 p1"
    "in_prefix (nat (p_bits pl)) (p_prefix pl) x" "ring_wf p2"
    "proxy_ok (q\<lparr>px_stats := (px_stats q)\<lparr>PicksTotal := PicksTotal (px_stats q) + 1\<rparr>\<rparr>)"
proof -
  let ?k = "stream_key acct dest suffix" and ?f = "NewStream pl (pa_domain acct) (tweakHost dest)"
  have fit: "cycles_fit p" and st: "streams_ok p" and ring: "ring_wf p"
    using assms(1) by (simp_all add: proxy_ok_def cycles_fit_def)
  note pwf = poolForPick_wf[OF fit assms(4)]
  have "?k \<noteq> ''''" by (simp add: stream_key_def)
  then obtain p1 where p1: "stream_at rng now ?k ?f p = Some p1" "streams_ok p1" "same_rest p p1"
    "map_of (px_streams p1) ?k = Some \<lparr>e_stream = (case map_of (px_streams p) ?k of
        Some e \<Rightarrow> e_stream e | None \<Rightarrow> ?f), e_seen = now\<rparr>"
    "lru_part (AList.delete ?k (px_streams p)) (AList.delete ?k (px_streams p1))"
    by (rule stream_at_effect[OF assms(2) st])
  let ?s = "case map_of (px_streams p) ?k of Some e \<Rightarrow> e_stream e | None \<Rightarrow> ?f"
  have fs: "fit_entry p ?k ?s"
    using fit pwf(2)[of acct dest "pa_domain acct" "tweakHost dest"]
    by (auto simp: cycles_fit_iff split: option.splits)
  note rest = same_rest_keeps[OF p1(3)]
  have c1: "cycle_of ?k (p_bits pl) (p_prefix pl) p1"
    using p1(4) pwf(3)[OF fs] fs by (simp add: cycle_of_def fit_entry_def)
  then have d1: "drawing ?k (p_bits pl) (p_prefix pl) p1 p1"
    using p1(2) by (auto simp: drawing_def draw_frame_def intro!: exI[of _ "CycleSkips (px_stats p1)"])
  obtain x1 p2 where dr: "draw ?k p1 = (x1, p2)" by fastforce
  have d2: "drawing ?k (p_bits pl) (p_prefix pl) p1 p2" "in_prefix (nat (p_bits pl)) (p_prefix pl) x1"
    and r2: "ring_wf p2"
    using draw_drawing[OF d1] dr ring rest by (simp_all add: ring_wf_def)
  obtain x q where b: "backstopLocked (draw ?k) x1 p2 = (x, q)" by fastforce
  have dq: "drawing ?k (p_bits pl) (p_prefix pl) p1 q" "in_prefix (nat (p_bits pl)) (p_prefix pl) x" "ring_wf q"
    using cycle.backstop_props[OF d2 b] cycle.backstop_ring[OF d2 r2 b] by simp_all
  let ?q = "q\<lparr>px_stats := (px_stats q)\<lparr>PicksTotal := PicksTotal (px_stats q) + 1\<rparr>\<rparr>"
  have qst: "streams_ok q" and qfr: "draw_frame ?k p1 q" and qc: "cycle_of ?k (p_bits pl) (p_prefix pl) q"
    using dq(1) by (simp_all add: drawing_def)
  have same: "fit_entry ?q k s = fit_entry p k s" for k s
    using qfr rest by (simp add: fit_entry_def draw_frame_def)
  have "fit_entry p k (e_stream e)" if e: "map_of (px_streams q) k = Some e" for k e
  proof (cases "k = ?k")
    case True
    then have "stream_wf (e_stream e) \<and> s_bits (e_stream e) = p_bits pl \<and> s_prefix (e_stream e) = p_prefix pl"
      using qc e by (simp add: cycle_of_def)
    then show ?thesis using fit_entry_same[OF fs] pwf(3)[OF fs] True by metis
  next
    case False
    then have "map_of (px_streams p1) k = Some e" using e qfr by (simp add: draw_frame_def)
    moreover have "map_of (AList.delete ?k (px_streams p1)) k \<in> {None, map_of (AList.delete ?k (px_streams p)) k}"
      using p1(5) by (simp add: lru_part_def)
    ultimately have "map_of (px_streams p) k = Some e" using False by (simp add: map_of_delete)
    then show ?thesis using fit by (simp add: cycles_fit_iff)
  qed
  then have "cycles_fit ?q"
    using qst fit rest qfr unfolding cycles_fit_iff same
    by (simp add: streams_ok_def draw_frame_def)
  then have "proxy_ok ?q" using dq(3) by (simp add: proxy_ok_def ring_wf_def)
  moreover have sl: "streamLocked rng now acct dest pl suffix p = Some (?k, p1)"
    using p1(1) by (simp add: streamLocked_def Let_def)
  moreover have "freshIP env rng now acct dest p = Some (x, ?q)"
    using assms(3-5) sl dr b by (simp add: freshIP_def)
  ultimately show ?thesis using dr b d1 d2 dq r2 by (intro that)
qed

section \<open>What a pick leaves alone\<close>

text \<open>The counters of the traffic: the handlers change them, choosing a source does not.\<close>

definition traffic :: "stats \<Rightarrow> (u64 \<times> u64 \<times> int) \<times> (u64 \<times> u64 \<times> u64)" where
  "traffic st = ((HTTPReqs st, SOCKSConns st, ActiveConns st), (Rejected st, BytesIn st, BytesOut st))"

lemma traffic_simps [simp]:
  "traffic (st\<lparr>PicksTotal := a\<rparr>) = traffic st" "traffic (st\<lparr>CycleSkips := a\<rparr>) = traffic st"
  "traffic (st\<lparr>HostsCur := i\<rparr>) = traffic st" "traffic (st\<lparr>SessionsCur := i\<rparr>) = traffic st"
  "traffic (st\<lparr>SessionsTot := a\<rparr>) = traffic st" "traffic (st\<lparr>ClaimsOK := a\<rparr>) = traffic st"
  "traffic (st\<lparr>ClaimsFail := a\<rparr>) = traffic st" "traffic (st\<lparr>DialErrors := d\<rparr>) = traffic st"
  by (simp_all add: traffic_def)

text \<open>The part of the state the sessions live in.\<close>

definition sess_frame :: "proxy \<Rightarrow> proxy \<Rightarrow> bool" where
  "sess_frame p0 p \<longleftrightarrow> px_sessions p = px_sessions p0 \<and> px_cfg p = px_cfg p0
     \<and> px_pool p = px_pool p0 \<and> px_hosts p = px_hosts p0
     \<and> px_accounts p = px_accounts p0 \<and> px_claimer p = px_claimer p0
     \<and> SessionsCur (px_stats p) = SessionsCur (px_stats p0)
     \<and> SessionsTot (px_stats p) = SessionsTot (px_stats p0)
     \<and> DialErrors (px_stats p) = DialErrors (px_stats p0)
     \<and> traffic (px_stats p) = traffic (px_stats p0)"

lemma sess_frame_trans: "sess_frame p q \<Longrightarrow> sess_frame q r \<Longrightarrow> sess_frame p r"
  by (simp add: sess_frame_def)

lemma sess_frame_refl [simp]: "sess_frame p p"
  by (simp add: sess_frame_def)

interpretation keyed_frame: pick_source "gen pl acct dest" "sess_frame p0" "\<lambda>_. True"
  by unfold_locales (auto simp: sess_frame_def gen_def Let_def)

interpretation cycle_frame: pick_source "draw key" "sess_frame p0" "\<lambda>_. True"
  by unfold_locales (auto simp: sess_frame_def draw_def Let_def split: option.splits prod.splits)

lemma evict_frame: "sess_frame p (evictStreamLocked rng now p)"
  by (simp add: evictStreamLocked_def sess_frame_def split: prod.splits)

lemma evict_while_frame: "evict_while busy rng now p = Some q \<Longrightarrow> sess_frame p q"
proof (induction busy rng now p q rule: evict_while.raw_induct[rotated, consumes 1, case_names step])
  case (step f busy rng now p q)
  show ?case
  proof (cases "busy p")
    case True
    then have "sess_frame (evictStreamLocked rng now p) q" using step by simp
    then show ?thesis using sess_frame_trans[OF evict_frame] by blast
  qed (use step in simp)
qed

lemma stream_at_frame: "stream_at rng now key fresh p = Some q \<Longrightarrow> sess_frame p q"
proof (cases "map_of (px_streams p) key")
  case None
  assume "stream_at rng now key fresh p = Some q"
  then obtain r where r: "evict_while at_cap rng now p = Some r"
    "q = store_hosts_cur (r\<lparr>px_streams := AList.update key \<lparr>e_stream = fresh, e_seen = now\<rparr> (px_streams r)\<rparr>)"
    using None by (auto simp: stream_at_def split: option.splits)
  have "sess_frame r q" by (simp add: r(2) sess_frame_def store_hosts_cur_def)
  with evict_while_frame[OF r(1)] show ?thesis by (rule sess_frame_trans)
qed (auto simp: stream_at_def sess_frame_def)

lemma freshIP_frame:
  assumes "freshIP env rng now acct dest p = Some (x, q)"
  shows "sess_frame p q"
proof -
  have keyed: "sess_frame p r" if "backstopLocked (gen pl acct dest) y r0 = (z, r)" "gen pl acct dest p = (y, r0)"
    for pl y r0 z r
  proof -
    have "sess_frame p r0" using keyed_frame.next_inv[OF sess_frame_refl, of p pl acct dest] that(2) by simp
    from keyed_frame.backstop_props[OF this _ that(1)] show ?thesis by simp
  qed
  have cyc: "sess_frame p r" if "stream_at rng now key fr p = Some r0" "draw key r0 = (y, r1)"
    "backstopLocked (draw key) y r1 = (z, r)" for key fr r0 y r1 z r
  proof -
    note a = stream_at_frame[OF that(1)]
    have "sess_frame p r1" using cycle_frame.next_inv[OF a, of key] that(2) by simp
    from cycle_frame.backstop_props[OF this _ that(3)] show ?thesis by simp
  qed
  have upd: "sess_frame p (r\<lparr>px_stats := (px_stats r)\<lparr>PicksTotal := n\<rparr>\<rparr>) = sess_frame p r" for r n
    by (simp add: sess_frame_def)
  show ?thesis using assms keyed cyc
    by (auto simp: freshIP_def backstopGuard_eq streamLocked_def Let_def upd split: if_splits prod.splits option.splits)
      (auto simp: sess_frame_def)
qed

section \<open>Properties\<close>

lemma New_proxy_ok: "New_proxy rand now c = Inr p \<Longrightarrow> proxy_ok p"
  by (auto simp: New_proxy_def Let_def proxy_ok_def cycles_fit_def streams_ok_def table_wf_def ring_wf_def
      New_stats_def defaultHostsMax_def split: sum.splits)

text \<open>C13. A fresh pick from a pool always returns (no loop hangs), and the address lies in the prefix of the
  pool the pick was made from: the static pool, or in \<open>auto_pool\<close> mode the live prefix of the interface
  at that moment, for sliced accounts and for rotation cycles alike.  The invariant of the state
  that this needs holds for a new proxy and is kept by the pick.\<close>

theorem freshIP_in_prefix:
  assumes "proxy_ok p" "rng_ok rng" "px_hosts p = []" "poolForPick env p = (Some pl, suffix)"
  shows "\<exists>x q. freshIP env rng now acct dest p = Some (x, q)
    \<and> in_prefix (nat (p_bits pl)) (p_prefix pl) x \<and> proxy_ok q"
proof (cases "0 < a_size acct")
  case True
  obtain x q where "freshIP env rng now acct dest p = Some (x, q)" "proxy_ok q"
    "in_prefix (nat (p_bits pl)) (p_prefix pl) x" "px_streams q = px_streams p"
    by (rule freshIP_keyed[OF assms(1,3,4) True])
  then show ?thesis by blast
next
  case False
  then have z: "a_size acct = 0" by (simp add: word_gt_0)
  show ?thesis by (rule freshIP_cycle[OF assms z, of now dest]) blast
qed

definition pool_proxy :: proxy where
  "pool_proxy = (sample_proxy 128)\<lparr>px_pool := Some sample_pool\<rparr>"

lemma pool_proxy_ok [simp]: "proxy_ok pool_proxy" "px_hosts pool_proxy = []"
  "poolForPick env pool_proxy = (Some sample_pool, '''')"
  by (auto simp: proxy_ok_def pool_proxy_def sample_proxy_def cycles_fit_def streams_ok_def table_wf_def
      ring_wf_def New_stats_def poolForPick_def sample_config_def sample_pool_def pool_wf_def)

theorem freshIP_in_prefix_witness:
  "\<exists>x q. freshIP (sample_env []) rev 7 sample_acct ''example.org'' pool_proxy = Some (x, q)
    \<and> in_prefix 64 (0x20 # replicate 15 0) x"
  using freshIP_in_prefix[OF pool_proxy_ok(1) rng_ok_id(2) pool_proxy_ok(2,3), where env = "sample_env []"
      and now = 7 and acct = sample_acct and dest = "''example.org''"]
  by (auto simp: sample_pool_def)

text \<open>The candidates of a cycle's pick are its next picks.\<close>

lemma draw_stream:
  assumes "map_of (px_streams p) key = Some e" "Next (e_stream e) = (x, k, s)"
  shows "fst (draw key p) = x"
    and "map_of (px_streams (snd (draw key p))) key = Some (e\<lparr>e_stream := s\<rparr>)"
  using assms by (simp_all add: draw_def update_conv')

lemma cands_picks:
  "map_of (px_streams p) key = Some e \<Longrightarrow>
     cycle.cands key n (fst (draw key p)) (snd (draw key p)) = fst (picks (Suc n) (e_stream e))"
proof (induction n arbitrary: p e)
  case 0
  obtain x k s where n: "Next (e_stream e) = (x, k, s)" by (metis prod_cases3)
  then show ?case by (simp add: draw_stream[OF 0 n])
next
  case (Suc n)
  obtain x k s where nx: "Next (e_stream e) = (x, k, s)" by (metis prod_cases3)
  note d = draw_stream[OF Suc.prems nx]
  have "fst (picks (Suc (Suc n)) (e_stream e)) = x # fst (picks (Suc n) s)"
    by (subst picks.simps(2)) (simp add: nx split: prod.splits del: picks.simps)
  then show ?case using Suc.IH[OF d(2)] by (simp add: d(1) del: picks.simps)
qed

text \<open>The stream a pick draws from: the stored one, or a fresh one for a new key.\<close>

definition current_stream :: "proxy \<Rightarrow> paccount \<Rightarrow> string \<Rightarrow> pool \<Rightarrow> string \<Rightarrow> stream" where
  "current_stream p acct dest pl suffix =
     (case map_of (px_streams p) (stream_key acct dest suffix) of
        Some e \<Rightarrow> e_stream e | None \<Rightarrow> NewStream pl (pa_domain acct) (tweakHost dest))"

lemma current_stream_at:
  assumes "streamLocked rng now acct dest pl suffix p = Some (stream_key acct dest suffix, p1)"
    and "rng_ok rng" "streams_ok p"
  shows "map_of (px_streams p1) (stream_key acct dest suffix)
      = Some \<lparr>e_stream = current_stream p acct dest pl suffix, e_seen = now\<rparr>"
    and "same_rest p p1"
proof -
  have "stream_key acct dest suffix \<noteq> ''''" by (simp add: stream_key_def)
  then obtain q where "stream_at rng now (stream_key acct dest suffix)
      (NewStream pl (pa_domain acct) (tweakHost dest)) p = Some q" "same_rest p q"
    "map_of (px_streams q) (stream_key acct dest suffix)
      = Some \<lparr>e_stream = current_stream p acct dest pl suffix, e_seen = now\<rparr>"
    unfolding current_stream_def by (rule stream_at_effect[OF assms(2,3)])
  then show "map_of (px_streams p1) (stream_key acct dest suffix)
      = Some \<lparr>e_stream = current_stream p acct dest pl suffix, e_seen = now\<rparr>" "same_rest p p1"
    using assms(1) by (simp_all add: streamLocked_def Let_def)
qed

text \<open>C31. A full-pool pick for a destination is the first of the next four picks of the (account,
  destination) cycle that is not among the recently used addresses, and the fourth when all of them
  are; with the ring disabled it is the next pick of the cycle.\<close>

theorem freshIP_first_unused:
  assumes "proxy_ok p" "rng_ok rng" "px_hosts p = []" "poolForPick env p = (Some pl, suffix)" "a_size acct = 0"
  shows "\<exists>q. freshIP env rng now acct dest p =
    Some (let xs = fst (picks 4 (current_stream p acct dest pl suffix))
          in if brCap p \<le> 0 then hd xs
             else case find (\<lambda>c. \<not> brHit p c) xs of Some c \<Rightarrow> c | None \<Rightarrow> last xs, q)"
proof -
  let ?k = "stream_key acct dest suffix" and ?s = "current_stream p acct dest pl suffix"
  obtain p1 x1 p2 x q where r: "streamLocked rng now acct dest pl suffix p = Some (?k, p1)"
    "draw ?k p1 = (x1, p2)" "backstopLocked (draw ?k) x1 p2 = (x, q)"
    "freshIP env rng now acct dest p
      = Some (x, q\<lparr>px_stats := (px_stats q)\<lparr>PicksTotal := PicksTotal (px_stats q) + 1\<rparr>\<rparr>)"
    "drawing ?k (p_bits pl) (p_prefix pl) p1 p2" "drawing ?k (p_bits pl) (p_prefix pl) p1 p1"
    "in_prefix (nat (p_bits pl)) (p_prefix pl) x" "ring_wf p2"
    by (rule freshIP_cycle[OF assms])
  have st: "streams_ok p" using assms(1) by (simp add: proxy_ok_def cycles_fit_def)
  note cur = current_stream_at[OF r(1) assms(2) st]
  have xs: "cycle.cands ?k 3 x1 p2 = fst (picks 4 ?s)"
    using cands_picks[OF cur(1), of 3] r(2) by (simp add: numeral_eq_Suc del: picks.simps)
  have ring: "brMap p2 = brMap p" "brCap p2 = brCap p"
    using draw_drawing[OF r(6)] r(2) same_rest_keeps[OF cur(2)] by simp_all
  have "in_prefix (nat (p_bits pl)) (p_prefix pl) x1" using draw_drawing[OF r(6)] r(2) by simp
  note ch = cycle.backstop_choice[OF r(5) this _ r(8,3), unfolded xs]
  have hit: "brHit p2 c = brHit p c" for c by (simp add: brHit_def ring)
  have "x = (let xs = fst (picks 4 ?s) in if brCap p \<le> 0 then hd xs
      else case find (\<lambda>c. \<not> brHit p c) xs of Some c \<Rightarrow> c | None \<Rightarrow> last xs)"
  proof (cases "brCap p \<le> 0")
    case True
    then have "x = x1" using r(3) ring by (simp add: backstopLocked_def)
    moreover have "x1 = hd (fst (picks 4 ?s))" unfolding xs[symmetric] by (simp add: numeral_eq_Suc)
    ultimately show ?thesis using True by (simp add: Let_def del: picks.simps)
  next
    case False
    then show ?thesis using ch ring unfolding hit by (simp add: Let_def del: picks.simps)
  qed
  with r(4) show ?thesis by auto
qed

theorem freshIP_first_unused_witness:
  "\<exists>q. freshIP (sample_env []) rev 7 sample_acct ''example.org'' (pool_proxy\<lparr>brCap := 0\<rparr>)
     = Some (hd (fst (picks 4 (NewStream sample_pool 3 (tweakHost ''example.org'')))), q)"
proof -
  let ?p = "pool_proxy\<lparr>brCap := 0\<rparr>"
  have ok: "proxy_ok ?p" "px_hosts ?p = []" "poolForPick (sample_env []) ?p = (Some sample_pool, '''')"
    using pool_proxy_ok by (simp_all add: proxy_ok_def cycles_fit_def streams_ok_def ring_wf_def
        fit_entry_def poolForPick_def livePrefix_def pool_proxy_def sample_proxy_def sample_config_def)
  have "a_size sample_acct = 0" by (simp add: sample_acct_def)
  note freshIP_first_unused[OF ok(1) rng_ok_id(2) ok(2,3) this, of 7 "''example.org''"]
  moreover have "current_stream ?p sample_acct ''example.org'' sample_pool ''''
      = NewStream sample_pool 3 (tweakHost ''example.org'')"
    by (simp add: current_stream_def pool_proxy_def sample_proxy_def sample_acct_def)
  ultimately show ?thesis by (simp add: Let_def del: picks.simps)
qed

text \<open>C32. In \<open>auto_pool\<close> mode the configured or random seed is not used by the pool: whether or not a
  \<open>pool_prefix\<close> is set too, the pool of every pick of a new proxy has seed 0.  An account's cycle for a
  destination starts from its domain, and without a \<open>pool_prefix\<close> that is 0 for every account, so for
  one destination all accounts, on every start, begin the same sequence of addresses.\<close>

theorem auto_pool_ignores_seed:
  assumes "New_proxy rand now c = Inr p" "AutoPool c" "map_of (px_accounts p) u = Some a"
  shows "poolForPick env p = (if livePrefix env p = [] then (None, '''')
      else (Some (NewWithSeed (PoolBits c) (livePrefix env p) 0), [CHR 0x00] @ IP_String (livePrefix env p)))
    \<and> current_stream p a dest pl suffix = NewStream pl (if PoolPrefix c = '''' then 0 else pa_domain a) (tweakHost dest)"
proof -
  have dom: "\<forall>(k, a) \<in> set (add_accounts None i as m). pa_domain a = 0"
    if "\<forall>(k, a) \<in> set m. pa_domain a = 0" for i as m
    using that
  proof (induction as arbitrary: i m)
    case (Cons b bs)
    have "set (AList.update k v m) \<subseteq> insert (k, v) (set m)" for k v
      by (induction m) (auto split: if_splits)
    then have "\<forall>(k, a) \<in> set (AList.update (a_username b) (account.extend b (paccount.fields 0)) m). pa_domain a = 0"
      using Cons.prems by (fastforce simp: account.defs paccount.defs)
    then show ?case using Cons.IH by simp
  qed simp
  have p: "px_cfg p = c" "px_seed p = 0" "px_streams p = []"
    "PoolPrefix c = '''' \<Longrightarrow> px_accounts p = add_accounts None 0 (Accounts c) []"
    using assms(1) by (auto simp: New_proxy_def Let_def split: sum.splits)
  have "PoolPrefix c = '''' \<Longrightarrow> pa_domain a = 0"
    using dom[of "[]" 0 "Accounts c"] map_of_SomeD[OF assms(3)] p(4) by auto
  then show ?thesis using assms(2) p(1-3) by (simp add: poolForPick_def current_stream_def Let_def)
qed

theorem auto_pool_ignores_seed_witness:
  "case New_proxy (Inl '''') 0 (sample_config\<lparr>AutoPool := True, PoolPrefix := ''''\<rparr>) of
     Inl e \<Rightarrow> False
   | Inr p \<Rightarrow> case map_of (px_accounts p) ''u'' of
       None \<Rightarrow> False
     | Some a \<Rightarrow> current_stream p a ''example.org'' sample_pool '''' = NewStream sample_pool 0 (tweakHost ''example.org'')"
proof -
  let ?c = "sample_config\<lparr>AutoPool := True, PoolPrefix := ''''\<rparr>"
  have "PoolSeed ?c = ''00ff''" by (simp add: sample_config_def)
  then obtain p where p: "New_proxy (Inl '''') 0 ?c = Inr p"
    by (simp add: New_proxy_def parseSeed_sample Let_def)
  moreover obtain a where "map_of (px_accounts p) ''u'' = Some a"
    using p by (auto simp: New_proxy_def Let_def sample_config_def split: sum.splits)
  ultimately show ?thesis
    using auto_pool_ignores_seed[OF p, of "''u''" a] by (simp add: sample_config_def)
qed

text \<open>A run of picks in address-list mode.\<close>

fun host_picks :: "nat \<Rightarrow> proxy \<Rightarrow> ip list" where
  "host_picks 0 p = []"
| "host_picks (Suc n) p =
     (case freshIP (sample_env []) id 0 sample_acct '''' p of None \<Rightarrow> [] | Some (x, q) \<Rightarrow> x # host_picks n q)"

lemma freshIP_hosts:
  assumes "px_hosts p \<noteq> []" "unat (hostPick p) + 1 < 2 ^ 64" "length (px_hosts p) < 2 ^ 64"
  shows "freshIP env rng now acct dest p
    = Some (px_hosts p ! ((unat (hostPick p) + 1) mod length (px_hosts p)), p\<lparr>hostPick := hostPick p + 1\<rparr>)"
    and "unat (hostPick p + 1) = unat (hostPick p) + 1"
proof -
  have "unat (hostPick p + 1) = (unat (hostPick p) + 1) mod 2 ^ 64" by (simp add: unat_word_ariths)
  then show u: "unat (hostPick p + 1) = unat (hostPick p) + 1" using assms(2) by simp
  have "unat (of_nat (length (px_hosts p)) :: u64) = length (px_hosts p)"
    using assms(3) by (simp add: unat_of_nat)
  with u assms(1) show "freshIP env rng now acct dest p
    = Some (px_hosts p ! ((unat (hostPick p) + 1) mod length (px_hosts p)), p\<lparr>hostPick := hostPick p + 1\<rparr>)"
    by (simp add: freshIP_def unat_mod_distrib)
qed

lemma host_picks_eq:
  "px_hosts p \<noteq> [] \<Longrightarrow> unat (hostPick p) + n < 2 ^ 64 \<Longrightarrow> length (px_hosts p) < 2 ^ 64 \<Longrightarrow>
     host_picks n p = map (\<lambda>i. px_hosts p ! ((unat (hostPick p) + 1 + i) mod length (px_hosts p))) [0..<n]"
proof (induction n arbitrary: p)
  case (Suc n)
  have f: "unat (hostPick p) + 1 < 2 ^ 64" using Suc.prems(2) by simp
  note h = freshIP_hosts[OF Suc.prems(1) f Suc.prems(3)]
  have "host_picks n (p\<lparr>hostPick := hostPick p + 1\<rparr>)
      = map (\<lambda>i. px_hosts p ! ((unat (hostPick p) + 1 + Suc i) mod length (px_hosts p))) [0..<n]"
    using Suc.IH[of "p\<lparr>hostPick := hostPick p + 1\<rparr>"] Suc.prems by (simp add: h(2))
  then show ?case unfolding map_upt_Suc by (simp add: h(1))
qed simp

text \<open>Address-list mode is a round robin: as long as the pick counter does not wrap, any
  \<open>length hosts\<close> consecutive picks use every configured address exactly once.\<close>

theorem hosts_round_robin:
  assumes "px_hosts p \<noteq> []" "unat (hostPick p) + length (px_hosts p) < 2 ^ 64"
  shows "mset (host_picks (length (px_hosts p)) p) = mset (px_hosts p)"
proof -
  let ?n = "length (px_hosts p)"
  define m where "m = unat (hostPick p) + 1"
  have "host_picks ?n p = map (\<lambda>i. px_hosts p ! ((m + i) mod ?n)) [0..<?n]"
    using assms host_picks_eq by (simp add: m_def)
  also have "\<dots> = rotate m (px_hosts p)"
    by (rule nth_equalityI) (simp_all add: nth_rotate)
  finally have "mset (host_picks ?n p)
      = mset (take (m mod ?n) (px_hosts p) @ drop (m mod ?n) (px_hosts p))"
    by (simp only: rotate_drop_take mset_append add.commute)
  then show ?thesis by (simp only: append_take_drop_id)
qed

theorem hosts_round_robin_witness:
  "mset (host_picks 2 ((sample_proxy 0)\<lparr>px_hosts := [replicate 16 1, replicate 16 2]\<rparr>))
     = {#replicate 16 1, replicate 16 2#}"
proof -
  let ?p = "(sample_proxy 0)\<lparr>px_hosts := [replicate 16 1, replicate 16 2]\<rparr>"
  have p: "px_hosts ?p = [replicate 16 1, replicate 16 2]" "hostPick ?p = 0" by (simp_all add: sample_proxy_def)
  have two: "length [replicate 16 1 :: ip, replicate 16 2] = 2" by simp
  have "unat (hostPick ?p) + length (px_hosts ?p) < 2 ^ 64" by (simp add: p)
  from hosts_round_robin[OF _ this] show ?thesis unfolding p two by (simp del: host_picks.simps)
qed

end
