(* ===== verification/Sessions.thy ===== *)
theory Sessions
  imports Fresh
begin

text \<open>
  \<open>internal/proxy/proxy.go\<close>, lines 225-244 and 403-455: sticky sessions and \<open>pickSource\<close>.
  \<open>stickyIP\<close> holds the lock twice, with the pick of a fresh address between; its two critical
  sections are \<open>sticky_check\<close> and \<open>sticky_store\<close>.  Sequential use composes them; concurrent use is
  the step relation \<open>sess_step\<close>, in which any number of requests are between their two sections.
  \<open>t1\<close>, \<open>t2\<close>, ... are the clock readings of one call in the order the code makes them.
\<close>

section \<open>Operations\<close>

definition dropSessionLocked :: "string \<Rightarrow> proxy \<Rightarrow> proxy" where
  "dropSessionLocked key p =
     p\<lparr>px_sessions := AList.delete key (px_sessions p),
       px_stats := (px_stats p)\<lparr>SessionsCur := SessionsCur (px_stats p) - 1\<rparr>\<rparr>"

text \<open>The session of the account under the key, if it has not expired at \<open>t\<close>.\<close>

definition live_session :: "paccount \<Rightarrow> string \<Rightarrow> int \<Rightarrow> proxy \<Rightarrow> session option" where
  "live_session acct key t p =
     (case map_of (px_sessions p) key of
        None \<Rightarrow> None
      | Some s \<Rightarrow> if ses_acct s = a_username acct \<and> t < ses_expire s then Some s else None)"

definition sticky_check :: "paccount \<Rightarrow> string \<Rightarrow> int \<Rightarrow> int \<Rightarrow> proxy \<Rightarrow> ip option \<times> proxy" where
  "sticky_check acct key t1 t2 p =
     (case live_session acct key t1 p of
        Some s \<Rightarrow> (Some (ses_ip s), p)
      | None \<Rightarrow>
          (None, case map_of (px_sessions p) key of
                   None \<Rightarrow> p
                 | Some s \<Rightarrow> if t2 > ses_expire s then dropSessionLocked key p else p))"

text \<open>The creation of a session at the end of \<open>stickyIP\<close>.\<close>

definition put_session :: "string \<Rightarrow> ip \<Rightarrow> string \<Rightarrow> int \<Rightarrow> proxy \<Rightarrow> proxy" where
  "put_session user x key t4 p =
     p\<lparr>px_sessions := AList.update key
          \<lparr>ses_ip = x, ses_acct = user, ses_expire = t4 + seconds (StickyTTL (px_cfg p))\<rparr> (px_sessions p),
       px_stats := (px_stats p)\<lparr>SessionsCur := SessionsCur (px_stats p) + 1,
                                SessionsTot := SessionsTot (px_stats p) + 1\<rparr>\<rparr>"

definition sticky_store :: "paccount \<Rightarrow> string \<Rightarrow> ip \<Rightarrow> int \<Rightarrow> int \<Rightarrow> proxy \<Rightarrow> ip \<times> proxy" where
  "sticky_store acct key x t3 t4 p =
     (case live_session acct key t3 p of
        Some s \<Rightarrow> (ses_ip s, p)
      | None \<Rightarrow> (x, put_session (a_username acct) x key t4 p))"

record clock =
  t1 :: int
  t2 :: int
  tf :: int
  t3 :: int
  t4 :: int

text \<open>None: an eviction loop that does not end.  The flag \<open>ok\<close> the code returns is always true.\<close>

definition stickyIP ::
  "netenv \<Rightarrow> (table \<Rightarrow> table) \<Rightarrow> clock \<Rightarrow> paccount \<Rightarrow> string \<Rightarrow> string \<Rightarrow> proxy \<Rightarrow> ((ip \<times> bool) \<times> proxy) option" where
  "stickyIP env rng clk acct key destHost p =
     (case sticky_check acct key (t1 clk) (t2 clk) p of
        (Some x, p) \<Rightarrow> Some ((x, True), p)
      | (None, p) \<Rightarrow>
          (case freshIP env rng (tf clk) acct destHost p of
             None \<Rightarrow> None
           | Some (x, p) \<Rightarrow>
               (let (y, p) = sticky_store acct key x (t3 clk) (t4 clk) p in Some ((y, True), p))))"

definition SweepSessions :: "int \<Rightarrow> proxy \<Rightarrow> proxy" where
  "SweepSessions now p =
     fold (\<lambda>(k, s) p. if now > ses_expire s then dropSessionLocked k p else p) (px_sessions p) p"

definition pickSource ::
  "netenv \<Rightarrow> (table \<Rightarrow> table) \<Rightarrow> clock \<Rightarrow> paccount \<Rightarrow> string \<Rightarrow> string \<Rightarrow> proxy \<Rightarrow> (ip \<times> proxy) option" where
  "pickSource env rng clk acct key destHost p =
     (if FixedSource (px_cfg p) \<noteq> '''' then Some (ParseIP (FixedSource (px_cfg p)), p)
      else if SourceIface (px_cfg p) \<noteq> '''' \<and> \<not> AutoPool (px_cfg p)
              \<and> GlobalIP env (SourceIface (px_cfg p)) \<noteq> []
      then Some (GlobalIP env (SourceIface (px_cfg p)), p)
      else if key \<noteq> ''''
      then (case stickyIP env rng clk acct key destHost p of
              None \<Rightarrow> None
            | Some ((x, ok), p) \<Rightarrow> if ok then Some (x, p) else freshIP env rng (tf clk) acct destHost p)
      else freshIP env rng (tf clk) acct destHost p)"

section \<open>Sweeping\<close>

definition keys_ok :: "(string \<times> session) list \<Rightarrow> bool" where
  "keys_ok ss \<longleftrightarrow> distinct (map fst ss)"

lemma keys_ok_delete: "keys_ok ss \<Longrightarrow> keys_ok (AList.delete k ss)"
  by (simp add: keys_ok_def distinct_delete)

lemma keys_ok_update: "keys_ok ss \<Longrightarrow> keys_ok (AList.update k v ss)"
  by (simp add: keys_ok_def distinct_update)

lemma length_delete_le: "length (AList.delete k ss) \<le> length ss"
  by (simp add: AList.delete_eq length_filter_le)

lemma length_delete_key:
  "keys_ok ss \<Longrightarrow> map_of ss k \<noteq> None \<Longrightarrow> int (length (AList.delete k ss)) = int (length ss) - 1"
proof -
  assume *: "keys_ok ss" "map_of ss k \<noteq> None"
  then have k: "k \<in> set (map fst ss)" by (auto dest: map_of_SomeD intro: rev_image_eqI)
  have "length (map fst (AList.delete k ss)) = length (remove1 k (map fst ss))"
    using * by (simp add: delete_keys keys_ok_def distinct_remove1_removeAll)
  also have "\<dots> = length (map fst ss) - 1" using k by (simp add: length_remove1)
  finally show ?thesis using k by (cases ss) auto
qed

text \<open>The effect of a sweep: the expired sessions go, and the gauge drops by their number.\<close>

lemma sweep_fold:
  "keys_ok ss \<Longrightarrow> keys_ok (px_sessions p) \<Longrightarrow> (\<forall>(k, s) \<in> set ss. map_of (px_sessions p) k = Some s) \<Longrightarrow>
     (let q = fold (\<lambda>(k, s) p. if now > ses_expire s then dropSessionLocked k p else p) ss p in
        keys_ok (px_sessions q) \<and> sess_frame (q\<lparr>px_sessions := [], px_stats := px_stats p\<rparr>) (p\<lparr>px_sessions := []\<rparr>)
        \<and> SessionsTot (px_stats q) = SessionsTot (px_stats p)
        \<and> SessionsCur (px_stats q) - int (length (px_sessions q))
          = SessionsCur (px_stats p) - int (length (px_sessions p))
        \<and> (\<forall>k. map_of (px_sessions q) k = (case map_of (px_sessions p) k of None \<Rightarrow> None
            | Some s \<Rightarrow> if map_of ss k \<noteq> None \<and> now > ses_expire s then None else Some s)))"
proof (induction ss arbitrary: p)
  case (Cons ks ss)
  obtain k s where ks: "ks = (k, s)" by (cases ks)
  have s: "map_of (px_sessions p) k = Some s" using Cons.prems(3) ks by simp
  have fresh: "map_of ss k = None" using Cons.prems(1) ks by (simp add: keys_ok_def map_of_eq_None_iff)
  let ?p = "if now > ses_expire s then dropSessionLocked k p else p"
  have 1: "keys_ok ss" using Cons.prems(1) by (simp add: keys_ok_def)
  have 2: "keys_ok (px_sessions ?p)"
    using Cons.prems(2) keys_ok_delete by (simp add: dropSessionLocked_def)
  have 3: "\<forall>(j, r) \<in> set ss. map_of (px_sessions ?p) j = Some r"
  proof (clarify)
    fix j r assume jr: "(j, r) \<in> set ss"
    then have "j \<noteq> k" using Cons.prems(1) ks by (force simp: keys_ok_def)
    then show "map_of (px_sessions ?p) j = Some r"
      using jr Cons.prems(3) by (auto simp: dropSessionLocked_def map_of_delete)
  qed
  have len: "now > ses_expire s \<Longrightarrow> int (length (px_sessions ?p)) = int (length (px_sessions p)) - 1"
    using length_delete_key[OF Cons.prems(2), of k] s by (simp add: dropSessionLocked_def)
  show ?case
    using Cons.IH[OF 1 2 3] len s fresh
    by (auto simp: Let_def ks dropSessionLocked_def sess_frame_def map_of_delete split: option.splits if_splits)
qed (simp add: sess_frame_def split: option.splits)

lemma SweepSessions_effect:
  assumes "keys_ok (px_sessions p)"
  shows "keys_ok (px_sessions (SweepSessions now p))"
    and "SessionsCur (px_stats (SweepSessions now p)) - int (length (px_sessions (SweepSessions now p)))
      = SessionsCur (px_stats p) - int (length (px_sessions p))"
    and "SessionsTot (px_stats (SweepSessions now p)) = SessionsTot (px_stats p)"
    and "map_of (px_sessions (SweepSessions now p)) k = (case map_of (px_sessions p) k of None \<Rightarrow> None
      | Some s \<Rightarrow> if now > ses_expire s then None else Some s)"
    and "px_cfg (SweepSessions now p) = px_cfg p"
proof -
  have "\<forall>(k, s) \<in> set (px_sessions p). map_of (px_sessions p) k = Some s"
    using assms by (auto simp: keys_ok_def)
  from sweep_fold[OF assms assms this, of now] show
    "keys_ok (px_sessions (SweepSessions now p))"
    "SessionsCur (px_stats (SweepSessions now p)) - int (length (px_sessions (SweepSessions now p)))
      = SessionsCur (px_stats p) - int (length (px_sessions p))"
    "SessionsTot (px_stats (SweepSessions now p)) = SessionsTot (px_stats p)"
    "map_of (px_sessions (SweepSessions now p)) k = (case map_of (px_sessions p) k of None \<Rightarrow> None
      | Some s \<Rightarrow> if now > ses_expire s then None else Some s)"
    "px_cfg (SweepSessions now p) = px_cfg p"
    unfolding SweepSessions_def Let_def by (auto simp: sess_frame_def split: option.splits)
qed

text \<open>Sessions as an expiring store: creation is the touch, the deadline is the expiry time.\<close>

definition session_deadline :: "proxy \<Rightarrow> string \<Rightarrow> int option" where
  "session_deadline p k = map_option ses_expire (map_of (px_sessions p) k)"

interpretation sessions: keeping session_deadline "\<lambda>k t. put_session user x k t" SweepSessions
    "seconds ttl" "\<lambda>p. keys_ok (px_sessions p) \<and> StickyTTL (px_cfg p) = ttl" "\<lambda>_. True"
  by unfold_locales
    (auto simp: session_deadline_def SweepSessions_effect put_session_def keys_ok_update update_conv'
       split: option.splits if_splits)

section \<open>Concurrent requests\<close>

text \<open>The state and the requests between their two critical sections.  \<open>may\<close> says which accounts use
  which tokens; every clock reading of a step is below \<open>T\<close>.\<close>

type_synonym world = "proxy \<times> (paccount \<times> string) list"

inductive sess_step :: "(string \<Rightarrow> string \<Rightarrow> bool) \<Rightarrow> int \<Rightarrow> world \<Rightarrow> world \<Rightarrow> bool"
  for may :: "string \<Rightarrow> string \<Rightarrow> bool" and T :: int where
  hit: "may (a_username acct) key \<Longrightarrow> t < T \<Longrightarrow> u < T \<Longrightarrow> sticky_check acct key t u p = (Some x, q) \<Longrightarrow>
     sess_step may T (p, pend) (q, pend)"
| miss: "may (a_username acct) key \<Longrightarrow> t < T \<Longrightarrow> u < T \<Longrightarrow> sticky_check acct key t u p = (None, q) \<Longrightarrow>
     sess_step may T (p, pend) (q, (acct, key) # pend)"
| pick: "freshIP env rng now acct dest p = Some (x, q) \<Longrightarrow> sess_step may T (p, pend) (q, pend)"
| store: "(acct, key) \<in> set pend \<Longrightarrow> t < T \<Longrightarrow> u < T \<Longrightarrow> sticky_store acct key x t u p = (y, q) \<Longrightarrow>
     sess_step may T (p, pend) (q, remove1 (acct, key) pend)"
| sweep: "t < T \<Longrightarrow> sess_step may T (p, pend) (SweepSessions t p, pend)"

inductive_cases sess_stepE: "sess_step may T (p, pend) w"

definition gauge_ok :: "proxy \<Rightarrow> bool" where
  "gauge_ok p \<longleftrightarrow> keys_ok (px_sessions p) \<and> int (length (px_sessions p)) \<le> SessionsCur (px_stats p)"

lemma drop_gauge: "gauge_ok p \<Longrightarrow> map_of (px_sessions p) key \<noteq> None \<Longrightarrow> gauge_ok (dropSessionLocked key p)"
  using length_delete_key[of "px_sessions p" key]
  by (simp add: gauge_ok_def dropSessionLocked_def keys_ok_delete)

lemma put_gauge: "gauge_ok (put_session u x key t p)" if "gauge_ok p"
proof -
  have "length (AList.update k v ss) \<le> Suc (length ss)" for k and v :: session and ss
    by (induction ss) auto
  from this[of key "\<lparr>ses_ip = x, ses_acct = u, ses_expire = t + seconds (StickyTTL (px_cfg p))\<rparr>" "px_sessions p"]
  have "int (length (px_sessions (put_session u x key t p))) \<le> int (length (px_sessions p)) + 1"
    by (simp add: put_session_def)
  moreover have "SessionsCur (px_stats (put_session u x key t p)) = SessionsCur (px_stats p) + 1"
    by (simp add: put_session_def)
  ultimately show ?thesis using that by (simp add: gauge_ok_def put_session_def keys_ok_update)
qed

lemma gauge_step: "sess_step may T w w' \<Longrightarrow> gauge_ok (fst w) \<Longrightarrow> gauge_ok (fst w')"
proof (induction rule: sess_step.induct)
  case (pick env rng now acct dest p x q pend)
  then show ?case using freshIP_frame by (fastforce simp: gauge_ok_def sess_frame_def)
next
  case (store acct key pend t u x p y q)
  then show ?case by (auto simp: sticky_store_def put_gauge split: option.splits)
next
  case (sweep t p pend)
  then show ?case using SweepSessions_effect[of p t] by (simp add: gauge_ok_def)
qed (auto simp: sticky_check_def drop_gauge split: option.splits if_splits)

text \<open>A pinned session: the entry of the key, and no other account between its critical sections.\<close>

definition pinned :: "string \<Rightarrow> session \<Rightarrow> world \<Rightarrow> bool" where
  "pinned key s w \<longleftrightarrow> keys_ok (px_sessions (fst w)) \<and> map_of (px_sessions (fst w)) key = Some s
     \<and> list_all (\<lambda>(a, k). k = key \<longrightarrow> a_username a = ses_acct s) (snd w)"

lemma live_pinned:
  "map_of (px_sessions p) key = Some s \<Longrightarrow> a_username acct = ses_acct s \<Longrightarrow> t < ses_expire s \<Longrightarrow>
     live_session acct key t p = Some s"
  by (simp add: live_session_def)

lemma pinned_step:
  assumes "sess_step may T w w'" "pinned key s w" "T \<le> ses_expire s"
    and own: "\<And>u. may u key \<Longrightarrow> u = ses_acct s"
  shows "pinned key s w'"
  using assms(1,2)
proof (induction rule: sess_step.induct)
  case (hit acct k t u p x q pend)
  then show ?case by (auto simp: sticky_check_def split: option.splits)
next
  case (miss acct k t u p q pend)
  show ?case
  proof (cases "k = key")
    case True
    then have "a_username acct = ses_acct s" using own miss by simp
    then have "live_session acct k t p = Some s"
      using live_pinned[of p key s acct t] miss assms(3) True by (simp add: pinned_def)
    then show ?thesis using miss by (simp add: sticky_check_def)
  next
    case False
    then show ?thesis using miss
      by (auto simp: sticky_check_def pinned_def dropSessionLocked_def keys_ok_delete map_of_delete
          split: option.splits if_splits)
  qed
next
  case (pick env rng now acct dest p x q pend)
  then show ?case using freshIP_frame by (fastforce simp: pinned_def sess_frame_def)
next
  case (store acct k pend t u x p y q)
  have "list_all P (remove1 z pend)" if "list_all P pend" for P z
    using that by (auto simp: list_all_iff dest: notin_set_remove1[THEN contrapos_pp] set_remove1_subset[THEN subsetD])
  moreover have "k = key \<Longrightarrow> live_session acct k t p = Some s"
    using live_pinned[of p key s acct t] store assms(3) by (auto simp: pinned_def list_all_iff)
  ultimately show ?case using store
    by (auto simp: sticky_store_def pinned_def put_session_def keys_ok_update update_conv' split: option.splits)
next
  case (sweep t p pend)
  then show ?case using SweepSessions_effect[of p t] assms(3) by (simp add: pinned_def)
qed

section \<open>Properties\<close>

text \<open>C33. The session gauge never under-reports: whatever requests, picks and sweeps interleave, in any
  order and at any times, the number of stored sessions stays at most the gauge, and no token has
  two sessions.\<close>

theorem session_gauge_upper:
  assumes "(sess_step may T)\<^sup>*\<^sup>* (p, pend) (q, pend')" "gauge_ok p"
  shows "gauge_ok q"
proof -
  have "gauge_ok (fst w')" if "(sess_step may T)\<^sup>*\<^sup>* w w'" "gauge_ok (fst w)" for w w'
    using that by (induction rule: rtranclp_induct) (auto intro: gauge_step)
  from this[OF assms(1)] assms(2) show ?thesis by simp
qed

lemma gauge_ok_sample [simp]: "gauge_ok (sample_proxy cap)"
  by (simp add: gauge_ok_def keys_ok_def sample_proxy_def New_stats_def)

theorem session_gauge_upper_witness:
  "gauge_ok (SweepSessions 900000000000 (put_session ''u'' (replicate 16 1) ''tok'' 5 (sample_proxy 0)))"
proof -
  let ?q = "put_session ''u'' (replicate 16 1) ''tok'' 5 (sample_proxy 0)"
  have "sticky_store sample_acct ''tok'' (replicate 16 1) 4 5 (sample_proxy 0) = (replicate 16 1, ?q)"
    by (simp add: sticky_store_def live_session_def sample_proxy_def sample_acct_def)
  then have "sess_step (\<lambda>_ _. True) 1000000000000 (sample_proxy 0, [(sample_acct, ''tok'')]) (?q, [])"
    using sess_step.store[of sample_acct "''tok''" "[(sample_acct, ''tok'')]" 4 1000000000000 5 "replicate 16 1"
        "sample_proxy 0" "replicate 16 1" ?q "\<lambda>_ _. True"] by simp
  moreover have "sess_step (\<lambda>_ _. True) 1000000000000 (?q, []) (SweepSessions 900000000000 ?q, [])"
    by (rule sess_step.sweep) simp
  ultimately have "(sess_step (\<lambda>_ _. True) 1000000000000)\<^sup>*\<^sup>*
      (sample_proxy 0, [(sample_acct, ''tok'')]) (SweepSessions 900000000000 ?q, [])"
    by (meson converse_rtranclp_into_rtranclp rtranclp.rtrancl_refl)
  from session_gauge_upper[OF this] show ?thesis by simp
qed

text \<open>C9. A session pins its address, as long as no other account uses its token: once an account has a
  session under such a token, then through any interleaving of requests, picks and sweeps, by whatever
  accounts on other tokens, before the session's expiry time the session stays, and every request of
  the account with the token gets its address.  (Another account's request with the token evicts it:
  \<open>foreign_token_evicts\<close>.)\<close>

theorem sticky_pins:
  assumes "(sess_step may T)\<^sup>*\<^sup>* (p, pend) (q, pend')" "pinned key s (p, pend)" "T \<le> ses_expire s"
    and "\<forall>u. may u key \<longrightarrow> u = ses_acct s" "a_username acct = ses_acct s" "t < ses_expire s"
  shows "sticky_check acct key t t' q = (Some (ses_ip s), q)"
proof -
  have "pinned key s w'" if "(sess_step may T)\<^sup>*\<^sup>* w w'" "pinned key s w" for w w'
    using that assms(3,4) by (induction rule: rtranclp_induct) (auto intro: pinned_step)
  from this[OF assms(1,2)] have "map_of (px_sessions q) key = Some s" by (simp add: pinned_def)
  from live_pinned[OF this assms(5,6)] show ?thesis by (simp add: sticky_check_def)
qed

definition one_session :: proxy where
  "one_session = (sample_proxy 0)\<lparr>px_hosts := [replicate 16 1],
     px_sessions := [(''tok'', \<lparr>ses_ip = replicate 16 9, ses_acct = ''u'', ses_expire = 100\<rparr>)]\<rparr>"

theorem sticky_pins_witness:
  "sticky_check sample_acct ''tok'' 60 61 (SweepSessions 50 one_session)
     = (Some (replicate 16 9), SweepSessions 50 one_session)"
proof -
  let ?s = "\<lparr>ses_ip = replicate 16 9, ses_acct = ''u'', ses_expire = 100\<rparr>"
  have "(sess_step (\<lambda>u k. u = ''u'') 70)\<^sup>*\<^sup>* (one_session, []) (SweepSessions 50 one_session, [])"
    by (intro r_into_rtranclp sess_step.sweep) simp
  moreover have "pinned ''tok'' ?s (one_session, [])"
    by (simp add: pinned_def keys_ok_def one_session_def)
  ultimately show ?thesis
    using sticky_pins[of "\<lambda>u k. u = ''u''" 70 one_session "[]" _ "[]" "''tok''" ?s sample_acct 60 61]
    by (simp add: sample_acct_def)
qed

text \<open>Session tokens are not per account: a second account using the token of a live session takes
  the entry over, so the first account loses its pinned address, and the gauge counts two sessions
  where one is stored.\<close>

theorem foreign_token_evicts:
  assumes "map_of (px_sessions p) key = Some s" "ses_acct s \<noteq> a_username acct"
    and "t2 clk \<le> ses_expire s" "freshIP env rng (tf clk) acct dest p = Some (x, q)"
  shows "\<exists>r. stickyIP env rng clk acct key dest p = Some ((x, True), r)
    \<and> map_of (px_sessions r) key = Some \<lparr>ses_ip = x, ses_acct = a_username acct,
        ses_expire = t4 clk + seconds (StickyTTL (px_cfg p))\<rparr>
    \<and> length (px_sessions r) = length (px_sessions p)
    \<and> SessionsCur (px_stats r) = SessionsCur (px_stats p) + 1"
proof -
  have c: "sticky_check acct key (t1 clk) (t2 clk) p = (None, p)"
    using assms(1-3) by (simp add: sticky_check_def live_session_def)
  note fr = freshIP_frame[OF assms(4), unfolded sess_frame_def]
  have n: "live_session acct key (t3 clk) q = None"
    using assms(1,2) fr by (simp add: live_session_def)
  have k: "key \<in> set (map fst (px_sessions p))" using assms(1) by (force dest: map_of_SomeD)
  have "length (AList.update key v (px_sessions p)) = length (px_sessions p)" for v
    using k by (induction "px_sessions p") (simp_all add: update_keys[THEN arg_cong[of _ _ length], simplified])
  then show ?thesis using c n fr assms(4)
    by (simp add: stickyIP_def sticky_store_def put_session_def update_conv')
qed

theorem foreign_token_evicts_witness:
  "\<exists>r. stickyIP (sample_env []) id \<lparr>t1 = 1, t2 = 2, tf = 3, t3 = 4, t4 = 5\<rparr>
      (sample_acct\<lparr>a_username := ''v''\<rparr>) ''tok'' ''example.org'' one_session = Some ((replicate 16 1, True), r)
    \<and> length (px_sessions r) = 1 \<and> SessionsCur (px_stats r) = SessionsCur (px_stats one_session) + 1"
proof -
  let ?a = "sample_acct\<lparr>a_username := ''v''\<rparr>"
  have "freshIP (sample_env []) id 3 ?a ''example.org'' one_session
      = Some (replicate 16 1, one_session\<lparr>hostPick := 1\<rparr>)"
    by (simp add: freshIP_def one_session_def sample_proxy_def)
  then show ?thesis
    using foreign_token_evicts[of one_session "''tok''" "\<lparr>ses_ip = replicate 16 9, ses_acct = ''u'', ses_expire = 100\<rparr>"
        ?a "\<lparr>t1 = 1, t2 = 2, tf = 3, t3 = 4, t4 = 5\<rparr>" "sample_env []" id "''example.org''"]
    by (auto simp: one_session_def)
qed

text \<open>A failed pick is pinned: when no pool is available at the first request with a token (in
  \<open>auto_pool\<close> mode, no usable interface address), the session stores the nil address, and requests
  with the token get nil until the session expires, even when a pool is available again.\<close>

theorem sticky_pins_nil:
  assumes "map_of (px_sessions p) key = None" "px_hosts p = []" "fst (poolForPick env p) = None"
    and "t1 clk' < t4 clk + seconds (StickyTTL (px_cfg p))"
  shows "\<exists>q. stickyIP env rng clk acct key dest p = Some (([], True), q)
    \<and> stickyIP env' rng' clk' acct key dest' q = Some (([], True), q)"
proof -
  have "freshIP env rng (tf clk) acct dest p = Some ([], p)"
    using assms(2,3) by (cases "poolForPick env p") (simp add: freshIP_def)
  moreover have "live_session acct key t p = None" for t using assms(1) by (simp add: live_session_def)
  ultimately show ?thesis using assms(1,4)
    by (simp add: stickyIP_def sticky_check_def sticky_store_def)
      (simp add: live_session_def put_session_def update_conv')
qed

theorem sticky_pins_nil_witness:
  "\<exists>q. stickyIP (sample_env []) id \<lparr>t1 = 1, t2 = 2, tf = 3, t3 = 4, t4 = 5\<rparr> sample_acct ''tok'' ''example.org''
       ((sample_proxy 0)\<lparr>px_cfg := sample_config\<lparr>StickyTTL := 300\<rparr>\<rparr>) = Some (([], True), q)
    \<and> stickyIP (sample_env []) id \<lparr>t1 = 6, t2 = 7, tf = 8, t3 = 9, t4 = 10\<rparr> sample_acct ''tok'' ''example.com'' q
      = Some (([], True), q)"
proof -
  have "seconds 300 = 300000000000" by (simp add: seconds_def)
  then show ?thesis
    by (intro sticky_pins_nil)
      (simp_all add: sample_proxy_def sample_config_def poolForPick_def)
qed

text \<open>The sessions' part of the state is independent of the pick's part.\<close>

lemma proxy_ok_sessions:
  "proxy_ok (p\<lparr>px_sessions := ss, px_stats := (px_stats p)\<lparr>SessionsCur := a\<rparr>\<rparr>) = proxy_ok p"
  "proxy_ok (p\<lparr>px_sessions := ss, px_stats := (px_stats p)\<lparr>SessionsCur := a, SessionsTot := b\<rparr>\<rparr>) = proxy_ok p"
  by (simp_all add: proxy_ok_def cycles_fit_def streams_ok_def ring_wf_def fit_entry_def)

lemma proxy_ok_check: "sticky_check acct key t u p = (r, q) \<Longrightarrow> proxy_ok p \<Longrightarrow> proxy_ok q"
  by (auto simp: sticky_check_def dropSessionLocked_def proxy_ok_sessions split: option.splits if_splits)

lemma proxy_ok_store: "sticky_store acct key x t u p = (y, q) \<Longrightarrow> proxy_ok p \<Longrightarrow> proxy_ok q"
  by (auto simp: sticky_store_def put_session_def proxy_ok_sessions split: option.splits)

definition sessions_in :: "pool \<Rightarrow> proxy \<Rightarrow> bool" where
  "sessions_in pl p \<longleftrightarrow>
     list_all (\<lambda>(k, s). in_prefix (nat (p_bits pl)) (p_prefix pl) (ses_ip s)) (px_sessions p)"

lemma set_alist_subset:
  "set (AList.update k v xs) \<subseteq> insert (k, v) (set xs)" "set (AList.delete k xs) \<subseteq> set xs"
  by (induction xs) (auto split: if_splits)

lemma live_session_in:
  "sessions_in pl p \<Longrightarrow> live_session acct key t p = Some s \<Longrightarrow>
     in_prefix (nat (p_bits pl)) (p_prefix pl) (ses_ip s)"
  by (fastforce simp: live_session_def sessions_in_def list_all_iff split: option.splits if_splits
      dest: map_of_SomeD)

lemma sessions_in_put:
  "sessions_in pl p \<Longrightarrow> in_prefix (nat (p_bits pl)) (p_prefix pl) x \<Longrightarrow> sessions_in pl (put_session u x key t p)"
  using set_alist_subset(1)[of key _ "px_sessions p"]
  by (fastforce simp: sessions_in_def put_session_def list_all_iff)

lemma sessions_in_drop: "sessions_in pl p \<Longrightarrow> sessions_in pl (dropSessionLocked key p)"
  using set_alist_subset(2)[of key "px_sessions p"]
  by (fastforce simp: sessions_in_def dropSessionLocked_def list_all_iff)

text \<open>A static pool and nothing that overrides it.\<close>

definition static_pool :: "pool \<Rightarrow> proxy \<Rightarrow> bool" where
  "static_pool pl p \<longleftrightarrow> px_pool p = Some pl \<and> px_hosts p = [] \<and> \<not> AutoPool (px_cfg p)
     \<and> FixedSource (px_cfg p) = '''' \<and> SourceIface (px_cfg p) = ''''"

lemma freshIP_static:
  assumes "proxy_ok p" "rng_ok rng" "static_pool pl p"
  obtains x q where "freshIP env rng now acct dest p = Some (x, q)" "proxy_ok q" "sess_frame p q"
    "in_prefix (nat (p_bits pl)) (p_prefix pl) x"
proof -
  have pp: "px_hosts p = []" "poolForPick env p = (Some pl, '''')"
    using assms(3) by (simp_all add: static_pool_def poolForPick_def)
  show ?thesis
  proof (cases "a_size acct = 0")
    case True
    show ?thesis by (rule freshIP_cycle[OF assms(1,2) pp True, of now dest])
        (use that freshIP_frame in blast)
  next
    case False
    then have "0 < a_size acct" by (simp add: word_gt_0)
    from freshIP_keyed[OF assms(1) pp this] that freshIP_frame show ?thesis by metis
  qed
qed

text \<open>Every source address a request gets is in the configured prefix: with a static pool and no
  override, \<open>pickSource\<close> always returns, with an address of the pool's prefix, for sticky and for
  rotating requests of any account, and this stays so for all later requests.\<close>

theorem pickSource_in_prefix:
  assumes "proxy_ok p" "rng_ok rng" "static_pool pl p" "sessions_in pl p"
  shows "\<exists>x q. pickSource env rng clk acct key dest p = Some (x, q)
    \<and> in_prefix (nat (p_bits pl)) (p_prefix pl) x \<and> proxy_ok q \<and> sessions_in pl q"
proof (cases "key = ''''")
  case True
  obtain x q where "freshIP env rng (tf clk) acct dest p = Some (x, q)" "proxy_ok q" "sess_frame p q"
    "in_prefix (nat (p_bits pl)) (p_prefix pl) x"
    by (rule freshIP_static[OF assms(1-3)])
  then show ?thesis using True assms(3,4)
    by (auto simp: pickSource_def static_pool_def sess_frame_def sessions_in_def)
next
  case False
  have ps: "pickSource env rng clk acct key dest p
      = (case stickyIP env rng clk acct key dest p of None \<Rightarrow> None | Some ((x, ok), q) \<Rightarrow>
           if ok then Some (x, q) else freshIP env rng (tf clk) acct dest q)"
    using False assms(3) by (simp add: pickSource_def static_pool_def)
  obtain r p1 where c: "sticky_check acct key (t1 clk) (t2 clk) p = (r, p1)" by fastforce
  have ok1: "proxy_ok p1" using proxy_ok_check[OF c assms(1)] .
  have s1: "sessions_in pl p1" "static_pool pl p1"
    using c assms(3,4) sessions_in_drop
    by (auto simp: sticky_check_def static_pool_def dropSessionLocked_def split: option.splits if_splits)
  show ?thesis
  proof (cases r)
    case (Some x)
    then have "in_prefix (nat (p_bits pl)) (p_prefix pl) x"
      using c live_session_in[OF assms(4)] by (auto simp: sticky_check_def split: option.splits)
    then show ?thesis using Some c ok1 s1 by (simp add: ps stickyIP_def)
  next
    case None
    obtain x p2 where f: "freshIP env rng (tf clk) acct dest p1 = Some (x, p2)" "proxy_ok p2"
      "sess_frame p1 p2" "in_prefix (nat (p_bits pl)) (p_prefix pl) x"
      by (rule freshIP_static[OF ok1 assms(2) s1(2)])
    have s2: "sessions_in pl p2" using s1(1) f(3) by (simp add: sessions_in_def sess_frame_def)
    obtain y q where st: "sticky_store acct key x (t3 clk) (t4 clk) p2 = (y, q)" by fastforce
    then have "in_prefix (nat (p_bits pl)) (p_prefix pl) y \<and> sessions_in pl q"
      using live_session_in[OF s2] sessions_in_put[OF s2 f(4)] s2 f(4)
      by (auto simp: sticky_store_def split: option.splits)
    then show ?thesis using None c f(1) st proxy_ok_store[OF st f(2)]
      by (simp add: ps stickyIP_def)
  qed
qed

theorem pickSource_in_prefix_witness:
  "\<exists>x q. pickSource (sample_env []) rev \<lparr>t1 = 1, t2 = 2, tf = 3, t3 = 4, t4 = 5\<rparr> sample_acct ''tok''
      ''example.org'' pool_proxy = Some (x, q) \<and> in_prefix 64 (0x20 # replicate 15 0) x"
proof -
  have "static_pool sample_pool pool_proxy" "sessions_in sample_pool pool_proxy"
    by (simp_all add: static_pool_def sessions_in_def pool_proxy_def sample_proxy_def sample_config_def)
  from pickSource_in_prefix[OF pool_proxy_ok(1) rng_ok_id(2) this, of "sample_env []"
      "\<lparr>t1 = 1, t2 = 2, tf = 3, t3 = 4, t4 = 5\<rparr>" sample_acct "''tok''" "''example.org''"]
  show ?thesis by (auto simp: sample_pool_def)
qed

end
