(* ===== verification/Dial.thy ===== *)
theory Dial
  imports Sessions
begin

text \<open>
  \<open>internal/proxy/proxy.go\<close>, lines 479-559: claiming the source, request logging and the dial of an
  upstream.  The network is the record \<open>netw\<close>: what the \<open>n\<close>-th dial attempt of a call answers for a
  dialer, a network and an address, what the resolver answers, and whether the context is done after
  the \<open>n\<close>-th attempt.  An outcome None is a run that does not return: an eviction loop without end or a
  dial-error bucket that does not exist.
\<close>

section \<open>Data\<close>

record dialer =
  d_local :: "ip option"
  d_timeout :: int

record 'c netw =
  nw_dial :: "nat \<Rightarrow> dialer \<Rightarrow> string \<Rightarrow> string \<Rightarrow> go_error + 'c"
  nw_lookup :: "string \<Rightarrow> go_error + ip list"
  nw_ctx :: "nat \<Rightarrow> go_error option"

datatype dial_error = BadAddr | LookupFailed go_error | DialFailed go_error | CtxDone go_error

record log_line =
  lg_user :: string
  lg_session :: string
  lg_method :: string
  lg_host :: string
  lg_status :: int
  lg_src :: ip
  lg_ms :: int

section \<open>Operations\<close>

definition ensureClaimed :: "exec \<Rightarrow> int \<Rightarrow> ip \<Rightarrow> netenv \<times> proxy \<Rightarrow> netenv \<times> proxy" where
  "ensureClaimed exec now src s =
     (let (env, p) = s; (err, env, c) = EnsureClaimed exec now src (env, px_claimer p);
          p = p\<lparr>px_claimer := c\<rparr>; st = px_stats p
      in (env, if err \<noteq> None then p\<lparr>px_stats := st\<lparr>ClaimsFail := ClaimsFail st + 1\<rparr>\<rparr>
               else p\<lparr>px_stats := st\<lparr>ClaimsOK := ClaimsOK st + 1\<rparr>\<rparr>))"

text \<open>\<open>d.Milliseconds()\<close>: division truncates towards zero.\<close>

definition milliseconds :: "int \<Rightarrow> int" where
  "milliseconds d = (if d \<ge> 0 then d div 1000000 else - ((- d) div 1000000))"

text \<open>The lines written, none or one.\<close>

definition logReq ::
  "proxy \<Rightarrow> paccount \<Rightarrow> string \<Rightarrow> string \<Rightarrow> string \<Rightarrow> int \<Rightarrow> ip \<Rightarrow> int \<Rightarrow> log_line list" where
  "logReq p acct sessionKey method host status src d =
     (if \<not> LogRequests (px_cfg p) then []
      else [\<lparr>lg_user = a_username acct, lg_session = sessionKey, lg_method = method, lg_host = host,
             lg_status = status, lg_src = src, lg_ms = milliseconds d\<rparr>])"

definition count_dial_err :: "go_error \<Rightarrow> proxy \<Rightarrow> proxy option" where
  "count_dial_err e p = map_option (\<lambda>st. p\<lparr>px_stats := st\<rparr>) (AddDialErr (px_stats p) e)"

text \<open>A single dial, its failure counted.\<close>

definition dial_once ::
  "'c netw \<Rightarrow> nat \<Rightarrow> dialer \<Rightarrow> string \<Rightarrow> string \<Rightarrow> proxy \<Rightarrow> ((dial_error + 'c) \<times> proxy) option" where
  "dial_once nw n d network addr p =
     (case nw_dial nw n d network addr of
        Inr c \<Rightarrow> Some (Inr c, p)
      | Inl e \<Rightarrow> map_option (\<lambda>p. (Inl (DialFailed e), p)) (count_dial_err e p))"

text \<open>The loop over the resolved addresses: a result that ends the call, or None to fall through;
  the number of attempts made.\<close>

fun dial_v6 ::
  "'c netw \<Rightarrow> dialer \<Rightarrow> string \<Rightarrow> nat \<Rightarrow> ip list \<Rightarrow> proxy
   \<Rightarrow> ((dial_error + 'c) option \<times> nat \<times> proxy) option" where
  "dial_v6 nw d6 port n [] p = Some (None, n, p)"
| "dial_v6 nw d6 port n (x # xs) p =
     (if To4 x = [] \<and> To16 x \<noteq> []
      then (case nw_dial nw n d6 ''tcp6'' (JoinHostPort (IP_String x) port) of
              Inr c \<Rightarrow> Some (Some (Inr c), n + 1, p)
            | Inl e \<Rightarrow>
                (case count_dial_err e p of
                   None \<Rightarrow> None
                 | Some p \<Rightarrow>
                     (case nw_ctx nw n of
                        Some ce \<Rightarrow> Some (Some (Inl (CtxDone ce)), n + 1, p)
                      | None \<Rightarrow> dial_v6 nw d6 port (n + 1) xs p)))
      else dial_v6 nw d6 port n xs p)"

text \<open>What a dial asks its surroundings: how to lower-case non-ASCII text, the order of \<open>range\<close>, the
  clock, the \<open>ip\<close> command, and the clock reading of the claim.\<close>

record surround =
  sr_lower :: "string \<Rightarrow> string"
  sr_rng :: "table \<Rightarrow> table"
  sr_clock :: clock
  sr_exec :: exec
  sr_claim :: int

definition dialTarget ::
  "surround \<Rightarrow> 'c netw \<Rightarrow> string \<Rightarrow> string \<Rightarrow> paccount \<Rightarrow> string \<Rightarrow> netenv \<times> proxy
   \<Rightarrow> ((dial_error + 'c) \<times> netenv \<times> proxy) option" where
  "dialTarget sr nw network addr acct sessionKey s =
     (case SplitHostPort addr of
        None \<Rightarrow> Some (Inl BadAddr, s)
      | Some (host, port) \<Rightarrow>
          (case pickSource (fst s) (sr_rng sr) (sr_clock sr) acct sessionKey
                  (normalizeHost (sr_lower sr) host) (snd s) of
             None \<Rightarrow> None
           | Some (src, p) \<Rightarrow>
               (let (env, p) = ensureClaimed (sr_exec sr) (sr_claim sr) src (fst s, p);
                    d6 = \<lparr>d_local = Some src, d_timeout = seconds (DialTimeout (px_cfg p))\<rparr>;
                    d4 = \<lparr>d_local = None, d_timeout = seconds (DialTimeout (px_cfg p))\<rparr>;
                    x = ParseIP host
                in if x \<noteq> []
                   then map_option (\<lambda>(r, p). (r, env, p))
                     (if To4 x = [] \<and> To16 x \<noteq> [] then dial_once nw 0 d6 ''tcp6'' addr p
                      else dial_once nw 0 d4 ''tcp4'' addr p)
                   else (case nw_lookup nw host of
                           Inl e \<Rightarrow> Some (Inl (LookupFailed e), env, p)
                         | Inr ips \<Rightarrow>
                             (case dial_v6 nw d6 port 0 ips p of
                                None \<Rightarrow> None
                              | Some (Some r, n, p) \<Rightarrow> Some (r, env, p)
                              | Some (None, n, p) \<Rightarrow>
                                  map_option (\<lambda>(r, p). (r, env, p)) (dial_once nw n d4 ''tcp4'' addr p))))))"

section \<open>Counting failures\<close>

text \<open>The dial errors counted so far, over all buckets.\<close>

definition dial_total :: "proxy \<Rightarrow> u64" where
  "dial_total p = sum_list (map (dial_count (px_stats p)) all_reasons)"

text \<open>Counting a failure changes the buckets only.\<close>

definition dial_frame :: "proxy \<Rightarrow> proxy \<Rightarrow> bool" where
  "dial_frame p q \<longleftrightarrow> (\<exists>d. q = p\<lparr>px_stats := (px_stats p)\<lparr>DialErrors := d\<rparr>\<rparr>)"

lemma dial_frame_refl [simp]: "dial_frame p p"
  unfolding dial_frame_def by (rule exI[of _ "DialErrors (px_stats p)"]) simp

lemma dial_frame_trans: "dial_frame p q \<Longrightarrow> dial_frame q r \<Longrightarrow> dial_frame p r"
  by (auto simp: dial_frame_def)

lemma proxy_ok_dial: "dial_frame p q \<Longrightarrow> proxy_ok q = proxy_ok p"
  by (auto simp: dial_frame_def proxy_ok_def cycles_fit_def streams_ok_def ring_wf_def fit_entry_def)

lemma proxy_ok_claim: "proxy_ok (snd (ensureClaimed exec now src (env, p))) = proxy_ok p"
  by (simp add: ensureClaimed_def Let_def proxy_ok_def cycles_fit_def streams_ok_def ring_wf_def
      fit_entry_def split: prod.splits)

lemma count_dial_err_ok:
  assumes "stats_wf (px_stats p)"
  obtains q where "count_dial_err e p = Some q" "stats_wf (px_stats q)" "dial_total q = dial_total p + 1"
    "dial_frame p q"
proof -
  obtain t where t: "AddDialErr (px_stats p) e = Some t" "stats_wf t"
    "\<And>r. dial_count t r = (if r = ClassifyDialErr e then dial_count (px_stats p) r + 1 else dial_count (px_stats p) r)"
    using AddDialErr_ok[OF assms, of e] by blast
  have "dial_total (p\<lparr>px_stats := t\<rparr>) = dial_total p + 1"
    by (cases "ClassifyDialErr e") (simp_all add: dial_total_def all_reasons_def t(3))
  moreover have "\<exists>d. t = (px_stats p)\<lparr>DialErrors := d\<rparr>"
    using t(1) by (auto simp: AddDialErr_def split: option.splits)
  then have "dial_frame p (p\<lparr>px_stats := t\<rparr>)" by (auto simp: dial_frame_def)
  ultimately show ?thesis using t by (intro that[of "p\<lparr>px_stats := t\<rparr>"]) (simp_all add: count_dial_err_def)
qed

lemma dial_v6_ok:
  "stats_wf (px_stats p) \<Longrightarrow> \<exists>r n' q. dial_v6 nw d6 port n xs p = Some (r, n', q) \<and> stats_wf (px_stats q)
     \<and> dial_frame p q \<and> n \<le> n' \<and> dial_total q = dial_total p + of_nat (n' - n) - (case r of Some (Inr c) \<Rightarrow> 1 | _ \<Rightarrow> 0)
     \<and> (\<forall>c. r = Some (Inr c) \<longrightarrow> n < n' \<and> (\<exists>x \<in> set xs. To4 x = []
          \<and> nw_dial nw (n' - 1) d6 ''tcp6'' (JoinHostPort (IP_String x) port) = Inr c))"
proof (induction nw d6 port n xs p rule: dial_v6.induct)
  case (2 nw d6 port n x xs p)
  show ?case
  proof (cases "To4 x = [] \<and> To16 x \<noteq> []")
    case v6: True
    show ?thesis
    proof (cases "nw_dial nw n d6 ''tcp6'' (JoinHostPort (IP_String x) port)")
      case (Inr c)
      then show ?thesis using v6 "2.prems" by simp
    next
      case (Inl e)
      obtain q where q: "count_dial_err e p = Some q" "stats_wf (px_stats q)" "dial_total q = dial_total p + 1"
        "dial_frame p q" by (rule count_dial_err_ok[OF "2.prems"])
      show ?thesis
      proof (cases "nw_ctx nw n")
        case (Some ce)
        then show ?thesis using v6 Inl q by simp
      next
        case None
        from "2.IH"(1)[OF v6 Inl q(1) None q(2)] obtain r n' q' where
          r: "dial_v6 nw d6 port (n + 1) xs q = Some (r, n', q')" "stats_wf (px_stats q')" "dial_frame q q'" "n + 1 \<le> n'"
            "dial_total q' = dial_total q + of_nat (n' - (n + 1)) - (case r of Some (Inr c) \<Rightarrow> 1 | _ \<Rightarrow> 0)"
            "\<forall>c. r = Some (Inr c) \<longrightarrow> n + 1 < n' \<and> (\<exists>x \<in> set xs. To4 x = []
              \<and> nw_dial nw (n' - 1) d6 ''tcp6'' (JoinHostPort (IP_String x) port) = Inr c)" by blast
        have "dial_v6 nw d6 port n (x # xs) p = Some (r, n', q')" using v6 Inl q(1) None r(1) by simp
        moreover have "n' - n = Suc (n' - (n + 1))" using r(4) by simp
        then have "of_nat (n' - n) = (1 :: u64) + of_nat (n' - (n + 1))" by (simp only: of_nat_Suc)
        ultimately show ?thesis using r q dial_frame_trans[OF q(4) r(3)]
          by (intro exI[of _ r] exI[of _ n'] exI[of _ q']) auto
      qed
    qed
  next
    case False
    from "2.IH"(2)[OF False "2.prems"] show ?thesis using False by auto
  qed
qed simp

section \<open>A dial returns\<close>

lemma freshIP_returns:
  assumes "proxy_ok p" "rng_ok rng"
  obtains x q where "freshIP env rng now acct dest p = Some (x, q)" "proxy_ok q" "sess_frame p q"
proof (cases "px_hosts p = []")
  case False
  have "proxy_ok (p\<lparr>hostPick := n\<rparr>) = proxy_ok p" for n
    by (simp add: proxy_ok_def cycles_fit_def streams_ok_def ring_wf_def fit_entry_def)
  then have "proxy_ok (p\<lparr>hostPick := hostPick p + 1\<rparr>)" using assms(1) by blast
  moreover have "freshIP env rng now acct dest p
      = Some (px_hosts p ! unat ((hostPick p + 1) mod of_nat (length (px_hosts p))), p\<lparr>hostPick := hostPick p + 1\<rparr>)"
    using False by (simp add: freshIP_def Let_def)
  moreover have "sess_frame p (p\<lparr>hostPick := hostPick p + 1\<rparr>)" by (simp add: sess_frame_def)
  ultimately show ?thesis using that by blast
next
  case True
  obtain pl suffix where pp: "poolForPick env p = (pl, suffix)" by fastforce
  show ?thesis
  proof (cases pl)
    case None
    then show ?thesis using True pp assms(1) by (intro that[of "[]" p]) (simp_all add: freshIP_def)
  next
    case (Some pl')
    have pp': "poolForPick env p = (Some pl', suffix)" using pp Some by simp
    show ?thesis
    proof (cases "a_size acct = 0")
      case z: True
      show ?thesis by (rule freshIP_cycle[OF assms True pp' z, of now dest])
          (use that freshIP_frame in blast)
    next
      case False
      then have "0 < a_size acct" by (simp add: word_gt_0)
      from freshIP_keyed[OF assms(1) True pp' this] that freshIP_frame show ?thesis by metis
    qed
  qed
qed

lemma sticky_frames:
  "sticky_check acct key t u p = (r, q) \<Longrightarrow> px_cfg q = px_cfg p \<and> DialErrors (px_stats q) = DialErrors (px_stats p)"
  "sticky_store acct key x t u p = (y, q) \<Longrightarrow> px_cfg q = px_cfg p \<and> DialErrors (px_stats q) = DialErrors (px_stats p)"
  by (auto simp: sticky_check_def dropSessionLocked_def sticky_store_def put_session_def
      split: option.splits if_splits)

lemma pickSource_returns:
  assumes "proxy_ok p" "rng_ok rng"
  obtains x q where "pickSource env rng clk acct key dest p = Some (x, q)" "proxy_ok q"
    "px_cfg q = px_cfg p" "DialErrors (px_stats q) = DialErrors (px_stats p)"
proof -
  obtain x1 q1 where f1: "freshIP env rng (tf clk) acct dest p = Some (x1, q1)" "proxy_ok q1" "sess_frame p q1"
    by (rule freshIP_returns[OF assms])
  obtain r p1 where c: "sticky_check acct key (t1 clk) (t2 clk) p = (r, p1)" by fastforce
  note p1 = proxy_ok_check[OF c assms(1)] sticky_frames(1)[OF c]
  obtain x2 p2 where f2: "freshIP env rng (tf clk) acct dest p1 = Some (x2, p2)" "proxy_ok p2" "sess_frame p1 p2"
    by (rule freshIP_returns[OF p1(1) assms(2)])
  obtain y p3 where s: "sticky_store acct key x2 (t3 clk) (t4 clk) p2 = (y, p3)" by fastforce
  note p3 = proxy_ok_store[OF s f2(2)] sticky_frames(2)[OF s]
  have st: "stickyIP env rng clk acct key dest p
      = (case r of Some x \<Rightarrow> Some ((x, True), p1) | None \<Rightarrow> Some ((y, True), p3))"
    using c f2(1) s by (simp add: stickyIP_def split: option.splits)
  have "\<exists>x q. pickSource env rng clk acct key dest p = Some (x, q) \<and> proxy_ok q
      \<and> px_cfg q = px_cfg p \<and> DialErrors (px_stats q) = DialErrors (px_stats p)"
    using f1 f2(3) p1 p3 assms(1)
    by (auto simp: pickSource_def st sess_frame_def split: option.splits)
  then show ?thesis using that by blast
qed

lemma ensureClaimed_keeps:
  "px_cfg (snd (ensureClaimed exec now src (env, p))) = px_cfg p"
  "DialErrors (px_stats (snd (ensureClaimed exec now src (env, p)))) = DialErrors (px_stats p)"
  by (simp_all add: ensureClaimed_def Let_def split: prod.splits)

lemma stats_wf_cong: "DialErrors s = DialErrors t \<Longrightarrow> stats_wf s = stats_wf t"
  by (simp add: stats_wf_def)

lemma dial_once_ok:
  assumes "stats_wf (px_stats p)"
  obtains q where "dial_once nw n d network addr p
      = Some (case nw_dial nw n d network addr of Inl e \<Rightarrow> Inl (DialFailed e) | Inr c \<Rightarrow> Inr c, q)"
    "stats_wf (px_stats q)" "dial_frame p q"
proof (cases "nw_dial nw n d network addr")
  case (Inl e)
  obtain q where "count_dial_err e p = Some q" "stats_wf (px_stats q)" "dial_frame p q"
    by (rule count_dial_err_ok[OF assms, of e])
  then show ?thesis using Inl by (intro that[of q]) (simp_all add: dial_once_def)
next
  case (Inr c)
  then show ?thesis using assms by (intro that[of p]) (simp_all add: dial_once_def)
qed

lemma dialTarget_cases:
  assumes "proxy_ok p" "stats_wf (px_stats p)" "rng_ok (sr_rng sr)" "SplitHostPort addr = Some (host, port)"
  obtains src p1 r env' q where
    "pickSource env (sr_rng sr) (sr_clock sr) acct key (normalizeHost (sr_lower sr) host) p = Some (src, p1)"
    "dialTarget sr nw network addr acct key (env, p) = Some (r, env', q)" "stats_wf (px_stats q)"
    "proxy_ok q" "\<And>c. r = Inr c \<Longrightarrow>
       (\<exists>n a. nw_dial nw n \<lparr>d_local = Some src, d_timeout = seconds (DialTimeout (px_cfg p))\<rparr> ''tcp6'' a = Inr c)
       \<or> (ParseIP host = [] \<or> To4 (ParseIP host) \<noteq> [])
         \<and> (\<exists>n. nw_dial nw n \<lparr>d_local = None, d_timeout = seconds (DialTimeout (px_cfg p))\<rparr> ''tcp4'' addr = Inr c)"
proof -
  obtain src p1 where ps: "pickSource env (sr_rng sr) (sr_clock sr) acct key (normalizeHost (sr_lower sr) host) p = Some (src, p1)"
    "px_cfg p1 = px_cfg p" "DialErrors (px_stats p1) = DialErrors (px_stats p)" "proxy_ok p1"
    by (rule pickSource_returns[OF assms(1,3)])
  obtain env' p2 where ec: "ensureClaimed (sr_exec sr) (sr_claim sr) src (env, p1) = (env', p2)" by fastforce
  have p2: "px_cfg p2 = px_cfg p" "stats_wf (px_stats p2)"
    using ensureClaimed_keeps[of "sr_exec sr" "sr_claim sr" src env p1] ec ps(2,3) assms(2)
      stats_wf_cong[of "px_stats p2" "px_stats p"] by simp_all
  have ok2: "proxy_ok p2"
    using proxy_ok_claim[of "sr_exec sr" "sr_claim sr" src env p1] ec ps(4) by simp
  let ?d6 = "\<lparr>d_local = Some src, d_timeout = seconds (DialTimeout (px_cfg p))\<rparr>"
  let ?d4 = "\<lparr>d_local = None, d_timeout = seconds (DialTimeout (px_cfg p))\<rparr>"
  let ?ok = "\<lambda>r. \<forall>c. r = Inr c \<longrightarrow> (\<exists>n a. nw_dial nw n ?d6 ''tcp6'' a = Inr c)
       \<or> (ParseIP host = [] \<or> To4 (ParseIP host) \<noteq> []) \<and> (\<exists>n. nw_dial nw n ?d4 ''tcp4'' addr = Inr c)"
  have "\<exists>r q. dialTarget sr nw network addr acct key (env, p) = Some (r, env', q) \<and> stats_wf (px_stats q)
      \<and> proxy_ok q \<and> ?ok r"
  proof (cases "ParseIP host = []")
    case False
    have "length (ParseIP host) = 16" using ParseIP_length False by blast
    then have t16: "To16 (ParseIP host) \<noteq> []" by (auto simp: To16_def)
    show ?thesis
    proof (cases "To4 (ParseIP host) = []")
      case v6: True
      obtain q where q: "dial_once nw 0 ?d6 ''tcp6'' addr p2
        = Some (case nw_dial nw 0 ?d6 ''tcp6'' addr of Inl e \<Rightarrow> Inl (DialFailed e) | Inr c \<Rightarrow> Inr c, q)"
        "stats_wf (px_stats q)" "dial_frame p2 q" by (rule dial_once_ok[OF p2(2)])
      have "dialTarget sr nw network addr acct key (env, p)
        = Some (case nw_dial nw 0 ?d6 ''tcp6'' addr of Inl e \<Rightarrow> Inl (DialFailed e) | Inr c \<Rightarrow> Inr c, env', q)"
        using False v6 t16 assms(4) ps(1) ec p2(1) q(1) by (simp add: dialTarget_def)
      then show ?thesis using q(2) ok2 proxy_ok_dial[OF q(3)] by (auto split: sum.splits)
    next
      case v4: False
      obtain q where q: "dial_once nw 0 ?d4 ''tcp4'' addr p2
        = Some (case nw_dial nw 0 ?d4 ''tcp4'' addr of Inl e \<Rightarrow> Inl (DialFailed e) | Inr c \<Rightarrow> Inr c, q)"
        "stats_wf (px_stats q)" "dial_frame p2 q" by (rule dial_once_ok[OF p2(2)])
      have "dialTarget sr nw network addr acct key (env, p)
        = Some (case nw_dial nw 0 ?d4 ''tcp4'' addr of Inl e \<Rightarrow> Inl (DialFailed e) | Inr c \<Rightarrow> Inr c, env', q)"
        using False v4 assms(4) ps(1) ec p2(1) q(1) by (simp add: dialTarget_def)
      then show ?thesis using q(2) ok2 proxy_ok_dial[OF q(3)] v4 by (auto split: sum.splits)
    qed
  next
    case True
    show ?thesis
    proof (cases "nw_lookup nw host")
      case (Inl e)
      then show ?thesis using True assms(4) ps(1) ec p2 ok2 by (simp add: dialTarget_def)
    next
      case (Inr ips)
      from dial_v6_ok[OF p2(2), of nw ?d6 port 0 ips] obtain r n q where
        v: "dial_v6 nw ?d6 port 0 ips p2 = Some (r, n, q)" "stats_wf (px_stats q)" "dial_frame p2 q"
          "\<forall>c. r = Some (Inr c) \<longrightarrow> (\<exists>x. nw_dial nw (n - 1) ?d6 ''tcp6'' (JoinHostPort (IP_String x) port) = Inr c)"
        by blast
      show ?thesis
      proof (cases r)
        case (Some a)
        then have "dialTarget sr nw network addr acct key (env, p) = Some (a, env', q)"
          using v(1) True Inr assms(4) ps(1) ec p2(1) by (simp add: dialTarget_def)
        moreover have "a = Inr c \<Longrightarrow> \<exists>n b. nw_dial nw n ?d6 ''tcp6'' b = Inr c" for c
          using v(4) Some by blast
        ultimately show ?thesis using v(2) ok2 proxy_ok_dial[OF v(3)] by blast
      next
        case None
        obtain q' where q': "dial_once nw n ?d4 ''tcp4'' addr q
          = Some (case nw_dial nw n ?d4 ''tcp4'' addr of Inl e \<Rightarrow> Inl (DialFailed e) | Inr c \<Rightarrow> Inr c, q')"
          "stats_wf (px_stats q')" "dial_frame q q'" by (rule dial_once_ok[OF v(2)])
        have "dialTarget sr nw network addr acct key (env, p)
          = Some (case nw_dial nw n ?d4 ''tcp4'' addr of Inl e \<Rightarrow> Inl (DialFailed e) | Inr c \<Rightarrow> Inr c, env', q')"
          using None v(1) True Inr assms(4) ps(1) ec p2(1) q'(1) by (simp add: dialTarget_def)
        then show ?thesis using q'(2) True ok2 proxy_ok_dial[OF q'(3)] proxy_ok_dial[OF v(3)]
          by (auto split: sum.splits)
      qed
    qed
  qed
  then show ?thesis using ps(1) that by blast
qed

section \<open>What a dial leaves alone\<close>

text \<open>The configuration, the pool, the accounts and the traffic counters; and a token has one session
  still.  After the pick the sessions stay as they are.\<close>

definition same_site :: "proxy \<Rightarrow> proxy \<Rightarrow> bool" where
  "same_site p q \<longleftrightarrow> px_cfg q = px_cfg p \<and> px_accounts q = px_accounts p \<and> px_pool q = px_pool p
     \<and> px_hosts q = px_hosts p \<and> traffic (px_stats q) = traffic (px_stats p)
     \<and> (keys_ok (px_sessions p) \<longrightarrow> keys_ok (px_sessions q))"

definition after_pick :: "proxy \<Rightarrow> proxy \<Rightarrow> bool" where
  "after_pick p q \<longleftrightarrow> same_site p q \<and> px_sessions q = px_sessions p"

lemma after_pick_trans: "after_pick p q \<Longrightarrow> after_pick q r \<Longrightarrow> after_pick p r"
  by (simp add: after_pick_def same_site_def)

lemma after_pick_refl [simp]: "after_pick p p"
  by (simp add: after_pick_def same_site_def)

lemma same_site_refl [simp]: "same_site p p"
  by (simp add: same_site_def)

lemma same_site_trans: "same_site p q \<Longrightarrow> same_site q r \<Longrightarrow> same_site p r"
  by (simp add: same_site_def)

lemma freshIP_site: "freshIP env rng now acct dest p = Some (x, q) \<Longrightarrow> same_site p q"
  by (drule freshIP_frame) (simp add: sess_frame_def same_site_def)

lemma sticky_site:
  "sticky_check acct key t u p = (r, q) \<Longrightarrow> same_site p q"
  "sticky_store acct key x t u p = (y, q) \<Longrightarrow> same_site p q"
  by (auto simp: sticky_check_def dropSessionLocked_def sticky_store_def put_session_def same_site_def
      keys_ok_delete keys_ok_update split: option.splits if_splits)

lemma stickyIP_site: "stickyIP env rng clk acct key dest p = Some (r, q) \<Longrightarrow> same_site p q"
  by (auto simp: stickyIP_def split: prod.splits option.splits
      dest!: sticky_site freshIP_site intro: same_site_trans)

lemma pickSource_site: "pickSource env rng clk acct key dest p = Some (x, q) \<Longrightarrow> same_site p q"
  by (auto simp: pickSource_def split: prod.splits option.splits if_splits
      dest!: stickyIP_site freshIP_site intro: same_site_trans)

lemma ensureClaimed_site: "ensureClaimed exec now src (env, p) = (env', q) \<Longrightarrow> after_pick p q"
  by (auto simp: ensureClaimed_def Let_def after_pick_def same_site_def split: prod.splits if_splits)

lemma count_dial_err_site: "count_dial_err e p = Some q \<Longrightarrow> after_pick p q"
  by (auto simp: count_dial_err_def AddDialErr_def after_pick_def same_site_def split: option.splits)

lemma dial_once_site: "dial_once nw n d network addr p = Some (r, q) \<Longrightarrow> after_pick p q"
  by (auto simp: dial_once_def split: sum.splits dest: count_dial_err_site)

lemma dial_v6_site: "dial_v6 nw d port n xs p = Some (r, m, q) \<Longrightarrow> after_pick p q"
proof (induction nw d port n xs p rule: dial_v6.induct)
  case (2 nw d port n x xs p)
  then show ?case
    by (auto split: if_splits sum.splits option.splits dest: count_dial_err_site
        intro: after_pick_trans[OF count_dial_err_site])
qed simp

lemma dialTarget_after_pick:
  assumes "dialTarget sr nw network addr acct key (env, p) = Some (r, env', q)" "SplitHostPort addr = Some (host, port)"
    "pickSource env (sr_rng sr) (sr_clock sr) acct key (normalizeHost (sr_lower sr) host) p = Some (src, p1)"
  shows "after_pick p1 q"
proof -
  obtain env2 p2 where ec: "ensureClaimed (sr_exec sr) (sr_claim sr) src (env, p1) = (env2, p2)" by fastforce
  have "after_pick p2 q"
    using assms by (auto simp: dialTarget_def ec Let_def split: if_splits sum.splits option.splits
        dest!: dial_once_site dial_v6_site intro: after_pick_trans)
  with ensureClaimed_site[OF ec] show ?thesis by (rule after_pick_trans)
qed

lemma dialTarget_site:
  assumes "dialTarget sr nw network addr acct key (env, p) = Some (r, env', q)"
  shows "same_site p q"
proof (cases "SplitHostPort addr")
  case (Some hp)
  obtain host port where hp: "hp = (host, port)" by fastforce
  from assms obtain src p1 where ps:
    "pickSource env (sr_rng sr) (sr_clock sr) acct key (normalizeHost (sr_lower sr) host) p = Some (src, p1)"
    by (auto simp: dialTarget_def Some hp split: option.splits)
  from dialTarget_after_pick[OF assms Some[unfolded hp] ps] pickSource_site[OF ps] show ?thesis
    unfolding after_pick_def by (blast intro: same_site_trans)
qed (use assms in \<open>simp add: dialTarget_def\<close>)

section \<open>Properties\<close>

text \<open>C5. A dial always returns, with an error or a connection, and keeps the invariants.  Every connection
  over IPv6 is dialled from the picked source address; a connection without it is an IPv4 dial of
  the requested address, and never one to an IPv6 literal.\<close>

theorem dialTarget_source:
  assumes "proxy_ok p" "stats_wf (px_stats p)" "rng_ok (sr_rng sr)"
  shows "\<exists>r env' q. dialTarget sr nw network addr acct key (env, p) = Some (r, env', q)
    \<and> proxy_ok q \<and> stats_wf (px_stats q)
    \<and> (case SplitHostPort addr of
        None \<Rightarrow> r = Inl BadAddr
      | Some (host, port) \<Rightarrow>
          (case pickSource env (sr_rng sr) (sr_clock sr) acct key (normalizeHost (sr_lower sr) host) p of
             None \<Rightarrow> False
           | Some (src, p1) \<Rightarrow>
               (case r of
                  Inl e \<Rightarrow> True
                | Inr c \<Rightarrow>
                    (\<exists>n a. nw_dial nw n \<lparr>d_local = Some src, d_timeout = seconds (DialTimeout (px_cfg p))\<rparr> ''tcp6'' a = Inr c)
                    \<or> (if ParseIP host \<noteq> [] \<and> To4 (ParseIP host) = [] then False
                       else \<exists>n. nw_dial nw n \<lparr>d_local = None, d_timeout = seconds (DialTimeout (px_cfg p))\<rparr> ''tcp4'' addr = Inr c))))"
proof (cases "SplitHostPort addr")
  case None
  then show ?thesis using assms by (simp add: dialTarget_def)
next
  case (Some hp)
  obtain host port where hp: "SplitHostPort addr = Some (host, port)" using Some by (cases hp) auto
  obtain src p1 r env' q where r:
    "pickSource env (sr_rng sr) (sr_clock sr) acct key (normalizeHost (sr_lower sr) host) p = Some (src, p1)"
    "dialTarget sr nw network addr acct key (env, p) = Some (r, env', q)" "stats_wf (px_stats q)" "proxy_ok q"
    "\<And>c. r = Inr c \<Longrightarrow>
       (\<exists>n a. nw_dial nw n \<lparr>d_local = Some src, d_timeout = seconds (DialTimeout (px_cfg p))\<rparr> ''tcp6'' a = Inr c)
       \<or> (ParseIP host = [] \<or> To4 (ParseIP host) \<noteq> [])
         \<and> (\<exists>n. nw_dial nw n \<lparr>d_local = None, d_timeout = seconds (DialTimeout (px_cfg p))\<rparr> ''tcp4'' addr = Inr c)"
    by (rule dialTarget_cases[OF assms hp, of env acct key nw network]) blast
  show ?thesis
    by (intro exI[of _ r] exI[of _ env'] exI[of _ q] conjI r(2-4))
      (simp add: hp r(1) split: sum.split, use r(5) in blast)
qed

definition sample_surround :: surround where
  "sample_surround = \<lparr>sr_lower = id, sr_rng = rev, sr_clock = \<lparr>t1 = 1, t2 = 2, tf = 3, t3 = 4, t4 = 5\<rparr>,
     sr_exec = sample_exec, sr_claim = 6\<rparr>"

definition sample_netw :: "nat netw" where
  "sample_netw = \<lparr>nw_dial = (\<lambda>n d network addr. Inr n), nw_lookup = (\<lambda>h. Inr []), nw_ctx = (\<lambda>n. None)\<rparr>"

lemma stats_wf_pool_proxy [simp]: "stats_wf (px_stats pool_proxy)"
  by (simp add: pool_proxy_def sample_proxy_def)

theorem dialTarget_source_witness:
  "\<exists>r env' q. dialTarget sample_surround sample_netw ''tcp'' ''example.org:443'' sample_acct '''' (sample_env [], pool_proxy)
     = Some (r, env', q) \<and> proxy_ok q"
proof -
  have "rng_ok (sr_rng sample_surround)" by (simp add: sample_surround_def rng_ok_def)
  from dialTarget_source[OF pool_proxy_ok(1) stats_wf_pool_proxy this, of sample_netw "''tcp''"
      "''example.org:443''" sample_acct "''''" "sample_env []"]
  show ?thesis by blast
qed

text \<open>The addresses a name resolves to are tried in their order, IPv6 ones only, from the picked source:
  the loop returns the first connection, counts exactly the failed attempts in the dial-error
  metrics, and stops early only when the context is done.\<close>

theorem dial_v6_counts:
  assumes "stats_wf (px_stats p)"
  shows "\<exists>r n q. dial_v6 nw d6 port 0 ips p = Some (r, n, q) \<and> stats_wf (px_stats q)
    \<and> dial_total q = dial_total p + of_nat n - (case r of Some (Inr c) \<Rightarrow> 1 | _ \<Rightarrow> 0)
    \<and> (case r of Some (Inr c) \<Rightarrow> 0 < n \<and> list_ex (\<lambda>x. To4 x = []
          \<and> nw_dial nw (n - 1) d6 ''tcp6'' (JoinHostPort (IP_String x) port) = Inr c) ips | _ \<Rightarrow> True)"
proof -
  from dial_v6_ok[OF assms, of nw d6 port 0 ips] obtain r n q where
    d: "dial_v6 nw d6 port 0 ips p = Some (r, n, q)" "stats_wf (px_stats q)"
      "dial_total q = dial_total p + of_nat (n - 0) - (case r of Some (Inr c) \<Rightarrow> 1 | _ \<Rightarrow> 0)"
      "\<forall>c. r = Some (Inr c) \<longrightarrow> 0 < n \<and> (\<exists>x \<in> set ips. To4 x = []
          \<and> nw_dial nw (n - 1) d6 ''tcp6'' (JoinHostPort (IP_String x) port) = Inr c)" by blast
  then show ?thesis
    by (intro exI[of _ r] exI[of _ n] exI[of _ q]) (auto simp: list_ex_iff split: option.splits sum.splits)
qed

theorem dial_v6_counts_witness:
  "\<exists>r n q. dial_v6 \<lparr>nw_dial = (\<lambda>n d net a. if n = 0 then Inl \<lparr>err_msg = ''connection refused'', err_net = Some False, err_op = True\<rparr> else Inr n),
       nw_lookup = (\<lambda>h. Inr []), nw_ctx = (\<lambda>n. None)\<rparr> \<lparr>d_local = None, d_timeout = 0\<rparr> ''443'' 0
       [0x20 # replicate 15 1, 0x20 # replicate 15 2] pool_proxy = Some (r, n, q)
     \<and> dial_total q = dial_total pool_proxy + of_nat n - (case r of Some (Inr c) \<Rightarrow> 1 | _ \<Rightarrow> 0)"
  using dial_v6_counts[OF stats_wf_pool_proxy, of "\<lparr>nw_dial = (\<lambda>n d net a. if n = 0 then Inl \<lparr>err_msg = ''connection refused'', err_net = Some False, err_op = True\<rparr> else Inr n),
       nw_lookup = (\<lambda>h. Inr []), nw_ctx = (\<lambda>n. None)\<rparr>" "\<lparr>d_local = None, d_timeout = 0\<rparr>" "''443''"
       "[0x20 # replicate 15 1, 0x20 # replicate 15 2]"]
  by blast

end
