(* ===== verification/Relay.thy ===== *)
theory Relay
  imports Claim Metrics
begin

text \<open>
  \<open>internal/proxy/http.go\<close>, lines 138-189: the relay of two connections \<open>a\<close> (client) and \<open>b\<close>
  (upstream).  \<open>relay\<close> runs two copying goroutines, two \<open>keepAlive\<close> tickers and its own body; a run
  is a sequence of labels, each one action of one of them or of a peer, interleaved in any order that
  the guards allow.  A copy (\<open>io.Copy\<close>) reads a chunk and writes it, in one or several pieces, before it
  reads again; a write may stay blocked for any time.  Shutting the client's connection for reading
  leaves what the kernel already holds readable.  Time advances by \<open>Pass\<close> labels, never past a tick
  that is due (a tick is served when it fires).  A deadline ends a copy only when the time has reached
  it.
\<close>

section \<open>Data\<close>

definition idleRelay :: int where
  "idleRelay = seconds 300"

record relay =
  r_now :: int
  r_dlA :: int
  r_dlB :: int
  r_dueA :: int
  r_dueB :: int
  r_pendOut :: nat
  r_pendIn :: nat
  r_out :: nat
  r_in :: nat
  r_upShut :: bool
  r_outDone :: bool
  r_inDone :: bool
  r_wclosedB :: bool
  r_wclosedA :: bool
  r_first :: bool
  r_rclosedA :: bool
  r_over :: bool
  r_stats :: stats

text \<open>The fields: the time, the deadlines and next ticks of the two connections; of each copy the bytes it
  has read and not yet written, and the bytes it has written; whether the upstream has closed.

  Why a copy ends: one of its connections was closed or failed, a deadline was reached, it has read all
  that a closed upstream had sent, or (for the copy that reads from \<open>a\<close>) all that the client had sent
  before the relay shut \<open>a\<close> for reading.\<close>

datatype cause = Closed | Timeout | Eof | ReadShut

datatype relay_label =
  Pass int
| TickA
| TickB
| ReadOut nat
| WriteOut nat
| ReadIn nat
| WriteIn nat
| UpClose
| EndOut cause
| EndIn cause
| FirstDone
| Finish

section \<open>Operations\<close>

text \<open>\<open>keepAlive\<close>: the deadline it sets at a time, and its ticker's period.\<close>

definition keep_deadline :: "int \<Rightarrow> int \<Rightarrow> int" where
  "keep_deadline idle now = now + idle"

definition keep_period :: "int \<Rightarrow> int" where
  "keep_period idle = idle div 4"

definition relay_start :: "int \<Rightarrow> stats \<Rightarrow> relay" where
  "relay_start now st =
     \<lparr>r_now = now, r_dlA = keep_deadline idleRelay now, r_dlB = keep_deadline idleRelay now,
      r_dueA = now + keep_period idleRelay, r_dueB = now + keep_period idleRelay,
      r_pendOut = 0, r_pendIn = 0, r_out = 0, r_in = 0, r_upShut = False, r_outDone = False, r_inDone = False, r_wclosedB = False, r_wclosedA = False,
      r_first = False, r_rclosedA = False, r_over = False,
      r_stats = st\<lparr>ActiveConns := ActiveConns st + 1\<rparr>\<rparr>"

text \<open>May a copy end for this cause now?  A connection may be closed or fail at any time.\<close>

definition may_end :: "cause \<Rightarrow> relay \<Rightarrow> bool" where
  "may_end c s = (case c of Closed \<Rightarrow> True | Timeout \<Rightarrow> r_now s \<ge> r_dlA s \<or> r_now s \<ge> r_dlB s
                    | Eof \<Rightarrow> r_upShut s \<and> r_pendIn s = 0 | ReadShut \<Rightarrow> r_rclosedA s \<and> r_pendOut s = 0)"

text \<open>One action; None when it is not possible.  \<open>ta\<close>, \<open>tb\<close>: is the connection a TCP connection?\<close>

fun relay_do :: "bool \<Rightarrow> bool \<Rightarrow> relay_label \<Rightarrow> relay \<Rightarrow> relay option" where
  "relay_do ta tb (Pass t) s =
     (if \<not> r_over s \<and> r_now s \<le> t \<and> t \<le> r_dueA s \<and> t \<le> r_dueB s then Some (s\<lparr>r_now := t\<rparr>) else None)"
| "relay_do ta tb TickA s =
     (if \<not> r_over s \<and> r_now s = r_dueA s
      then Some (s\<lparr>r_dlA := keep_deadline idleRelay (r_now s), r_dueA := r_now s + keep_period idleRelay\<rparr>)
      else None)"
| "relay_do ta tb TickB s =
     (if \<not> r_over s \<and> r_now s = r_dueB s
      then Some (s\<lparr>r_dlB := keep_deadline idleRelay (r_now s), r_dueB := r_now s + keep_period idleRelay\<rparr>)
      else None)"
| "relay_do ta tb (ReadOut k) s =
     (if \<not> r_outDone s \<and> r_pendOut s = 0 \<and> 0 < k then Some (s\<lparr>r_pendOut := k\<rparr>) else None)"
| "relay_do ta tb (WriteOut j) s =
     (if \<not> r_outDone s \<and> 0 < j \<and> j \<le> r_pendOut s
      then Some (s\<lparr>r_pendOut := r_pendOut s - j, r_out := r_out s + j\<rparr>) else None)"
| "relay_do ta tb (ReadIn k) s =
     (if \<not> r_inDone s \<and> r_pendIn s = 0 \<and> 0 < k then Some (s\<lparr>r_pendIn := k\<rparr>) else None)"
| "relay_do ta tb (WriteIn j) s =
     (if \<not> r_inDone s \<and> 0 < j \<and> j \<le> r_pendIn s
      then Some (s\<lparr>r_pendIn := r_pendIn s - j, r_in := r_in s + j\<rparr>) else None)"
| "relay_do ta tb UpClose s = (if \<not> r_upShut s then Some (s\<lparr>r_upShut := True\<rparr>) else None)"
| "relay_do ta tb (EndOut c) s =
     (if \<not> r_outDone s \<and> c \<noteq> Eof \<and> may_end c s
      then Some (s\<lparr>r_outDone := True, r_wclosedB := tb,
                   r_stats := (r_stats s)\<lparr>BytesOut := BytesOut (r_stats s) + of_nat (r_out s)\<rparr>\<rparr>)
      else None)"
| "relay_do ta tb (EndIn c) s =
     (if \<not> r_inDone s \<and> c \<noteq> ReadShut \<and> may_end c s
      then Some (s\<lparr>r_inDone := True, r_wclosedA := ta,
                   r_stats := (r_stats s)\<lparr>BytesIn := BytesIn (r_stats s) + of_nat (r_in s)\<rparr>\<rparr>)
      else None)"
| "relay_do ta tb FirstDone s =
     (if \<not> r_first s \<and> (r_outDone s \<or> r_inDone s) then Some (s\<lparr>r_first := True, r_rclosedA := ta\<rparr>) else None)"
| "relay_do ta tb Finish s =
     (if r_first s \<and> r_outDone s \<and> r_inDone s \<and> \<not> r_over s
      then Some (s\<lparr>r_over := True,
                   r_stats := (r_stats s)\<lparr>ActiveConns := ActiveConns (r_stats s) - 1\<rparr>\<rparr>)
      else None)"

fun relay_run :: "bool \<Rightarrow> bool \<Rightarrow> relay_label list \<Rightarrow> relay \<Rightarrow> relay option" where
  "relay_run ta tb [] s = Some s"
| "relay_run ta tb (l # ls) s = (case relay_do ta tb l s of None \<Rightarrow> None | Some s \<Rightarrow> relay_run ta tb ls s)"

fun_cases relay_doE: "relay_do ta tb l s = Some s'"

section \<open>Invariants\<close>

lemma relay_run_inv:
  assumes "\<And>l s s'. J s \<Longrightarrow> relay_do ta tb l s = Some s' \<Longrightarrow> J s'"
  shows "J s \<Longrightarrow> relay_run ta tb ls s = Some s' \<Longrightarrow> J s'"
  using assms by (induction ls arbitrary: s) (auto split: option.splits)

text \<open>The deadlines stay ahead of the clock.\<close>

definition deadline_ahead :: "relay \<Rightarrow> bool" where
  "deadline_ahead s \<longleftrightarrow> r_now s \<le> r_dueA s \<and> r_now s \<le> r_dueB s \<and> r_dueA s < r_dlA s \<and> r_dueB s < r_dlB s"

lemma idle_positive: "idleRelay = 300000000000" "keep_period 300000000000 = 75000000000"
  by (simp_all add: idleRelay_def seconds_def keep_period_def)

lemma deadline_ahead_start: "deadline_ahead (relay_start now st)"
  by (simp add: deadline_ahead_def relay_start_def keep_deadline_def idle_positive)

lemma deadline_ahead_do: "deadline_ahead s \<Longrightarrow> relay_do ta tb l s = Some s' \<Longrightarrow> deadline_ahead s'"
  by (cases l) (auto simp: deadline_ahead_def keep_deadline_def idle_positive split: if_splits)

text \<open>The counters of a relay, relative to the counters \<open>st\<close> before it.\<close>

definition counted :: "stats \<Rightarrow> relay \<Rightarrow> bool" where
  "counted st s \<longleftrightarrow> ActiveConns (r_stats s) = ActiveConns st + (if r_over s then 0 else 1)
     \<and> BytesOut (r_stats s) = BytesOut st + (if r_outDone s then of_nat (r_out s) else 0)
     \<and> BytesIn (r_stats s) = BytesIn st + (if r_inDone s then of_nat (r_in s) else 0)
     \<and> (r_over s \<longrightarrow> r_outDone s \<and> r_inDone s)"

lemma counted_start: "counted st (relay_start now st)"
  by (simp add: counted_def relay_start_def)

lemma counted_do: "counted st s \<Longrightarrow> relay_do ta tb l s = Some s' \<Longrightarrow> counted st s'"
  by (cases l) (clarsimp simp: counted_def split: if_splits)+

section \<open>Properties\<close>

text \<open>C16. Relays are accounted for exactly: at every point of every run the active-connection gauge is one
  above its value before the relay, and back at it when the relay is over; then the byte counters
  have grown by exactly the bytes written in each direction (modulo \<open>2^64\<close>).\<close>

theorem relay_counts:
  assumes "relay_run ta tb ls (relay_start now st) = Some s"
  shows "ActiveConns (r_stats s) = ActiveConns st + (if r_over s then 0 else 1)
    \<and> (r_over s \<longrightarrow> BytesOut (r_stats s) = BytesOut st + of_nat (r_out s)
        \<and> BytesIn (r_stats s) = BytesIn st + of_nat (r_in s))"
proof -
  have "counted st s" by (rule relay_run_inv[of "counted st", OF counted_do counted_start assms])
  then show ?thesis by (auto simp: counted_def)
qed

theorem relay_counts_witness:
  "case relay_run True True
         [ReadOut 10, WriteOut 4, Pass 5, ReadIn 300, WriteOut 6, WriteIn 300, EndOut Closed, FirstDone,
          ReadIn 7, WriteIn 7, EndIn Closed, Finish]
        (relay_start 0 (New_stats 0 [])) of
     None \<Rightarrow> False
   | Some s \<Rightarrow> ActiveConns (r_stats s) = 0 \<and> BytesOut (r_stats s) = 10 \<and> BytesIn (r_stats s) = 307"
proof -
  let ?ls = "[ReadOut 10, WriteOut 4, Pass 5, ReadIn 300, WriteOut 6, WriteIn 300, EndOut Closed, FirstDone,
          ReadIn 7, WriteIn 7, EndIn Closed, Finish]"
  obtain s where s: "relay_run True True ?ls (relay_start 0 (New_stats 0 [])) = Some s" "r_over s"
    "r_out s = 10" "r_in s = 307"
    by (simp add: relay_start_def may_end_def idle_positive keep_deadline_def)
  from relay_counts[OF s(1)] s show ?thesis by (simp add: New_stats_def)
qed

text \<open>C34. The idle deadline never fires: the ticker renews it every quarter of the idle time whether or not
  there is traffic, so in every run, however long both peers stay silent, no copy can end by a
  timeout; a silent peer pins the relay until a connection closes.\<close>

theorem relay_never_times_out:
  assumes "relay_run ta tb ls (relay_start now st) = Some s"
  shows "relay_do ta tb (EndOut Timeout) s = None \<and> relay_do ta tb (EndIn Timeout) s = None
    \<and> r_now s < r_dlA s \<and> r_now s < r_dlB s"
proof -
  have "deadline_ahead s"
    by (rule relay_run_inv[of deadline_ahead, OF deadline_ahead_do deadline_ahead_start assms])
  then show ?thesis by (auto simp: deadline_ahead_def may_end_def)
qed

text \<open>Time passes with ticks alone: an hour of silence.\<close>

definition silence :: "nat \<Rightarrow> relay_label list" where
  "silence n = concat (map (\<lambda>i. [Pass (75000000000 * (int i + 1)), TickA, TickB]) [0..<n])"

lemma relay_run_append:
  "relay_run ta tb (ls @ ms) s = (case relay_run ta tb ls s of None \<Rightarrow> None | Some t \<Rightarrow> relay_run ta tb ms t)"
  by (induction ls arbitrary: s) (auto split: option.splits)

lemma silence_run:
  "\<exists>s. relay_run True True (silence n) (relay_start 0 st) = Some s \<and> r_now s = 75000000000 * int n
     \<and> r_dueA s = 75000000000 * (int n + 1) \<and> r_dueB s = 75000000000 * (int n + 1) \<and> \<not> r_over s"
proof (induction n)
  case 0
  then show ?case by (simp add: silence_def relay_start_def idle_positive)
next
  case (Suc n)
  have app: "silence (Suc n) = silence n @ [Pass (75000000000 * (int n + 1)), TickA, TickB]" by (simp add: silence_def)
  from Suc show ?case unfolding app relay_run_append by (auto simp: idle_positive algebra_simps)
qed

theorem relay_never_times_out_witness:
  "case relay_run True True (silence 48) (relay_start 0 (New_stats 0 [])) of
     None \<Rightarrow> False
   | Some s \<Rightarrow> r_now s = 3600000000000 \<and> \<not> r_over s \<and> relay_do True True (EndOut Timeout) s = None"
proof -
  obtain s where s: "relay_run True True (silence 48) (relay_start 0 (New_stats 0 [])) = Some s"
    "r_now s = 3600000000000" "\<not> r_over s"
    using silence_run[of 48 "New_stats 0 []"] by auto
  from relay_never_times_out[OF s(1)] s show ?thesis by simp
qed

section \<open>Shutting down\<close>

text \<open>An infinite run: every position takes the action its label names, or repeats the state of a relay
  that is over.\<close>

definition relay_path :: "bool \<Rightarrow> bool \<Rightarrow> int \<Rightarrow> stats \<Rightarrow> (nat \<Rightarrow> relay_label) \<Rightarrow> (nat \<Rightarrow> relay) \<Rightarrow> bool" where
  "relay_path ta tb now st ls f \<longleftrightarrow> f 0 = relay_start now st
     \<and> (\<forall>i. relay_do ta tb (ls i) (f i) = Some (f (Suc i)) \<or> r_over (f i) \<and> f (Suc i) = f i)"

text \<open>The scheduler does not neglect an action for ever: again and again it is impossible or taken.\<close>

definition fair_to :: "bool \<Rightarrow> bool \<Rightarrow> relay_label \<Rightarrow> (nat \<Rightarrow> relay_label) \<Rightarrow> (nat \<Rightarrow> relay) \<Rightarrow> bool" where
  "fair_to ta tb l ls f \<longleftrightarrow>
     (\<forall>i. \<exists>j\<ge>i. relay_do ta tb l (f j) = None \<or> relay_do ta tb l (f j) = Some (f (Suc j)))"

lemma relay_path_inv:
  assumes "relay_path ta tb now st ls f" "J (f i)"
    "\<And>k s'. i \<le> k \<Longrightarrow> J (f k) \<Longrightarrow> relay_do ta tb (ls k) (f k) = Some s' \<Longrightarrow> J s'"
  shows "i \<le> j \<Longrightarrow> J (f j)"
proof (induction j rule: dec_induct)
  case (step j)
  then show ?case using assms(1,3) unfolding relay_path_def by metis
qed (rule assms(2))

lemma fair_reaches:
  assumes "fair_to ta tb l ls f" "\<And>k. i \<le> k \<Longrightarrow> \<not> Q (f k) \<Longrightarrow> relay_do ta tb l (f k) \<noteq> None"
    "\<And>s s'. relay_do ta tb l s = Some s' \<Longrightarrow> Q s'"
  obtains j where "i \<le> j" "Q (f j)"
proof -
  from assms(1) obtain j where "i \<le> j" "relay_do ta tb l (f j) = None \<or> relay_do ta tb l (f j) = Some (f (Suc j))"
    unfolding fair_to_def by blast
  with assms(2)[of j] assms(3)[of "f j" "f (Suc j)"] that[of j] that[of "Suc j"] show thesis
    by (meson le_SucI)
qed

definition half_shut :: "bool \<Rightarrow> relay \<Rightarrow> bool" where
  "half_shut ta s \<longleftrightarrow> (r_first s \<longrightarrow> r_rclosedA s = ta)"

lemma shut_steps:
  assumes "relay_do ta tb l s = Some s'"
  shows "half_shut ta s \<Longrightarrow> half_shut ta s'" "r_inDone s \<Longrightarrow> r_inDone s'" "r_first s \<Longrightarrow> r_first s'"
    "r_outDone s \<Longrightarrow> r_outDone s'" "r_upShut s \<Longrightarrow> r_upShut s'"
  using assms by (cases l; clarsimp simp: half_shut_def split: if_splits)+

lemma quiet_steps:
  assumes "relay_do ta tb l s = Some s'" "\<forall>k. l \<noteq> ReadOut k \<and> l \<noteq> ReadIn k"
  shows "r_pendOut s = 0 \<Longrightarrow> r_pendOut s' = 0" "r_pendIn s = 0 \<Longrightarrow> r_pendIn s' = 0"
  using assms by (cases l; clarsimp split: if_splits)+

text \<open>C17. An upstream that has closed ends the relay.  In every run of a relay whose client is a TCP
  connection: once the upstream has closed, and the bytes in flight have run out (nothing more is read
  from either peer), then, if no write blocks for ever (each written or failed), and under a scheduler
  that is fair to the relay's own actions (noticing the end of the upstream, taking the first end,
  noticing that the client was shut for reading, returning), the relay returns without the client
  closing its side, and gives the active-connection gauge back.\<close>

theorem relay_shuts_down:
  assumes "relay_path True tb now st ls f" "r_upShut (f i)"
    "\<And>j k. i \<le> j \<Longrightarrow> ls j \<noteq> ReadOut k \<and> ls j \<noteq> ReadIn k"
    "\<And>k. \<exists>j\<ge>k. r_pendOut (f j) = 0 \<or> r_outDone (f j)" "\<And>k. \<exists>j\<ge>k. r_pendIn (f j) = 0 \<or> r_inDone (f j)"
    "fair_to True tb (EndIn Eof) ls f" "fair_to True tb FirstDone ls f" "fair_to True tb (EndOut ReadShut) ls f"
    "fair_to True tb Finish ls f"
  shows "\<exists>j\<ge>i. r_over (f j) \<and> ActiveConns (r_stats (f j)) = ActiveConns st"
proof -
  note path = relay_path_inv[OF assms(1)]
  have shut: "half_shut True (f k)" for k
    using path[of "half_shut True" 0 k, OF _ shut_steps(1)] assms(1)
    by (simp add: relay_path_def relay_start_def half_shut_def)
  have cnt: "counted st (f k)" for k
    using path[of "counted st" 0 k, OF _ counted_do] counted_start[of st now] assms(1)
    by (simp add: relay_path_def)
  have in_settled: "r_pendIn (f k) = 0 \<or> r_inDone (f k)"
    if "r_pendIn (f j) = 0 \<or> r_inDone (f j)" "i \<le> j" "j \<le> k" for j k
    by (rule path[of "\<lambda>s. r_pendIn s = 0 \<or> r_inDone s", OF that(1) _ that(3)])
      (use that(2) assms(3) in \<open>auto intro: shut_steps(2) dest: quiet_steps(2)\<close>)
  have out_settled: "r_pendOut (f k) = 0 \<or> r_outDone (f k)"
    if "r_pendOut (f j) = 0 \<or> r_outDone (f j)" "i \<le> j" "j \<le> k" for j k
    by (rule path[of "\<lambda>s. r_pendOut s = 0 \<or> r_outDone s", OF that(1) _ that(3)])
      (use that(2) assms(3) in \<open>auto intro: shut_steps(4) dest: quiet_steps(1)\<close>)
  obtain a where a: "i \<le> a" "r_pendIn (f a) = 0 \<or> r_inDone (f a)" using assms(5) by blast
  have up: "r_upShut (f k)" if "i \<le> k" for k using path[of r_upShut, OF assms(2) shut_steps(5) that] .
  obtain j0 where j0: "a \<le> j0" "r_inDone (f j0)"
    by (rule fair_reaches[OF assms(6), of a r_inDone])
      (use in_settled[OF a(2) a(1)] up a(1) in \<open>auto simp: may_end_def split: if_splits\<close>)
  have in_done: "r_inDone (f k)" if "j0 \<le> k" for k using path[of r_inDone, OF j0(2) shut_steps(2) that] .
  obtain j1 where j1: "j0 \<le> j1" "r_first (f j1)"
    by (rule fair_reaches[OF assms(7), of j0 r_first]) (auto simp: in_done split: if_splits)
  have first: "r_first (f k)" if "j1 \<le> k" for k using path[of r_first, OF j1(2) shut_steps(3) that] .
  have rclosed: "r_rclosedA (f k)" if "j1 \<le> k" for k
    using first[OF that] shut[of k] by (simp add: half_shut_def)
  obtain b where b: "j1 \<le> b" "r_pendOut (f b) = 0 \<or> r_outDone (f b)" using assms(4) by blast
  have ib: "i \<le> b" using a(1) j0(1) j1(1) b(1) by simp
  obtain j2 where j2: "b \<le> j2" "r_outDone (f j2)"
    by (rule fair_reaches[OF assms(8), of b r_outDone])
      (use out_settled[OF b(2) ib] rclosed b(1) in \<open>auto simp: may_end_def split: if_splits\<close>)
  have out_done: "r_outDone (f k)" if "j2 \<le> k" for k using path[of r_outDone, OF j2(2) shut_steps(4) that] .
  obtain j3 where "j2 \<le> j3" "r_over (f j3)"
    by (rule fair_reaches[OF assms(9), of j2 r_over])
      (use j1(1) b(1) j2(1) in \<open>auto simp: in_done first out_done split: if_splits\<close>)
  then show ?thesis using cnt[of j3] ib j2(1) by (intro exI[of _ j3]) (simp add: counted_def)
qed

text \<open>The run of a list of labels, repeated at its end.\<close>

fun relay_states :: "relay_label list \<Rightarrow> relay \<Rightarrow> nat \<Rightarrow> relay" where
  "relay_states [] s i = s"
| "relay_states (l # ls) s 0 = s"
| "relay_states (l # ls) s (Suc i) = (case relay_do True True l s of None \<Rightarrow> s | Some s \<Rightarrow> relay_states ls s i)"

definition shut_run :: "relay_label list" where
  "shut_run = [ReadOut 9, ReadIn 3, UpClose, WriteIn 3, WriteOut 9, EndIn Eof, FirstDone, EndOut ReadShut, Finish]"

lemma relay_states_end: "relay_run True True ls s = Some t \<Longrightarrow> relay_states ls s (k + length ls) = t"
  by (induction ls arbitrary: s) (auto split: option.splits)

lemma relay_states_step:
  "relay_run True True ls s = Some t \<Longrightarrow> i < length ls \<Longrightarrow>
   relay_do True True (ls ! i) (relay_states ls s i) = Some (relay_states ls s (Suc i))"
proof (induction ls arbitrary: s i)
  case (Cons l ls)
  then show ?case by (cases i; cases ls) (auto split: option.splits)
qed simp

lemma shut_run_over:
  "r_over (relay_states shut_run (relay_start 0 (New_stats 0 [])) (k + 9))"
  "relay_states shut_run (relay_start 0 (New_stats 0 [])) (Suc (k + 9))
    = relay_states shut_run (relay_start 0 (New_stats 0 [])) (k + 9)"
  "r_outDone (relay_states shut_run (relay_start 0 (New_stats 0 [])) (k + 9))"
  "r_inDone (relay_states shut_run (relay_start 0 (New_stats 0 [])) (k + 9))"
  "r_first (relay_states shut_run (relay_start 0 (New_stats 0 [])) (k + 9))"
  "i < 9 \<Longrightarrow> relay_do True True (shut_run ! i) (relay_states shut_run (relay_start 0 (New_stats 0 [])) i)
     = Some (relay_states shut_run (relay_start 0 (New_stats 0 [])) (Suc i))"
proof -
  obtain t where t: "relay_run True True shut_run (relay_start 0 (New_stats 0 [])) = Some t"
    "r_over t" "r_outDone t" "r_inDone t" "r_first t"
    by (simp add: shut_run_def relay_start_def may_end_def)
  have len: "length shut_run = 9" by (simp add: shut_run_def)
  from relay_states_step[OF t(1), of i] len
  show "i < 9 \<Longrightarrow> relay_do True True (shut_run ! i) (relay_states shut_run (relay_start 0 (New_stats 0 [])) i)
     = Some (relay_states shut_run (relay_start 0 (New_stats 0 [])) (Suc i))" by simp
  from len have "relay_states shut_run (relay_start 0 (New_stats 0 [])) (j + 9) = t" for j
    using relay_states_end[OF t(1), of j] by simp
  from this[of k] this[of "Suc k"] t show
    "r_over (relay_states shut_run (relay_start 0 (New_stats 0 [])) (k + 9))"
    "relay_states shut_run (relay_start 0 (New_stats 0 [])) (Suc (k + 9))
      = relay_states shut_run (relay_start 0 (New_stats 0 [])) (k + 9)"
    "r_outDone (relay_states shut_run (relay_start 0 (New_stats 0 [])) (k + 9))"
    "r_inDone (relay_states shut_run (relay_start 0 (New_stats 0 [])) (k + 9))"
    "r_first (relay_states shut_run (relay_start 0 (New_stats 0 [])) (k + 9))" by simp_all
qed

theorem relay_shuts_down_witness:
  "\<exists>j. r_over (relay_states shut_run (relay_start 0 (New_stats 0 [])) j)
     \<and> ActiveConns (r_stats (relay_states shut_run (relay_start 0 (New_stats 0 [])) j)) = 0"
proof -
  let ?f = "relay_states shut_run (relay_start 0 (New_stats 0 []))"
  let ?l = "\<lambda>i::nat. if i < 9 then shut_run ! i else Finish"
  have path: "relay_path True True 0 (New_stats 0 []) ?l ?f"
    unfolding relay_path_def
  proof (intro conjI allI)
    fix i :: nat
    consider "i < 9" | k where "i = k + 9" 
      using le_Suc_ex[of 9 i] by (cases "i < 9") (auto simp: add.commute)
    then show "relay_do True True (?l i) (?f i) = Some (?f (Suc i)) \<or> r_over (?f i) \<and> ?f (Suc i) = ?f i"
    proof cases
      case 1
      then show ?thesis by (simp only: if_True shut_run_over(6)[OF 1] simp_thms)
    next
      case 2
      then show ?thesis using shut_run_over[of k] by (simp only: simp_thms)
    qed
  qed (simp add: shut_run_def)
  have fair: "fair_to True True l ?l ?f" if "l \<in> {EndIn Eof, FirstDone, EndOut ReadShut, Finish}" for l
    unfolding fair_to_def
  proof (rule allI)
    fix i
    have "relay_do True True l (?f (i + 9)) = None" using that shut_run_over[of i] by auto
    then show "\<exists>j\<ge>i. relay_do True True l (?f j) = None \<or> relay_do True True l (?f j) = Some (?f (Suc j))"
      by (intro exI[of _ "i + 9"]) simp
  qed
  have quiet: "?l j \<noteq> ReadOut k \<and> ?l j \<noteq> ReadIn k" if "3 \<le> j" for j k
  proof (cases "j < 9")
    case True
    then have "j \<in> {3, 4, 5, 6, 7, 8}" using that by auto
    then show ?thesis by (elim insertE emptyE) (simp_all add: shut_run_def)
  qed simp
  have drained: "\<exists>j\<ge>k. r_pendOut (?f j) = 0 \<or> r_outDone (?f j)" "\<exists>j\<ge>k. r_pendIn (?f j) = 0 \<or> r_inDone (?f j)" for k
    using shut_run_over(3,4)[of k] by (intro exI[of _ "k + 9"]; simp)+
  have "r_upShut (?f 3)" by (simp add: shut_run_def relay_start_def may_end_def eval_nat_numeral)
  from relay_shuts_down[OF path this quiet drained fair fair fair fair] show ?thesis by (auto simp: New_stats_def)
qed

end
