(* ===== verification/Upstream.thy ===== *)
theory Upstream
  imports Dial Relay
begin

text \<open>
  What the client-facing handlers share: the node they run in (the proxy, the operating system, what
  each dial will ask of its surroundings, the request log) and the interface of \<open>p.dial\<close>, a field
  of the proxy that \<open>New\<close> sets to \<open>dialTarget\<close> (proxy.go:124) and the tests replace.  The handlers
  take it as an argument; the locale \<open>upstream\<close> states what they rely on, and its interpretation
  \<open>direct\<close> shows it of \<open>dialTarget\<close>.
\<close>

section \<open>The node\<close>

text \<open>\<open>nd_sr\<close> and \<open>nd_nw\<close> give the clock, the map order, the \<open>ip\<close> command and the network that the dial
  number \<open>nd_at\<close> meets.  \<open>nd_rec\<close> is the address in the \<open>srcRecorder\<close> of the request being forwarded,
  which its context carries to the dialer (http.go:60-62).  \<open>nd_relays\<close> are the relays started so far:
  whether the client, whether the upstream is a TCP connection, and the relay's state.  The counters are
  the proxy's; the ones in a relay at rest are those of its last action.\<close>

record conn =
  cn_client :: bool
  cn_up :: bool
  cn_relay :: relay

record 'c node =
  nd_px :: proxy
  nd_env :: netenv
  nd_at :: nat
  nd_sr :: "nat \<Rightarrow> surround"
  nd_nw :: "nat \<Rightarrow> 'c netw"
  nd_log :: "log_line list"
  nd_rec :: ip
  nd_relays :: "conn list"

type_synonym 'c dial = "string \<Rightarrow> string \<Rightarrow> paccount \<Rightarrow> string \<Rightarrow> 'c node \<Rightarrow> ((dial_error + 'c) \<times> 'c node) option"

definition dial_node :: "'c dial" where
  "dial_node network addr acct key n =
     map_option (\<lambda>(r, env, p). (r, n\<lparr>nd_px := p, nd_env := env, nd_at := nd_at n + 1\<rparr>))
       (dialTarget (nd_sr n (nd_at n)) (nd_nw n (nd_at n)) network addr acct key (nd_env n, nd_px n))"

definition on_stats :: "(stats \<Rightarrow> stats) \<Rightarrow> 'c node \<Rightarrow> 'c node" where
  "on_stats f n = n\<lparr>nd_px := (nd_px n)\<lparr>px_stats := f (px_stats (nd_px n))\<rparr>\<rparr>"

definition write_log :: "log_line list \<Rightarrow> 'c node \<Rightarrow> 'c node" where
  "write_log ls n = n\<lparr>nd_log := nd_log n @ ls\<rparr>"

text \<open>A tunnel: is the client, is the upstream a TCP connection, and when does its relay start.\<close>

record tunnel =
  tn_client :: bool
  tn_up :: bool
  tn_start :: int

text \<open>A handler that calls \<open>relay\<close> has nothing left to do but to wait for it: the relay joins the node's,
  and goes on beside everything that follows, one action at a time.  An action that is not possible
  leaves the node as it is.\<close>

definition start_relay :: "tunnel \<Rightarrow> 'c node \<Rightarrow> 'c node" where
  "start_relay t n =
     (let s = relay_start (tn_start t) (px_stats (nd_px n))
      in (on_stats (\<lambda>_. r_stats s) n)\<lparr>nd_relays := nd_relays n @
            [\<lparr>cn_client = tn_client t, cn_up = tn_up t, cn_relay = s\<rparr>]\<rparr>)"

definition relay_act :: "nat \<Rightarrow> relay_label \<Rightarrow> 'c node \<Rightarrow> 'c node" where
  "relay_act i l n =
     (if i < length (nd_relays n)
      then let c = nd_relays n ! i
           in case relay_do (cn_client c) (cn_up c) l ((cn_relay c)\<lparr>r_stats := px_stats (nd_px n)\<rparr>) of
                None \<Rightarrow> n
              | Some s \<Rightarrow> (on_stats (\<lambda>_. r_stats s) n)\<lparr>nd_relays := (nd_relays n)[i := c\<lparr>cn_relay := s\<rparr>]\<rparr>
      else n)"

text \<open>The source a connection reports: \<open>net.ParseIP\<close> of the host of its local address.\<close>

definition local_ip :: "string \<Rightarrow> ip" where
  "local_ip laddr = ParseIP (case SplitHostPort laddr of None \<Rightarrow> '''' | Some (host, port) \<Rightarrow> host)"

section \<open>Facts\<close>

lemma on_stats_simps [simp]:
  "px_cfg (nd_px (on_stats f n)) = px_cfg (nd_px n)" "px_accounts (nd_px (on_stats f n)) = px_accounts (nd_px n)"
  "px_stats (nd_px (on_stats f n)) = f (px_stats (nd_px n))" "nd_log (on_stats f n) = nd_log n"
  "px_sessions (nd_px (on_stats f n)) = px_sessions (nd_px n)"
  "px_streams (nd_px (on_stats f n)) = px_streams (nd_px n)"
  "nd_at (on_stats f n) = nd_at n" "nd_env (on_stats f n) = nd_env n"
  "nd_rec (on_stats f n) = nd_rec n" "nd_relays (on_stats f n) = nd_relays n" "nd_sr (on_stats f n) = nd_sr n"
  by (simp_all add: on_stats_def)

lemma on_stats_on_stats [simp]: "on_stats f (on_stats g n) = on_stats (\<lambda>st. f (g st)) n"
  by (simp add: on_stats_def)

lemma write_log_simps [simp]:
  "nd_px (write_log ls n) = nd_px n" "nd_log (write_log ls n) = nd_log n @ ls"
  "nd_at (write_log ls n) = nd_at n" "nd_env (write_log ls n) = nd_env n"
  "nd_rec (write_log ls n) = nd_rec n" "nd_relays (write_log ls n) = nd_relays n"
  by (simp_all add: write_log_def)

lemma authenticate_on_stats [simp]: "authenticate (nd_px (on_stats f n)) u q = authenticate (nd_px n) u q"
  by (simp add: authenticate_def)

lemma authenticate_site: "same_site p q \<Longrightarrow> authenticate q u s = authenticate p u s"
  by (simp add: authenticate_def same_site_def)

lemma proxy_ok_stats: "HostsCur st = HostsCur (px_stats p) \<Longrightarrow> proxy_ok (p\<lparr>px_stats := st\<rparr>) = proxy_ok p"
  by (simp add: proxy_ok_def cycles_fit_def streams_ok_def ring_wf_def fit_entry_def)

text \<open>A relay changes its own counters only.\<close>

definition same_buckets :: "stats \<Rightarrow> stats \<Rightarrow> bool" where
  "same_buckets st st' \<longleftrightarrow> DialErrors st' = DialErrors st \<and> HostsCur st' = HostsCur st \<and> HTTPReqs st' = HTTPReqs st
     \<and> SOCKSConns st' = SOCKSConns st \<and> Rejected st' = Rejected st"

lemma same_buckets_start: "same_buckets st (r_stats (relay_start now st))"
  by (simp add: same_buckets_def relay_start_def)

lemma same_buckets_do: "relay_do ta tb l s = Some s' \<Longrightarrow> same_buckets (r_stats s) (r_stats s')"
  by (cases l) (auto simp: same_buckets_def split: if_splits)

section \<open>The relays of a node are accounted for\<close>

text \<open>The gauge is the number of relays that are not over, and the byte counters are the bytes of the copies
  that have ended (modulo \<open>2^64\<close>).\<close>

definition active :: "conn \<Rightarrow> int" where
  "active c = (if r_over (cn_relay c) then 0 else 1)"

definition bytes_out :: "conn \<Rightarrow> u64" where
  "bytes_out c = (if r_outDone (cn_relay c) then of_nat (r_out (cn_relay c)) else 0)"

definition bytes_in :: "conn \<Rightarrow> u64" where
  "bytes_in c = (if r_inDone (cn_relay c) then of_nat (r_in (cn_relay c)) else 0)"

definition relays_counted :: "'c node \<Rightarrow> bool" where
  "relays_counted n \<longleftrightarrow> ActiveConns (px_stats (nd_px n)) = sum_list (map active (nd_relays n))
     \<and> BytesOut (px_stats (nd_px n)) = sum_list (map bytes_out (nd_relays n))
     \<and> BytesIn (px_stats (nd_px n)) = sum_list (map bytes_in (nd_relays n))"

lemma active_sum: "sum_list (map active cs) = int (length (filter (\<lambda>c. \<not> r_over (cn_relay c)) cs))"
  by (induction cs) (simp_all add: active_def)

text \<open>What one action adds to the counters is what it adds to its relay.\<close>

lemma relay_do_counts:
  assumes "relay_do ta tb l s = Some s'"
  shows "ActiveConns (r_stats s') - ActiveConns (r_stats s)
      = active \<lparr>cn_client = x, cn_up = y, cn_relay = s'\<rparr> - active \<lparr>cn_client = x, cn_up = y, cn_relay = s\<rparr>"
    "BytesOut (r_stats s') - BytesOut (r_stats s)
      = bytes_out \<lparr>cn_client = x, cn_up = y, cn_relay = s'\<rparr> - bytes_out \<lparr>cn_client = x, cn_up = y, cn_relay = s\<rparr>"
    "BytesIn (r_stats s') - BytesIn (r_stats s)
      = bytes_in \<lparr>cn_client = x, cn_up = y, cn_relay = s'\<rparr> - bytes_in \<lparr>cn_client = x, cn_up = y, cn_relay = s\<rparr>"
  using assms by (cases l; clarsimp simp: active_def bytes_out_def bytes_in_def split: if_splits)+

lemma sum_list_map_update:
  fixes f :: "'a \<Rightarrow> 'b::ab_group_add"
  shows "i < length xs \<Longrightarrow> sum_list (map f (xs[i := x])) = sum_list (map f xs) + (f x - f (xs ! i))"
proof (induction xs arbitrary: i)
  case (Cons y ys)
  then show ?case by (cases i) simp_all
qed simp

lemma relays_counted_act: "relays_counted n \<Longrightarrow> relays_counted (relay_act i l n)"
proof (cases "i < length (nd_relays n)")
  case i: True
  assume c: "relays_counted n"
  let ?c = "nd_relays n ! i" and ?st = "px_stats (nd_px n)"
  let ?s = "(cn_relay ?c)\<lparr>r_stats := ?st\<rparr>"
  show ?thesis
  proof (cases "relay_do (cn_client ?c) (cn_up ?c) l ?s")
    case (Some s)
    note d = relay_do_counts[OF Some, of "cn_client ?c" "cn_up ?c"]
    have "active \<lparr>cn_client = cn_client ?c, cn_up = cn_up ?c, cn_relay = ?s\<rparr> = active ?c"
      "bytes_out \<lparr>cn_client = cn_client ?c, cn_up = cn_up ?c, cn_relay = ?s\<rparr> = bytes_out ?c"
      "bytes_in \<lparr>cn_client = cn_client ?c, cn_up = cn_up ?c, cn_relay = ?s\<rparr> = bytes_in ?c"
      "\<lparr>cn_client = cn_client ?c, cn_up = cn_up ?c, cn_relay = s\<rparr> = ?c\<lparr>cn_relay := s\<rparr>"
      by (simp_all add: active_def bytes_out_def bytes_in_def)
    with d have "ActiveConns (r_stats s) = ActiveConns ?st + (active (?c\<lparr>cn_relay := s\<rparr>) - active ?c)"
      "BytesOut (r_stats s) = BytesOut ?st + (bytes_out (?c\<lparr>cn_relay := s\<rparr>) - bytes_out ?c)"
      "BytesIn (r_stats s) = BytesIn ?st + (bytes_in (?c\<lparr>cn_relay := s\<rparr>) - bytes_in ?c)"
      by (simp_all add: algebra_simps)
    then show ?thesis using c i Some by (simp add: relay_act_def relays_counted_def sum_list_map_update Let_def)
  qed (use c in \<open>simp add: relay_act_def Let_def\<close>)
qed (simp add: relay_act_def)

lemma relays_counted_start: "relays_counted n \<Longrightarrow> relays_counted (start_relay t n)"
  by (simp add: relays_counted_def start_relay_def relay_start_def active_def bytes_out_def bytes_in_def Let_def)

lemma relays_counted_cong:
  "ActiveConns (px_stats (nd_px m)) = ActiveConns (px_stats (nd_px n)) \<Longrightarrow>
   BytesOut (px_stats (nd_px m)) = BytesOut (px_stats (nd_px n)) \<Longrightarrow>
   BytesIn (px_stats (nd_px m)) = BytesIn (px_stats (nd_px n)) \<Longrightarrow>
   nd_relays m = nd_relays n \<Longrightarrow> relays_counted m = relays_counted n"
  by (simp add: relays_counted_def)

lemma start_relay_simps [simp]:
  "same_buckets (px_stats (nd_px n)) (px_stats (nd_px (start_relay t n)))"
  "ActiveConns (px_stats (nd_px (start_relay t n))) = ActiveConns (px_stats (nd_px n)) + 1"
  "length (nd_relays (start_relay t n)) = length (nd_relays n) + 1"
  by (simp_all add: start_relay_def Let_def same_buckets_start) (simp add: relay_start_def)

lemma relay_act_buckets: "same_buckets (px_stats (nd_px n)) (px_stats (nd_px (relay_act i l n)))"
  by (auto simp: relay_act_def Let_def split: option.split dest: same_buckets_do) (simp_all add: same_buckets_def)

section \<open>The interface\<close>

text \<open>A dial returns and keeps an invariant; it leaves the configuration, the accounts, the traffic
  counters, the log, the request's \<open>srcRecorder\<close> and the relays alone.  The handlers' own bookkeeping
  keeps the invariant.\<close>

locale upstream =
  fixes dial :: "string \<Rightarrow> string \<Rightarrow> paccount \<Rightarrow> string \<Rightarrow> 'c node \<Rightarrow> ((dial_error + 'c) \<times> 'c node) option"
    and ok :: "'c node \<Rightarrow> bool"
  assumes dial_returns: "ok n \<Longrightarrow> \<exists>r m. dial network addr acct key n = Some (r, m) \<and> ok m"
    and dial_keeps: "dial network addr acct key n = Some (r, m) \<Longrightarrow>
      same_site (nd_px n) (nd_px m) \<and> nd_log m = nd_log n \<and> nd_rec m = nd_rec n \<and> nd_relays m = nd_relays n"
    and ok_on_stats: "ok n \<Longrightarrow> DialErrors (f (px_stats (nd_px n))) = DialErrors (px_stats (nd_px n)) \<Longrightarrow>
      HostsCur (f (px_stats (nd_px n))) = HostsCur (px_stats (nd_px n)) \<Longrightarrow> ok (on_stats f n)"
    and ok_write_log: "ok n \<Longrightarrow> ok (write_log ls n)"
    and ok_rec: "ok n \<Longrightarrow> ok (n\<lparr>nd_rec := ip\<rparr>)"
    and ok_relays: "ok n \<Longrightarrow> ok (n\<lparr>nd_relays := cs\<rparr>)"
begin

lemma dialE:
  assumes "ok n"
  obtains r m where "dial network addr acct key n = Some (r, m)" "ok m" "same_site (nd_px n) (nd_px m)"
    "nd_log m = nd_log n" "nd_rec m = nd_rec n" "nd_relays m = nd_relays n"
  using dial_returns[OF assms] dial_keeps by metis

lemma ok_buckets:
  "ok n \<Longrightarrow> same_buckets (px_stats (nd_px n)) st \<Longrightarrow> ok ((on_stats (\<lambda>_. st) n)\<lparr>nd_relays := cs\<rparr>)"
  by (intro ok_relays ok_on_stats) (simp_all add: same_buckets_def)

lemma start_relay_ok: "ok n \<Longrightarrow> ok (start_relay t n)"
  using ok_buckets[OF _ same_buckets_start] by (simp add: start_relay_def Let_def)

lemma relay_act_ok: "ok n \<Longrightarrow> ok (relay_act i l n)"
  using ok_buckets[of n] by (auto simp: relay_act_def Let_def split: option.split dest: same_buckets_do)

end

definition node_ok :: "'c node \<Rightarrow> bool" where
  "node_ok n \<longleftrightarrow> proxy_ok (nd_px n) \<and> stats_wf (px_stats (nd_px n)) \<and> keys_ok (px_sessions (nd_px n)) \<and> (\<forall>i. rng_ok (sr_rng (nd_sr n i)))"

lemma dialTarget_returns:
  assumes "proxy_ok p" "stats_wf (px_stats p)" "rng_ok (sr_rng sr)"
  obtains r env' q where "dialTarget sr nw network addr acct key (env, p) = Some (r, env', q)"
    "proxy_ok q" "stats_wf (px_stats q)"
proof (cases "SplitHostPort addr")
  case None
  then show ?thesis using assms by (intro that[of "Inl BadAddr" env p]) (simp_all add: dialTarget_def)
next
  case (Some hp)
  obtain host port where "hp = (host, port)" by fastforce
  with Some have "SplitHostPort addr = Some (host, port)" by simp
  from dialTarget_cases[OF assms this] that show ?thesis by metis
qed

lemma dial_node_ok:
  assumes "node_ok n"
  shows "\<exists>r m. dial_node network addr acct key n = Some (r, m) \<and> node_ok m"
proof -
  from assms have "proxy_ok (nd_px n)" "stats_wf (px_stats (nd_px n))" "rng_ok (sr_rng (nd_sr n (nd_at n)))"
    by (simp_all add: node_ok_def)
  then obtain r env q where d: "dialTarget (nd_sr n (nd_at n)) (nd_nw n (nd_at n)) network addr acct key
      (nd_env n, nd_px n) = Some (r, env, q)" "proxy_ok q" "stats_wf (px_stats q)"
    by (rule dialTarget_returns)
  with dialTarget_site[OF d(1)] assms show ?thesis by (simp add: dial_node_def node_ok_def same_site_def)
qed

interpretation direct: upstream dial_node node_ok
proof unfold_locales
  fix n :: "'c node" and network addr acct key r m
  assume "dial_node network addr acct key n = Some (r, m)"
  then show "same_site (nd_px n) (nd_px m) \<and> nd_log m = nd_log n \<and> nd_rec m = nd_rec n \<and> nd_relays m = nd_relays n"
    by (auto simp: dial_node_def dest: dialTarget_site)
next
  fix n :: "'c node" and f :: "stats \<Rightarrow> stats"
  assume "node_ok n" "DialErrors (f (px_stats (nd_px n))) = DialErrors (px_stats (nd_px n))"
    "HostsCur (f (px_stats (nd_px n))) = HostsCur (px_stats (nd_px n))"
  then show "node_ok (on_stats f n)"
    using stats_wf_cong[of "f (px_stats (nd_px n))" "px_stats (nd_px n)"]
    by (simp add: node_ok_def on_stats_def proxy_ok_stats)
qed (simp_all add: dial_node_ok, simp_all add: node_ok_def write_log_def)


section \<open>A sample node\<close>

definition sample_node :: "nat node" where
  "sample_node = \<lparr>nd_px = pool_proxy\<lparr>px_accounts := [(''u'', sample_acct)]\<rparr>, nd_env = sample_env [], nd_at = 0,
     nd_sr = (\<lambda>_. sample_surround), nd_nw = (\<lambda>_. sample_netw), nd_log = [],
     nd_rec = [], nd_relays = []\<rparr>"

lemma sample_node_ok [simp]: "node_ok sample_node"
proof -
  have "proxy_ok (pool_proxy\<lparr>px_accounts := a\<rparr>) = proxy_ok pool_proxy" for a
    by (simp add: proxy_ok_def cycles_fit_def streams_ok_def ring_wf_def fit_entry_def)
  then show ?thesis
    by (simp add: node_ok_def sample_node_def sample_surround_def rng_ok_def)
      (simp add: pool_proxy_def sample_proxy_def keys_ok_def)
qed

lemma sample_auth [simp]:
  "authenticate (nd_px sample_node) ''u'' ''p'' = Some (sample_acct, '''')"
  "authenticate (nd_px sample_node) ''u'' ''q'' = None"
proof -
  have "plain ''u''" by (simp add: index_eval)
  then show "authenticate (nd_px sample_node) ''u'' ''p'' = Some (sample_acct, '''')"
    "authenticate (nd_px sample_node) ''u'' ''q'' = None"
    by (simp_all add: authenticate_def splitUsername_plain sample_node_def sample_acct_def)
qed

definition sample_tunnel :: tunnel where
  "sample_tunnel = \<lparr>tn_client = True, tn_up = True, tn_start = 0\<rparr>"

end
