(* ===== verification/Http.thy ===== *)
theory Http
  imports Upstream Codec
begin

text \<open>
  \<open>internal/proxy/http.go\<close>: the HTTP proxy handler and CONNECT.  The parts of \<open>net/http\<close> the handler
  uses are modelled: header maps with canonical keys, the response writer, \<open>http.Error\<close>.  The
  transport is a parameter: for each request a tree of the dials a \<open>RoundTrip\<close> makes, each chosen after
  what the dials before it returned, with an answer at the end of every branch.  A handler's result is
  what it did to its client, and the node afterwards, where a handler that relays has started its relay;
  None would be a handler that hangs.
\<close>

section \<open>Headers\<close>

type_synonym header = "(string \<times> string list) list"

text \<open>\<open>CanonicalHeaderKey\<close>: a key with a byte that is no token character is left as it is.\<close>

definition field_byte :: "char \<Rightarrow> bool" where
  "field_byte c \<longleftrightarrow>
     (let n = of_char c :: nat in 48 \<le> n \<and> n \<le> 57 \<or> 65 \<le> n \<and> n \<le> 90 \<or> 97 \<le> n \<and> n \<le> 122)
     \<or> c \<in> {CHR ''!'', CHR ''#'', CHR ''$'', CHR ''%'', CHR ''&'', CHR 0x27, CHR ''*'', CHR ''+'',
          CHR ''-'', CHR ''.'', CHR ''^'', CHR ''_'', CHR 0x60, CHR ''|'', CHR ''~''}"

definition ascii_upper :: "char \<Rightarrow> char" where
  "ascii_upper c = (let n = of_char c :: nat in if 97 \<le> n \<and> n \<le> 122 then char_of (n - 32) else c)"

fun canon_loop :: "bool \<Rightarrow> string \<Rightarrow> string" where
  "canon_loop up [] = []"
| "canon_loop up (c # s) =
     (let d = (if up then ascii_upper c else ascii_lower c) in d # canon_loop (d = CHR ''-'') s)"

definition canon :: "string \<Rightarrow> string" where
  "canon k = (if list_all field_byte k then canon_loop True k else k)"

definition Header_Get :: "header \<Rightarrow> string \<Rightarrow> string" where
  "Header_Get h k = (case map_of h (canon k) of Some (v # vs) \<Rightarrow> v | _ \<Rightarrow> '''')"

definition Header_Set :: "string \<Rightarrow> string \<Rightarrow> header \<Rightarrow> header" where
  "Header_Set k v h = AList.update (canon k) [v] h"

definition Header_Add :: "string \<Rightarrow> string \<Rightarrow> header \<Rightarrow> header" where
  "Header_Add k v h =
     AList.update (canon k) ((case map_of h (canon k) of None \<Rightarrow> [] | Some vs \<Rightarrow> vs) @ [v]) h"

definition Header_Del :: "string \<Rightarrow> header \<Rightarrow> header" where
  "Header_Del k h = AList.delete (canon k) h"

section \<open>Requests, responses and the response writer\<close>

record request =
  rq_method :: string
  rq_scheme :: string
  rq_urlhost :: string
  rq_host :: string
  rq_uri :: string
  rq_header :: header

record response =
  rs_status :: int
  rs_header :: header
  rs_body :: "byte list"

record writer =
  wr_header :: header
  wr_sent :: "(int \<times> header) option"
  wr_body :: "byte list"

definition new_writer :: writer where
  "new_writer = \<lparr>wr_header = [], wr_sent = None, wr_body = []\<rparr>"

text \<open>A status is sent once, with the header of that moment; informational ones (but 101) are not final.
  None: the panic on a status that has no three digits.\<close>

definition put_status :: "int \<Rightarrow> writer \<Rightarrow> writer" where
  "put_status code w =
     (if wr_sent w \<noteq> None \<or> 100 \<le> code \<and> code < 200 \<and> code \<noteq> 101 then w
      else w\<lparr>wr_sent := Some (code, wr_header w)\<rparr>)"

definition WriteHeader :: "int \<Rightarrow> writer \<Rightarrow> writer option" where
  "WriteHeader code w =
     (if wr_sent w = None \<and> (code < 100 \<or> code > 999) then None else Some (put_status code w))"

text \<open>A write sends status 200 if none was sent; some statuses have no body.\<close>

definition body_allowed :: "int \<Rightarrow> bool" where
  "body_allowed code \<longleftrightarrow> \<not> (100 \<le> code \<and> code < 200 \<or> code = 204 \<or> code = 304)"

definition write_body :: "byte list \<Rightarrow> writer \<Rightarrow> writer" where
  "write_body bs w =
     (if bs = [] then w
      else let w = put_status 200 w
           in case wr_sent w of
                None \<Rightarrow> w
              | Some (code, h) \<Rightarrow> if body_allowed code then w\<lparr>wr_body := wr_body w @ bs\<rparr> else w)"

definition http_Error :: "string \<Rightarrow> int \<Rightarrow> writer \<Rightarrow> writer" where
  "http_Error msg code w =
     (let h = Header_Del ''Content-Length'' (wr_header w);
          h = Header_Set ''Content-Type'' ''text/plain; charset=utf-8'' h;
          h = Header_Set ''X-Content-Type-Options'' ''nosniff'' h
      in write_body (bytes_of (msg @ [CHR 0x0A])) (put_status code (w\<lparr>wr_header := h\<rparr>)))"

section \<open>Credentials\<close>

definition parseBasicAuth :: "string \<Rightarrow> (string \<times> string) option" where
  "parseBasicAuth h =
     (if \<not> HasPrefix h ''Basic '' then None
      else (case b64_decode (TrimSpace (drop (length ''Basic '') h)) of
              None \<Rightarrow> None
            | Some raw \<Rightarrow>
                (let s = string_of raw
                 in case IndexByte s (CHR '':'') of
                      None \<Rightarrow> None
                    | Some i \<Rightarrow> Some (take i s, drop (i + 1) s))))"

section \<open>The handlers\<close>

definition isNetErr :: "go_error \<Rightarrow> bool" where
  "isNetErr e = err_op e"

definition reject :: "'c node \<Rightarrow> writer \<times> 'c node" where
  "reject n =
     (put_status 407 (new_writer\<lparr>wr_header :=
        Header_Set ''Proxy-Authenticate'' (''Basic realm='' @ [CHR 0x22] @ ''v6pool'' @ [CHR 0x22]) []\<rparr>),
      on_stats (\<lambda>st. st\<lparr>Rejected := Rejected st + 1\<rparr>) n)"

text \<open>A round trip ends with an answer, or dials and goes on with what the dial returned; its dials are
  made with the handler's account and session.\<close>

datatype 'c trip = Answer "go_error + response" | Attempt string string "dial_error + 'c \<Rightarrow> 'c trip"

type_synonym 'c transport = "request \<Rightarrow> 'c trip"

primrec run_trip ::
  "'c dial \<Rightarrow> paccount \<Rightarrow> string \<Rightarrow> 'c trip \<Rightarrow> 'c node \<Rightarrow> ((go_error + response) \<times> 'c node) option" where
  "run_trip dial acct key (Answer a) n = Some (a, n)"
| "run_trip dial acct key (Attempt network addr next) n =
     (case dial network addr acct key n of
        None \<Rightarrow> None
      | Some (r, n) \<Rightarrow> run_trip dial acct key (next r) n)"

definition RoundTrip ::
  "'c dial \<Rightarrow> 'c transport \<Rightarrow> paccount \<Rightarrow> string \<Rightarrow> request \<Rightarrow> 'c node \<Rightarrow> ((go_error + response) \<times> 'c node) option" where
  "RoundTrip dial tr acct key out n = run_trip dial acct key (tr out) n"

text \<open>What the client got: a response, a tunnel (what was written to the hijacked connection, and the
  upstream it was relayed to, if any), or a connection cut by a panic.\<close>

datatype 'c outcome = Reply writer | Tunnelled "string list" "'c option" | Panicked

text \<open>The surroundings of one request: the transport, whether the writer is a hijacker and hijacking
  works, the local address of a connection, the time the request takes, the relay.\<close>

record 'c henv =
  he_tr :: "'c transport"
  he_hijack :: "bool option"
  he_laddr :: "'c \<Rightarrow> string"
  he_dur :: int
  he_tunnel :: tunnel

definition crlf :: string where
  "crlf = [CHR 0x0D, CHR 0x0A]"

definition handleCONNECT ::
  "'c dial \<Rightarrow> 'c henv \<Rightarrow> request \<Rightarrow> paccount \<Rightarrow> string \<Rightarrow> 'c node \<Rightarrow> ('c outcome \<times> 'c node) option" where
  "handleCONNECT dial he r acct key n =
     (let dst = (if rq_host r = '''' then rq_urlhost r else rq_host r)
      in case he_hijack he of
           None \<Rightarrow> Some (Panicked, n)
         | Some False \<Rightarrow> Some (Reply (http_Error ''hijack failed'' 500 new_writer), n)
         | Some True \<Rightarrow>
             (case dial ''tcp'' dst acct key n of
                None \<Rightarrow> None
              | Some (Inl e, n) \<Rightarrow>
                  Some (Tunnelled [''HTTP/1.1 502 Bad Gateway'' @ crlf @ crlf] None,
                        write_log (logReq (nd_px n) acct key ''CONNECT'' dst 502 [] (he_dur he)) n)
              | Some (Inr up, n) \<Rightarrow>
                  Some (Tunnelled [''HTTP/1.1 200 Connection Established'' @ crlf @ crlf] (Some up),
                        start_relay (he_tunnel he)
                          (write_log (logReq (nd_px n) acct key ''CONNECT'' dst 200 (local_ip (he_laddr he up))
                                       (he_dur he)) n))))"

definition gateway_error :: "go_error \<Rightarrow> writer" where
  "gateway_error e =
     (if err_net e = Some True then http_Error ''gateway timeout'' 504 new_writer
      else if isNetErr e then http_Error ''bad gateway'' 502 new_writer
      else http_Error ''bad gateway'' 500 new_writer)"

definition copy_header :: "header \<Rightarrow> header \<Rightarrow> header" where
  "copy_header src h = fold (\<lambda>(k, vv) h. fold (\<lambda>v h. Header_Add k v h) vv h) src h"

definition forwarded :: "request \<Rightarrow> request" where
  "forwarded r = r\<lparr>rq_header := Header_Del ''Proxy-Authorization'' (rq_header r), rq_uri := ''''\<rparr>"

text \<open>Forwarding: the request's \<open>srcRecorder\<close> starts empty and is what the log line shows as the source.\<close>

definition forward ::
  "'c dial \<Rightarrow> 'c henv \<Rightarrow> request \<Rightarrow> paccount \<Rightarrow> string \<Rightarrow> 'c node \<Rightarrow> ('c outcome \<times> 'c node) option" where
  "forward dial he r acct key n =
     (case RoundTrip dial (he_tr he) acct key (forwarded r) (n\<lparr>nd_rec := []\<rparr>) of
        None \<Rightarrow> None
      | Some (Inl e, n) \<Rightarrow>
          Some (Reply (gateway_error e),
                write_log (logReq (nd_px n) acct key (rq_method r) (rq_host r) 502 (nd_rec n) (he_dur he)) n)
      | Some (Inr resp, n) \<Rightarrow>
          (case WriteHeader (rs_status resp) (new_writer\<lparr>wr_header := copy_header (rs_header resp) []\<rparr>) of
             None \<Rightarrow> Some (Panicked, n)
           | Some w \<Rightarrow>
               Some (Reply (write_body (rs_body resp) w),
                     write_log (logReq (nd_px n) acct key (rq_method r) (rq_host r) (rs_status resp) (nd_rec n)
                                  (he_dur he)) n)))"

definition handleHTTP ::
  "'c dial \<Rightarrow> 'c henv \<Rightarrow> request \<Rightarrow> 'c node \<Rightarrow> ('c outcome \<times> 'c node) option" where
  "handleHTTP dial he r n =
     (let n = on_stats (\<lambda>st. st\<lparr>HTTPReqs := HTTPReqs st + 1\<rparr>) n
      in case parseBasicAuth (Header_Get (rq_header r) ''Proxy-Authorization'') of
           None \<Rightarrow> (let (w, n) = reject n in Some (Reply w, n))
         | Some (user, pass) \<Rightarrow>
             (case authenticate (nd_px n) user pass of
                None \<Rightarrow> (let (w, n) = reject n in Some (Reply w, n))
              | Some (acct, key) \<Rightarrow>
                  if rq_method r = ''CONNECT'' then handleCONNECT dial he r acct key n
                  else if rq_scheme r = '''' \<or> rq_urlhost r = '''' then Some (Reply (put_status 400 new_writer), n)
                  else forward dial he r acct key n))"

section \<open>Basic credentials\<close>

text \<open>ASCII text without white space is what \<open>TrimSpace\<close> leaves as it is.\<close>

lemma unicode_spaces_high: "u \<in> set unicode_spaces \<Longrightarrow> u \<noteq> [] \<and> list_all (\<lambda>x. 128 \<le> x) u"
  by (auto simp: unicode_spaces_def)

lemma no_unicode_space:
  assumes "list_all (\<lambda>c. (of_char c :: nat) < 128) t"
  shows "u \<in> set unicode_spaces \<Longrightarrow> map of_char t \<noteq> u"
  using unicode_spaces_high[of u] assms by (cases t) auto

lemma TrimSpace_plain:
  assumes "list_all (\<lambda>c. (of_char c :: nat) < 128 \<and> \<not> ascii_space c) s"
  shows "TrimSpace s = s"
proof -
  have t: "list_all (\<lambda>c. (of_char c :: nat) < 128) (take k s)"
    "list_all (\<lambda>c. (of_char c :: nat) < 128) (rev (take k (rev s)))" for k
    using assms by (auto simp: list_all_iff dest!: in_set_takeD)
  have f: "find (\<lambda>u. map of_char (take (length u) s) = u) unicode_spaces = None"
    "find (\<lambda>u. map of_char (rev (take (length u) (rev s))) = u) unicode_spaces = None"
    using no_unicode_space[OF t(1)] no_unicode_space[OF t(2)] by (auto simp: find_None_iff)
  have "space_len s = 0" using f(1) assms by (cases s) (auto simp: space_len_def)
  moreover have "space_len_end s = 0"
    using f(2) assms by (cases "rev s") (auto simp: space_len_end_def list_all_iff)
  ultimately show ?thesis by (simp add: TrimSpace_def trim_left.simps trim_right.simps)
qed

lemma b64_encode_plain: "list_all (\<lambda>c. (of_char c :: nat) < 128 \<and> \<not> ascii_space c) (b64_encode bs)"
  by (induction bs rule: b64_encode.induct) (simp_all add: ascii_space_def[of "CHR ''=''"])

definition basic_auth :: "string \<times> string \<Rightarrow> string" where
  "basic_auth c = ''Basic '' @ b64_encode (bytes_of (fst c @ CHR '':'' # snd c))"

lemma parseBasicAuth_basic_auth:
  "CHR '':'' \<notin> set user \<Longrightarrow> parseBasicAuth (basic_auth (user, pass)) = Some (user, pass)"
  by (simp add: parseBasicAuth_def basic_auth_def HasPrefix_def TrimSpace_plain b64_encode_plain
      b64_decode_encode IndexByte_append)

interpretation basic: codec basic_auth parseBasicAuth "\<lambda>c. CHR '':'' \<notin> set (fst c)"
  by unfold_locales (auto simp: parseBasicAuth_basic_auth)


section \<open>The handlers return\<close>

text \<open>What a handler leaves: the counters of requests, connections and rejections as they were, \<open>k\<close> new
  relays, all relays accounted for.\<close>

definition served :: "nat \<Rightarrow> 'c node \<Rightarrow> 'c node \<Rightarrow> bool" where
  "served k n m \<longleftrightarrow> HTTPReqs (px_stats (nd_px m)) = HTTPReqs (px_stats (nd_px n))
     \<and> SOCKSConns (px_stats (nd_px m)) = SOCKSConns (px_stats (nd_px n))
     \<and> Rejected (px_stats (nd_px m)) = Rejected (px_stats (nd_px n))
     \<and> ActiveConns (px_stats (nd_px m)) = ActiveConns (px_stats (nd_px n)) + int k
     \<and> length (nd_relays m) = length (nd_relays n) + k
     \<and> (relays_counted n \<longrightarrow> relays_counted m)"

lemma served_refl [simp]: "served 0 n n"
  by (simp add: served_def)

lemma served_site:
  "same_site (nd_px n) (nd_px m) \<Longrightarrow> nd_relays m = nd_relays n \<Longrightarrow> served 0 n m"
  using relays_counted_cong[of m n] by (simp add: same_site_def traffic_def served_def)

lemma served_log: "served k n m \<Longrightarrow> served k n (write_log ls m)"
  using relays_counted_cong[of "write_log ls m" m] by (simp add: served_def)

lemma served_start: "served 0 n m \<Longrightarrow> served 1 n (start_relay t m)"
  using relays_counted_start[of m t] start_relay_simps(1)[of m t]
  by (simp add: served_def same_buckets_def)

lemma served_rec: "served k (n\<lparr>nd_rec := ip\<rparr>) m = served k n m"
  by (simp add: served_def relays_counted_def)

text \<open>The number of relays an outcome stands for.\<close>

definition tunnels :: "'c outcome \<Rightarrow> nat" where
  "tunnels out = (case out of Tunnelled ws (Some up) \<Rightarrow> 1 | _ \<Rightarrow> 0)"

lemma tunnels_simps [simp]:
  "tunnels (Tunnelled ws (Some up)) = 1" "tunnels (Tunnelled ws None) = 0" "tunnels (Reply w) = 0"
  "tunnels Panicked = 0"
  by (simp_all add: tunnels_def)

text \<open>The counters of a request: one more request, and a rejection if its credentials fail.\<close>

definition reject_count :: "request \<Rightarrow> 'c node \<Rightarrow> u64" where
  "reject_count r n =
     (case parseBasicAuth (Header_Get (rq_header r) ''Proxy-Authorization'') of None \<Rightarrow> 1
      | Some (u, s) \<Rightarrow> if authenticate (nd_px n) u s = None then 1 else 0)"

context upstream
begin

lemma run_trip_ok:
  "ok n \<Longrightarrow> \<exists>a m. run_trip dial acct key t n = Some (a, m) \<and> ok m \<and> same_site (nd_px n) (nd_px m)
     \<and> nd_log m = nd_log n \<and> nd_rec m = nd_rec n \<and> nd_relays m = nd_relays n"
proof (induction t arbitrary: n)
  case (Attempt network addr nxt)
  obtain r n1 where n1: "dial network addr acct key n = Some (r, n1)" "ok n1" "same_site (nd_px n) (nd_px n1)"
    "nd_log n1 = nd_log n" "nd_rec n1 = nd_rec n" "nd_relays n1 = nd_relays n" by (rule dialE[OF Attempt.prems])
  from Attempt.IH[of "nxt r", OF _ n1(2)] show ?case
    using n1 by (auto intro: same_site_trans)
qed simp

lemma forward_returns:
  assumes "ok n"
  obtains out m where "forward dial he r acct key n = Some (out, m)" "ok m" "served (tunnels out) n m"
proof -
  let ?n = "n\<lparr>nd_rec := []\<rparr>"
  obtain a m where m: "RoundTrip dial (he_tr he) acct key (forwarded r) ?n = Some (a, m)" "ok m" "served 0 n m"
    using run_trip_ok[OF ok_rec[OF assms]] served_site[of ?n] by (simp add: RoundTrip_def served_rec) blast
  show ?thesis
  proof (cases a)
    case (Inl e)
    let ?m = "write_log (logReq (nd_px m) acct key (rq_method r) (rq_host r) 502 (nd_rec m) (he_dur he)) m"
    show ?thesis using m Inl ok_write_log[OF m(2)] served_log[OF m(3)]
      by (intro that[of "Reply (gateway_error e)" ?m]) (simp_all add: forward_def)
  next
    case (Inr resp)
    show ?thesis
    proof (cases "WriteHeader (rs_status resp) (new_writer\<lparr>wr_header := copy_header (rs_header resp) []\<rparr>)")
      case None
      then show ?thesis using m Inr by (intro that[of Panicked m]) (auto simp: forward_def)
    next
      case (Some w)
      then show ?thesis using m Inr ok_write_log served_log
        by (intro that[of "Reply (write_body (rs_body resp) w)" "write_log
            (logReq (nd_px m) acct key (rq_method r) (rq_host r) (rs_status resp) (nd_rec m) (he_dur he)) m"])
          (simp_all add: forward_def)
    qed
  qed
qed

lemma handleCONNECT_returns:
  assumes "ok n"
  obtains out m where "handleCONNECT dial he r acct key n = Some (out, m)" "ok m" "served (tunnels out) n m"
proof (cases "he_hijack he = Some True")
  case True
  let ?dst = "if rq_host r = '''' then rq_urlhost r else rq_host r"
  obtain x n1 where n1: "dial ''tcp'' ?dst acct key n = Some (x, n1)" "ok n1" "same_site (nd_px n) (nd_px n1)"
    "nd_relays n1 = nd_relays n"
    by (rule dialE[OF assms])
  have s1: "served 0 n n1" using served_site n1 by blast
  show ?thesis
  proof (cases x)
    case (Inl e)
    then show ?thesis using n1 True served_log[OF s1]
      by (intro that[OF _ ok_write_log[OF n1(2)]]) (auto simp: handleCONNECT_def)
  next
    case (Inr up)
    show ?thesis
      using n1(1) Inr True served_start[OF served_log[OF s1]]
      by (intro that[OF _ start_relay_ok[OF ok_write_log[OF n1(2)]]]) (auto simp: handleCONNECT_def)
  qed
next
  case False
  then consider "he_hijack he = None" | "he_hijack he = Some False" by (cases "he_hijack he") auto
  then show ?thesis
    by cases (use assms(1) that in \<open>simp_all add: handleCONNECT_def\<close>)
qed

lemma ok_counted:
  assumes "ok n"
  shows "ok (on_stats (\<lambda>st. st\<lparr>HTTPReqs := HTTPReqs st + 1\<rparr>) n)"
    "ok (on_stats (\<lambda>st. st\<lparr>SOCKSConns := SOCKSConns st + 1\<rparr>) n)"
    "ok (on_stats (\<lambda>st. st\<lparr>Rejected := Rejected st + 1\<rparr>) n)"
  using assms by (simp_all add: ok_on_stats)

lemma handleHTTP_returns:
  assumes "ok n"
  obtains out m where "handleHTTP dial he r n = Some (out, m)" "ok m"
    "served (tunnels out) (on_stats (\<lambda>st. st\<lparr>HTTPReqs := HTTPReqs st + 1, Rejected := Rejected st + reject_count r n\<rparr>) n) m"
proof -
  let ?n = "on_stats (\<lambda>st. st\<lparr>HTTPReqs := HTTPReqs st + 1\<rparr>) n"
  have n1: "ok ?n" using ok_counted(1)[OF assms(1)] .
  have rej: "on_stats (\<lambda>st. st\<lparr>Rejected := Rejected st + 1\<rparr>) ?n
      = on_stats (\<lambda>st. st\<lparr>HTTPReqs := HTTPReqs st + 1, Rejected := Rejected st + 1\<rparr>) n" by simp
  show ?thesis
  proof (cases "parseBasicAuth (Header_Get (rq_header r) ''Proxy-Authorization'')")
    case None
    then show ?thesis using ok_counted(3)[OF n1]
      by (intro that[of "Reply (fst (reject n))", OF _ ok_counted(3)[OF n1]])
        (simp_all add: handleHTTP_def reject_def reject_count_def)
  next
    case (Some us)
    obtain u s where us: "us = (u, s)" by fastforce
    show ?thesis
    proof (cases "authenticate (nd_px n) u s")
      case None
      then show ?thesis using Some us
        by (intro that[of "Reply (fst (reject n))", OF _ ok_counted(3)[OF n1]])
        (simp_all add: handleHTTP_def reject_def reject_count_def)
    next
      case (Some ak)
      obtain acct key where ak: "ak = (acct, key)" by fastforce
      obtain out1 m1 where c: "handleCONNECT dial he r acct key ?n = Some (out1, m1)" "ok m1"
        "served (tunnels out1) ?n m1" by (rule handleCONNECT_returns[OF n1])
      obtain out2 m2 where f: "forward dial he r acct key ?n = Some (out2, m2)" "ok m2"
        "served (tunnels out2) ?n m2" by (rule forward_returns[OF n1])
      note auth = \<open>parseBasicAuth _ = _\<close>[unfolded us] Some[unfolded ak]
      consider "rq_method r = ''CONNECT''" | "rq_method r \<noteq> ''CONNECT''" "rq_scheme r = '''' \<or> rq_urlhost r = ''''"
        | "rq_method r \<noteq> ''CONNECT''" "\<not> (rq_scheme r = '''' \<or> rq_urlhost r = '''')" by blast
      then show ?thesis
      proof cases
        case 1
        then show ?thesis using c auth by (intro that[of out1 m1]) (simp_all add: handleHTTP_def reject_count_def)
      next
        case 2
        then show ?thesis using n1 auth
          by (intro that[of "Reply (put_status 400 new_writer)" ?n]) (simp_all add: handleHTTP_def reject_count_def)
      next
        case 3
        then show ?thesis using f auth by (intro that[of out2 m2]) (simp_all add: handleHTTP_def reject_count_def)
      qed
    qed
  qed
qed

end


section \<open>Properties\<close>

lemma canon_keys [simp]:
  "canon ''Proxy-Authorization'' = ''Proxy-Authorization''" "canon ''Proxy-Authenticate'' = ''Proxy-Authenticate''"
  "canon ''Content-Type'' = ''Content-Type''" "canon ''Content-Length'' = ''Content-Length''"
  "canon ''X-Content-Type-Options'' = ''X-Content-Type-Options''"
  by code_simp+

text \<open>C8. A request whose credentials are missing, malformed or wrong is answered 407 with a challenge and
  nothing else happens: whatever the request, the dialer and the transport, the node is the one
  before but for the two counters, so nothing was dialled, picked, claimed or logged.\<close>

theorem unauthenticated_rejected:
  assumes "case parseBasicAuth (Header_Get (rq_header r) ''Proxy-Authorization'') of
      None \<Rightarrow> True | Some (user, pass) \<Rightarrow> authenticate (nd_px n) user pass = None"
  shows "handleHTTP dial he r n =
    (let h = [(''Proxy-Authenticate'', [''Basic realm='' @ [CHR 0x22] @ ''v6pool'' @ [CHR 0x22]])]
     in Some (Reply \<lparr>wr_header = h, wr_sent = Some (407, h), wr_body = []\<rparr>,
              on_stats (\<lambda>st. st\<lparr>HTTPReqs := HTTPReqs st + 1, Rejected := Rejected st + 1\<rparr>) n))"
  using assms
  by (auto simp: handleHTTP_def reject_def put_status_def new_writer_def Header_Set_def Let_def
      split: option.splits)

definition sample_henv :: "nat henv" where
  "sample_henv = \<lparr>he_tr = (\<lambda>r. Attempt ''tcp'' (rq_urlhost r @ '':80'')
       (\<lambda>c. Answer (Inr \<lparr>rs_status = 200, rs_header = [(''Server'', [''x''])], rs_body = [1, 2]\<rparr>))),
     he_hijack = Some True, he_laddr = (\<lambda>c. ''''), he_dur = 7000000, he_tunnel = sample_tunnel\<rparr>"

definition sample_request :: "string \<Rightarrow> string \<Rightarrow> request" where
  "sample_request meth auth = \<lparr>rq_method = meth, rq_scheme = ''http'', rq_urlhost = ''example.org'',
     rq_host = ''example.org'', rq_uri = ''http://example.org/'', rq_header = [(''Proxy-Authorization'', [auth])]\<rparr>"

lemma sample_request_auth [simp]:
  "Header_Get (rq_header (sample_request meth auth)) ''Proxy-Authorization'' = auth"
  by (simp add: sample_request_def Header_Get_def)

theorem unauthenticated_rejected_witness:
  "map_option (\<lambda>(out, m). Rejected (px_stats (nd_px m)))
     (handleHTTP dial_node sample_henv (sample_request ''GET'' (basic_auth (''u'', ''q''))) sample_node) = Some 1"
proof -
  have "case parseBasicAuth (Header_Get (rq_header (sample_request ''GET'' (basic_auth (''u'', ''q''))))
      ''Proxy-Authorization'') of None \<Rightarrow> True | Some (user, pass) \<Rightarrow> authenticate (nd_px sample_node) user pass = None"
    by (simp add: parseBasicAuth_basic_auth)
  from unauthenticated_rejected[OF this, of dial_node sample_henv] show ?thesis
    by (simp add: Let_def sample_node_def pool_proxy_def sample_proxy_def New_stats_def)
qed

text \<open>C35. Credentials round trip: whatever the user name (without a colon), the session token and the
  password, the credentials a client encodes are the ones the handler decodes; a client with an
  account's credentials has its CONNECT handled as that account, and its other requests forwarded
  as that account.\<close>

theorem credentials_accepted:
  assumes "CHR '':'' \<notin> set user" "Header_Get (rq_header r) ''Proxy-Authorization'' = basic_auth (user, pass)"
    "authenticate (nd_px n) user pass = Some (acct, key)"
  shows "handleHTTP dial he r n =
    (let n = on_stats (\<lambda>st. st\<lparr>HTTPReqs := HTTPReqs st + 1\<rparr>) n
     in if rq_method r = ''CONNECT'' then handleCONNECT dial he r acct key n
        else if rq_scheme r = '''' then Some (Reply (put_status 400 new_writer), n)
        else if rq_urlhost r = '''' then Some (Reply (put_status 400 new_writer), n)
        else forward dial he r acct key n)"
  using assms by (simp add: handleHTTP_def parseBasicAuth_basic_auth Let_def)

theorem credentials_accepted_witness:
  "handleHTTP dial_node sample_henv (sample_request ''CONNECT'' (basic_auth (''u'', ''p''))) sample_node
   = handleCONNECT dial_node sample_henv (sample_request ''CONNECT'' (basic_auth (''u'', ''p''))) sample_acct ''''
       (on_stats (\<lambda>st. st\<lparr>HTTPReqs := HTTPReqs st + 1\<rparr>) sample_node)"
  using credentials_accepted[OF _ sample_request_auth sample_auth(1), of dial_node sample_henv "''CONNECT''"]
  by (simp add: Let_def sample_request_def)

text \<open>C15. The proxy credentials stay with the proxy: two transports that agree on every request without a
  Proxy-Authorization header cannot be told apart through the handler, whatever the client sent.\<close>

theorem credentials_not_forwarded:
  assumes "\<And>q. map_of (rq_header q) ''Proxy-Authorization'' = None \<Longrightarrow> tr q = tr' q"
  shows "handleHTTP dial (he\<lparr>he_tr := tr\<rparr>) r n = handleHTTP dial (he\<lparr>he_tr := tr'\<rparr>) r n"
proof -
  have "map_of (rq_header (forwarded r)) ''Proxy-Authorization'' = None"
    by (simp add: forwarded_def Header_Del_def map_of_delete)
  from assms[OF this] have "RoundTrip dial tr acct key (forwarded r) m = RoundTrip dial tr' acct key (forwarded r) m"
    for acct key m by (simp add: RoundTrip_def)
  then have "forward dial (he\<lparr>he_tr := tr\<rparr>) r acct key m = forward dial (he\<lparr>he_tr := tr'\<rparr>) r acct key m"
    for acct key m by (simp add: forward_def cong: option.case_cong sum.case_cong prod.case_cong)
  moreover have "handleCONNECT dial (he\<lparr>he_tr := tr\<rparr>) r acct key m = handleCONNECT dial (he\<lparr>he_tr := tr'\<rparr>) r acct key m"
    for acct key m
    by (simp add: handleCONNECT_def cong: option.case_cong sum.case_cong prod.case_cong bool.case_cong)
  ultimately show ?thesis
    by (simp add: handleHTTP_def cong: option.case_cong prod.case_cong if_cong)
qed

theorem credentials_not_forwarded_witness:
  "handleHTTP dial_node (sample_henv\<lparr>he_tr := \<lambda>q. Answer (Inr
       \<lparr>rs_status = 200, rs_header = [(''Echo'', case map_of (rq_header q) ''Proxy-Authorization'' of None \<Rightarrow> [] | Some vs \<Rightarrow> vs)],
        rs_body = []\<rparr>)\<rparr>) (sample_request ''GET'' (basic_auth (''u'', ''p''))) sample_node
   = handleHTTP dial_node (sample_henv\<lparr>he_tr := \<lambda>q. Answer (Inr
       \<lparr>rs_status = 200, rs_header = [(''Echo'', [])], rs_body = []\<rparr>)\<rparr>)
       (sample_request ''GET'' (basic_auth (''u'', ''p''))) sample_node"
  by (rule credentials_not_forwarded) simp

text \<open>C36. Every HTTP request is handled and accounted for: from a consistent node, whatever the request, the
  transport and the network, the handler goes all the way to its reply or to the start of its relay,
  the node is consistent again, the request is counted once, a rejection is counted exactly for failed
  credentials, and the gauge of active connections grows, by one, exactly when a tunnel to an upstream
  was opened, which is then one more relay of the node.\<close>

theorem handleHTTP_counts:
  assumes "node_ok n"
  shows "\<exists>out m. handleHTTP dial_node he r n = Some (out, m) \<and> node_ok m
    \<and> HTTPReqs (px_stats (nd_px m)) = HTTPReqs (px_stats (nd_px n)) + 1
    \<and> SOCKSConns (px_stats (nd_px m)) = SOCKSConns (px_stats (nd_px n))
    \<and> ActiveConns (px_stats (nd_px m)) = ActiveConns (px_stats (nd_px n))
        + (case out of Tunnelled ws (Some up) \<Rightarrow> 1 | _ \<Rightarrow> 0)
    \<and> length (nd_relays m) = length (nd_relays n) + (case out of Tunnelled ws (Some up) \<Rightarrow> 1 | _ \<Rightarrow> 0)
    \<and> Rejected (px_stats (nd_px m)) = Rejected (px_stats (nd_px n))
        + (case parseBasicAuth (Header_Get (rq_header r) ''Proxy-Authorization'') of None \<Rightarrow> 1
           | Some (u, s) \<Rightarrow> if authenticate (nd_px n) u s = None then 1 else 0)"
proof -
  obtain out m where m: "handleHTTP dial_node he r n = Some (out, m)" "node_ok m"
    "served (tunnels out) (on_stats (\<lambda>st. st\<lparr>HTTPReqs := HTTPReqs st + 1, Rejected := Rejected st + reject_count r n\<rparr>) n) m"
    by (rule direct.handleHTTP_returns[OF assms])
  have "tunnels out = (case out of Tunnelled ws (Some up) \<Rightarrow> 1 | _ \<Rightarrow> 0)"
    "int (tunnels out) = (case out of Tunnelled ws (Some up) \<Rightarrow> 1 | _ \<Rightarrow> 0)"
    by (auto simp: tunnels_def split: outcome.split option.split)
  with m show ?thesis by (intro exI[of _ out] exI[of _ m]) (simp add: served_def reject_count_def)
qed

theorem handleHTTP_counts_witness:
  "\<exists>out m. handleHTTP dial_node sample_henv (sample_request ''CONNECT'' (basic_auth (''u'', ''p''))) sample_node = Some (out, m)
     \<and> node_ok m \<and> HTTPReqs (px_stats (nd_px m)) = 1 \<and> Rejected (px_stats (nd_px m)) = 0"
  using handleHTTP_counts[OF sample_node_ok, of sample_henv "sample_request ''CONNECT'' (basic_auth (''u'', ''p''))"]
  by (auto simp: parseBasicAuth_basic_auth)
    (auto simp: sample_node_def pool_proxy_def sample_proxy_def New_stats_def)

text \<open>Headers whose keys are canonical, distinct and have a value are copied as they are.\<close>

definition header_wf :: "header \<Rightarrow> bool" where
  "header_wf h \<longleftrightarrow> distinct (map fst h) \<and> list_all (\<lambda>(k, vs). canon k = k \<and> vs \<noteq> []) h"

lemma update_append:
  "k \<notin> set (map fst h) \<Longrightarrow> AList.update k v (h @ [(k, w)]) = h @ [(k, v)]"
  "k \<notin> set (map fst h) \<Longrightarrow> AList.update k v h = h @ [(k, v)]"
  by (induction h) auto

lemma Header_Add_values:
  "canon k = k \<Longrightarrow> k \<notin> set (map fst h) \<Longrightarrow>
   fold (\<lambda>v h. Header_Add k v h) vs (h @ [(k, ws)]) = h @ [(k, ws @ vs)]"
proof (induction vs arbitrary: ws)
  case (Cons v vs)
  have "map_of (h @ [(k, ws)]) k = Some ws"
    using Cons.prems(2) by (simp add: map_add_Some_iff map_of_eq_None_iff map_of_append)
  then have "Header_Add k v (h @ [(k, ws)]) = h @ [(k, ws @ [v])]"
    using Cons.prems by (simp add: Header_Add_def update_append)
  with Cons show ?case by simp
qed simp

lemma Header_Add_new:
  "canon k = k \<Longrightarrow> k \<notin> set (map fst h) \<Longrightarrow> vs \<noteq> [] \<Longrightarrow>
   fold (\<lambda>v h. Header_Add k v h) vs h = h @ [(k, vs)]"
proof (cases vs)
  case (Cons v vs')
  assume *: "canon k = k" "k \<notin> set (map fst h)"
  then have "map_of h k = None" by (simp add: map_of_eq_None_iff)
  then have "Header_Add k v h = h @ [(k, [v])]" using * by (simp add: Header_Add_def update_append)
  then show ?thesis using Cons Header_Add_values[OF *, of vs' "[v]"] by simp
qed simp

lemma copy_header_append:
  "header_wf (h @ src) \<Longrightarrow> copy_header src h = h @ src"
proof (induction src arbitrary: h)
  case (Cons e src)
  obtain k vs where e: "e = (k, vs)" by fastforce
  have "fold (\<lambda>v h. Header_Add k v h) vs h = h @ [(k, vs)]"
    by (rule Header_Add_new) (use Cons.prems e in \<open>auto simp: header_wf_def\<close>)
  moreover have "copy_header src (h @ [e]) = (h @ [e]) @ src" using Cons.IH[of "h @ [e]"] Cons.prems by simp
  ultimately show ?case by (simp add: copy_header_def e)
qed (simp add: copy_header_def)

text \<open>The dialer leaves the request's \<open>srcRecorder\<close> as it is.\<close>

lemma direct_trip_rec:
  "RoundTrip dial_node tr acct key out n = Some (a, m) \<Longrightarrow> nd_rec m = nd_rec n"
proof -
  have "run_trip dial_node acct key t n = Some (a, m) \<Longrightarrow> nd_rec m = nd_rec n" for t
  proof (induction t arbitrary: n)
    case (Attempt network addr nxt)
    then obtain r n1 where n1: "dial_node network addr acct key n = Some (r, n1)"
      "run_trip dial_node acct key (nxt r) n1 = Some (a, m)" by (auto split: option.splits)
    from Attempt.IH[OF _ n1(2)] direct.dial_keeps[OF n1(1)] show ?case by simp
  qed simp
  then show "RoundTrip dial_node tr acct key out n = Some (a, m) \<Longrightarrow> nd_rec m = nd_rec n" by (simp add: RoundTrip_def)
qed

text \<open>Copying any headers: every key gets, in order, the values of the entries whose canonical key it is.\<close>

definition vals :: "header \<Rightarrow> string \<Rightarrow> string list" where
  "vals h j = (case map_of h j of None \<Rightarrow> [] | Some vs \<Rightarrow> vs)"

definition no_empty :: "header \<Rightarrow> bool" where
  "no_empty h \<longleftrightarrow> (\<forall>j. map_of h j \<noteq> Some [])"

lemma Header_Add_vals: "vals (Header_Add k v h) j = vals h j @ (if j = canon k then [v] else [])"
  by (simp add: vals_def Header_Add_def update_conv')

lemma Header_Add_no_empty: "no_empty h \<Longrightarrow> no_empty (Header_Add k v h)"
  by (simp add: no_empty_def Header_Add_def update_conv')

lemma add_all_vals:
  "vals (fold (\<lambda>v h. Header_Add k v h) vs h) j = vals h j @ (if j = canon k then vs else [])"
  "no_empty h \<Longrightarrow> no_empty (fold (\<lambda>v h. Header_Add k v h) vs h)"
  by (induction vs arbitrary: h) (simp_all add: Header_Add_vals Header_Add_no_empty)

lemma copy_header_vals:
  "vals (copy_header src h) j = vals h j @ concat (map snd (filter (\<lambda>(k, _). canon k = j) src))"
  "no_empty h \<Longrightarrow> no_empty (copy_header src h)"
  by (induction src arbitrary: h) (auto simp: copy_header_def add_all_vals)

lemma map_of_copy_header:
  "map_of (copy_header src []) j =
     (let vs = concat (map snd (filter (\<lambda>(k, _). canon k = j) src)) in if vs = [] then None else Some vs)"
proof -
  let ?h = "copy_header src []" and ?vs = "concat (map snd (filter (\<lambda>(k, _). canon k = j) src))"
  have v: "vals ?h j = ?vs" unfolding copy_header_vals(1) by (simp add: vals_def)
  have "no_empty ?h" by (rule copy_header_vals(2)) (simp add: no_empty_def)
  then have ne: "map_of ?h j \<noteq> Some []" unfolding no_empty_def by blast
  show ?thesis
  proof (cases "map_of ?h j")
    case None
    then have "?vs = []" using v by (simp only: vals_def option.case)
    with None show ?thesis by (simp only: Let_def simp_thms if_True)
  next
    case (Some ws)
    then have "?vs = ws" using v by (simp only: vals_def option.case)
    moreover have "ws \<noteq> []" using Some ne by blast
    ultimately have "?vs = ws" "ws \<noteq> []" .
    with Some show ?thesis by (simp only: Let_def if_False)
  qed
qed

lemma copy_header_wf: "header_wf src \<Longrightarrow> copy_header src [] = src"
  using copy_header_append[of "[]" src] by simp

text \<open>C37. What a forwarded request is answered, for every answer of its round trip.  A failure becomes 504
  for a timeout, 502 for another network error and 500 otherwise, with its message.  A response whose
  status has no three digits panics the handler, unlogged.  Any other response reaches the client with
  its headers (per canonical key all its values in order; the very same headers when their keys are
  canonical and distinct), with its status if that is final (else with 200 as soon as there is a body)
  and with its body, but for the statuses that have none.  The log line has the upstream's status, but
  502 for every failure, and never a source address.\<close>

theorem forward_answer:
  assumes "RoundTrip dial_node (he_tr he) acct key (forwarded r) (n\<lparr>nd_rec := []\<rparr>) = Some (ans, m)"
  shows "case ans of
     Inl e \<Rightarrow>
       (\<exists>w. forward dial_node he r acct key n =
              Some (Reply w, write_log (logReq (nd_px m) acct key (rq_method r) (rq_host r) 502 [] (he_dur he)) m)
          \<and> map_option fst (wr_sent w) = Some (if err_net e = Some True then 504 else if err_op e then 502 else 500)
          \<and> wr_body w = bytes_of ((if err_net e = Some True then ''gateway timeout'' else ''bad gateway'') @ [CHR 0x0A]))
   | Inr resp \<Rightarrow>
       (let code = rs_status resp; final = (code = 101 \<or> 200 \<le> code)
        in if code < 100 \<or> 999 < code then forward dial_node he r acct key n = Some (Panicked, m)
           else (\<exists>h. forward dial_node he r acct key n =
                  Some (Reply \<lparr>wr_header = h,
                          wr_sent = (if final then Some (code, h) else if rs_body resp = [] then None else Some (200, h)),
                          wr_body = (if final \<and> (code = 101 \<or> code = 204 \<or> code = 304) then [] else rs_body resp)\<rparr>,
                        write_log (logReq (nd_px m) acct key (rq_method r) (rq_host r) code [] (he_dur he)) m)
                \<and> (\<forall>j. map_of h j =
                      (let vs = concat (map snd (filter (\<lambda>(k, _). canon k = j) (rs_header resp)))
                       in if vs = [] then None else Some vs))
                \<and> (header_wf (rs_header resp) \<longrightarrow> h = rs_header resp)))"
proof -
  have rec: "nd_rec m = []" using direct_trip_rec[OF assms] by simp
  show ?thesis
  proof (cases ans)
    case (Inl e)
    then show ?thesis
      by (simp add: forward_def assms rec gateway_error_def isNetErr_def http_Error_def put_status_def write_body_def
          new_writer_def bytes_of_def body_allowed_def Let_def)
  next
    case (Inr resp)
    have "code < 100 \<or> 999 < code \<or> code = 101 \<or> 200 \<le> code \<and> code \<le> 999 \<or> 100 \<le> code \<and> code < 200 \<and> code \<noteq> 101"
      for code :: int by linarith
    from this[of "rs_status resp"] show ?thesis
      by (auto simp: Inr forward_def assms rec copy_header_wf map_of_copy_header WriteHeader_def put_status_def write_body_def
          new_writer_def body_allowed_def Let_def)
  qed
qed

theorem forward_answer_witness:
  "\<exists>m. forward dial_node sample_henv (sample_request ''GET'' '''') sample_acct '''' sample_node =
     Some (Reply \<lparr>wr_header = [(''Server'', [''x''])], wr_sent = Some (200, [(''Server'', [''x''])]), wr_body = [1, 2]\<rparr>, m)"
proof -
  let ?r = "sample_request ''GET'' ''''" and ?x = "\<lparr>rs_status = 200, rs_header = [(''Server'', [''x''])], rs_body = [1, 2]\<rparr>"
  have "node_ok (sample_node\<lparr>nd_rec := []\<rparr>)" by (rule direct.ok_rec[OF sample_node_ok])
  then obtain d m where "dial_node ''tcp'' (rq_urlhost (forwarded ?r) @ '':80'') sample_acct '''' (sample_node\<lparr>nd_rec := []\<rparr>)
      = Some (d, m)" using dial_node_ok by blast
  then have "RoundTrip dial_node (he_tr sample_henv) sample_acct '''' (forwarded ?r) (sample_node\<lparr>nd_rec := []\<rparr>)
      = Some (Inr ?x, m)" by (simp add: RoundTrip_def sample_henv_def)
  moreover have "canon ''Server'' = ''Server''" by code_simp
  then have "header_wf [(''Server'', [''x''])]" by (simp add: header_wf_def)
  ultimately show ?thesis
    using forward_answer[of sample_henv sample_acct "''''" ?r sample_node "Inr ?x" m] by auto
qed

end
