(* ===== verification/Socks5.thy ===== *)
theory Socks5
  imports Http
begin

text \<open>
  \<open>internal/proxy/socks5.go\<close>: the SOCKS5 handler.  A connection is the bytes that still arrive (the input
  ends where the client closes or the handshake deadline expires: a read past it fails) and the
  writes made; \<open>wok\<close> says whether the write of a number succeeds.  The handshake is split where the
  protocol is: greeting, user name and password, request.  A phase returns Inl when the handler
  returns there.
\<close>

section \<open>The connection\<close>

record sock =
  sk_in :: "byte list"
  sk_out :: "byte list list"

definition readFull :: "nat \<Rightarrow> sock \<Rightarrow> (byte list \<times> sock) option" where
  "readFull k s =
     (if k \<le> length (sk_in s) then Some (take k (sk_in s), s\<lparr>sk_in := drop k (sk_in s)\<rparr>) else None)"

definition sock_write :: "(nat \<Rightarrow> bool) \<Rightarrow> byte list \<Rightarrow> sock \<Rightarrow> bool \<times> sock" where
  "sock_write wok bs s = (wok (length (sk_out s)), s\<lparr>sk_out := sk_out s @ [bs]\<rparr>)"

section \<open>The phases\<close>

definition greet :: "(nat \<Rightarrow> bool) \<Rightarrow> sock \<Rightarrow> sock + sock" where
  "greet wok s =
     (case readFull 2 s of
        None \<Rightarrow> Inl s
      | Some (buf, s) \<Rightarrow>
          if buf ! 0 \<noteq> 5 then Inl s
          else let nmethods = unat (buf ! 1)
            in if nmethods = 0 \<or> nmethods > 128 then Inl s
               else (case readFull nmethods s of
                       None \<Rightarrow> Inl s
                     | Some (ms, s) \<Rightarrow>
                         if \<not> list_ex (\<lambda>m. m = 2) ms then Inl (snd (sock_write wok [5, 0xFF] s))
                         else (let (ok, s) = sock_write wok [5, 2] s in if ok then Inr s else Inl s)))"

text \<open>A counted string: its length byte is at the position \<open>i\<close> of the \<open>k\<close> bytes read first.\<close>

definition counted_string :: "nat \<Rightarrow> nat \<Rightarrow> sock \<Rightarrow> (string \<times> sock) option" where
  "counted_string k i s =
     (case readFull k s of
        None \<Rightarrow> None
      | Some (buf, s) \<Rightarrow> map_option (\<lambda>(bs, s). (string_of bs, s)) (readFull (unat (buf ! i)) s))"

definition userpass :: "sock \<Rightarrow> sock + string \<times> string \<times> sock" where
  "userpass s =
     (case counted_string 2 1 s of
        None \<Rightarrow> Inl s
      | Some (user, s) \<Rightarrow>
          (case counted_string 1 0 s of
             None \<Rightarrow> Inl s
           | Some (pass, s) \<Rightarrow> Inr (user, pass, s)))"

text \<open>The bytes \<open>socksReply\<close> writes; a nil bind address is the empty list.\<close>

definition socksReply :: "byte \<Rightarrow> ip \<Rightarrow> byte list" where
  "socksReply code bind =
     (if bind = [] then [5, code, 0, 1, 0, 0, 0, 0, 0, 0]
      else if To4 bind \<noteq> [] then [5, code, 0, 1] @ To4 bind @ [0, 0]
      else [5, code, 0, 4] @ To16 bind @ [0, 0])"

text \<open>The destination of a request; None when the handler returns.\<close>

definition read_host :: "(nat \<Rightarrow> bool) \<Rightarrow> byte \<Rightarrow> sock \<Rightarrow> sock + string \<times> sock" where
  "read_host wok atyp s =
     (if atyp = 1
      then (case readFull 4 s of None \<Rightarrow> Inl s | Some (bs, s) \<Rightarrow> Inr (IP_String bs, s))
      else if atyp = 3
      then (case counted_string 1 0 s of None \<Rightarrow> Inl s | Some (host, s) \<Rightarrow> Inr (host, s))
      else if atyp = 4
      then (case readFull 16 s of None \<Rightarrow> Inl s | Some (bs, s) \<Rightarrow> Inr (IP_String bs, s))
      else Inl (snd (sock_write wok (socksReply 8 []) s)))"

definition read_request :: "(nat \<Rightarrow> bool) \<Rightarrow> sock \<Rightarrow> sock + byte \<times> string \<times> u16 \<times> sock" where
  "read_request wok s =
     (case readFull 4 s of
        None \<Rightarrow> Inl s
      | Some (buf, s) \<Rightarrow>
          if buf ! 0 \<noteq> 5 then Inl s
          else (case read_host wok (buf ! 3) s of
                  Inl s \<Rightarrow> Inl s
                | Inr (host, s) \<Rightarrow>
                    (case readFull 2 s of
                       None \<Rightarrow> Inl s
                     | Some (pt, s) \<Rightarrow>
                         Inr (buf ! 1, host, push_bit 8 (ucast (pt ! 0)) OR ucast (pt ! 1), s))))"

section \<open>The handler\<close>

text \<open>The local address of a connection, the time of the dial, the relay.\<close>

record 'c senv =
  se_laddr :: "'c \<Rightarrow> string"
  se_dur :: int
  se_tunnel :: tunnel

text \<open>The result: the writes to the client before any relay, the upstream relayed to, the node (with the relay
  started).\<close>

definition socks_connect ::
  "'c dial \<Rightarrow> 'c senv \<Rightarrow> paccount \<Rightarrow> string \<Rightarrow> byte \<times> string \<times> u16 \<Rightarrow> byte list list \<Rightarrow> 'c node
   \<Rightarrow> ((byte list list \<times> 'c option) \<times> 'c node) option" where
  "socks_connect dial se acct key req out n =
     (let (cmd, host, port) = req
      in if cmd \<noteq> 1 then Some ((out @ [socksReply 7 []], None), n)
         else let addr = JoinHostPort host (dec (unat port))
           in case dial ''tcp'' addr acct key n of
                None \<Rightarrow> None
              | Some (Inl e, n) \<Rightarrow>
                  Some ((out @ [socksReply 5 []], None),
                        write_log (logReq (nd_px n) acct key ''SOCKS5'' addr 0 [] (se_dur se)) n)
              | Some (Inr up, n) \<Rightarrow>
                  (let src = local_ip (se_laddr se up);
                       n = write_log (logReq (nd_px n) acct key ''SOCKS5'' addr 200 src (se_dur se)) n
                   in Some ((out @ [socksReply 0 src], Some up), start_relay (se_tunnel se) n)))"

definition HandleSOCKS5 ::
  "'c dial \<Rightarrow> (nat \<Rightarrow> bool) \<Rightarrow> 'c senv \<Rightarrow> byte list \<Rightarrow> 'c node \<Rightarrow> ((byte list list \<times> 'c option) \<times> 'c node) option" where
  "HandleSOCKS5 dial wok se inp n =
     (let n = on_stats (\<lambda>st. st\<lparr>SOCKSConns := SOCKSConns st + 1\<rparr>) n
      in case greet wok \<lparr>sk_in = inp, sk_out = []\<rparr> of
           Inl s \<Rightarrow> Some ((sk_out s, None), n)
         | Inr s \<Rightarrow>
             (case userpass s of
                Inl s \<Rightarrow> Some ((sk_out s, None), n)
              | Inr (user, pass, s) \<Rightarrow>
                  (case authenticate (nd_px n) user pass of
                     None \<Rightarrow>
                       Some ((sk_out (snd (sock_write wok [1, 1] s)), None),
                             on_stats (\<lambda>st. st\<lparr>Rejected := Rejected st + 1\<rparr>) n)
                   | Some (acct, key) \<Rightarrow>
                       (let (ok, s) = sock_write wok [1, 0] s
                        in if \<not> ok then Some ((sk_out s, None), n)
                           else (case read_request wok s of
                                   Inl s \<Rightarrow> Some ((sk_out s, None), n)
                                 | Inr (cmd, host, port, s) \<Rightarrow>
                                     socks_connect dial se acct key (cmd, host, port) (sk_out s) n)))))"

section \<open>What a client sends\<close>

datatype dest = V4 "byte list" | V6 "byte list" | Name string

definition enc_string :: "string \<Rightarrow> byte list" where
  "enc_string s = word_of_nat (length s) # bytes_of s"

fun dest_ok :: "dest \<Rightarrow> bool" where
  "dest_ok (V4 x) = (length x = 4)"
| "dest_ok (V6 x) = (length x = 16)"
| "dest_ok (Name s) = (length s \<le> 255)"

fun dest_bytes :: "dest \<Rightarrow> byte list" where
  "dest_bytes (V4 x) = x"
| "dest_bytes (V6 x) = x"
| "dest_bytes (Name s) = enc_string s"

fun dest_atyp :: "dest \<Rightarrow> byte" where
  "dest_atyp (V4 x) = 1"
| "dest_atyp (V6 x) = 4"
| "dest_atyp (Name s) = 3"

fun dest_host :: "dest \<Rightarrow> string" where
  "dest_host (V4 x) = IP_String x"
| "dest_host (V6 x) = IP_String x"
| "dest_host (Name s) = s"

definition port_bytes :: "u16 \<Rightarrow> byte list" where
  "port_bytes q = [ucast (drop_bit 8 q), ucast q]"

text \<open>\<open>c_ver\<close> and \<open>c_rsv\<close>: the version byte of the password message and the reserved byte, which the
  handler does not look at.\<close>

record socks_client =
  c_methods :: "byte list"
  c_ver :: byte
  c_user :: string
  c_pass :: string
  c_cmd :: byte
  c_rsv :: byte
  c_dest :: dest
  c_port :: u16

definition client_ok :: "socks_client \<Rightarrow> bool" where
  "client_ok c \<longleftrightarrow> c_methods c \<noteq> [] \<and> length (c_methods c) \<le> 128 \<and> 2 \<in> set (c_methods c)
     \<and> length (c_user c) \<le> 255 \<and> length (c_pass c) \<le> 255 \<and> dest_ok (c_dest c)"

definition hello_bytes :: "socks_client \<Rightarrow> byte list" where
  "hello_bytes c = 5 # word_of_nat (length (c_methods c)) # c_methods c"

definition login_bytes :: "socks_client \<Rightarrow> byte list" where
  "login_bytes c = c_ver c # enc_string (c_user c) @ enc_string (c_pass c)"

definition request_bytes :: "socks_client \<Rightarrow> byte list" where
  "request_bytes c = [5, c_cmd c, c_rsv c, dest_atyp (c_dest c)] @ dest_bytes (c_dest c) @ port_bytes (c_port c)"

section \<open>The phases accept exactly what clients send\<close>

lemma readFull_Some:
  "readFull k s = Some (bs, t) \<longleftrightarrow> sk_in s = bs @ sk_in t \<and> length bs = k \<and> sk_out t = sk_out s"
  by (cases s; cases t) (auto simp: readFull_def)

lemma unat_word_length: "length xs \<le> 255 \<Longrightarrow> unat (word_of_nat (length xs) :: byte) = length xs"
  by (simp add: unat_of_nat)

lemma byte_length: "length xs = unat (b :: byte) \<Longrightarrow> word_of_nat (length xs) = b \<and> length xs \<le> 255"
  using unat_byte_less[of b] by simp

lemma counted_string_1:
  "counted_string 1 0 s = Some (u, t) \<longleftrightarrow>
     sk_in s = enc_string u @ sk_in t \<and> length u \<le> 255 \<and> sk_out t = sk_out s"
proof
  assume "counted_string 1 0 s = Some (u, t)"
  then obtain buf s1 bs where r: "readFull 1 s = Some (buf, s1)" "readFull (unat (buf ! 0)) s1 = Some (bs, t)"
    "u = string_of bs" by (auto simp: counted_string_def split: option.splits)
  then obtain b where "buf = [b]" by (auto simp: readFull_Some length_Suc_conv)
  with r byte_length[of bs b] show "sk_in s = enc_string u @ sk_in t \<and> length u \<le> 255 \<and> sk_out t = sk_out s"
    by (auto simp: readFull_Some enc_string_def)
next
  assume *: "sk_in s = enc_string u @ sk_in t \<and> length u \<le> 255 \<and> sk_out t = sk_out s"
  then have "readFull 1 s = Some ([word_of_nat (length u)], s\<lparr>sk_in := bytes_of u @ sk_in t\<rparr>)"
    by (simp add: readFull_Some enc_string_def)
  moreover have "readFull (length u) (s\<lparr>sk_in := bytes_of u @ sk_in t\<rparr>) = Some (bytes_of u, t)"
    using * by (simp add: readFull_Some)
  ultimately show "counted_string 1 0 s = Some (u, t)"
    using * by (simp add: counted_string_def unat_word_length)
qed

lemma counted_string_2:
  "counted_string 2 1 s = Some (u, t) \<longleftrightarrow>
     (\<exists>v. sk_in s = v # enc_string u @ sk_in t) \<and> length u \<le> 255 \<and> sk_out t = sk_out s"
proof (cases "sk_in s")
  case (Cons v ss)
  have "counted_string 2 1 s = counted_string 1 0 (s\<lparr>sk_in := ss\<rparr>)"
    by (cases ss) (simp_all add: counted_string_def readFull_def Cons)
  then show ?thesis by (simp add: counted_string_1[unfolded One_nat_def] Cons)
qed (simp add: counted_string_def readFull_def)

lemmas counted_string_iff = counted_string_1[unfolded One_nat_def] counted_string_2[unfolded One_nat_def]

lemma greet_Inr:
  "greet wok s = Inr t \<longleftrightarrow> wok (length (sk_out s)) \<and> sk_out t = sk_out s @ [[5, 2]]
     \<and> (\<exists>ms. sk_in s = 5 # word_of_nat (length ms) # ms @ sk_in t \<and> ms \<noteq> [] \<and> length ms \<le> 128 \<and> 2 \<in> set ms)"
proof
  assume "greet wok s = Inr t"
  then obtain buf s1 ms s2 where r: "readFull 2 s = Some (buf, s1)" "buf ! 0 = 5" "unat (buf ! 1) \<noteq> 0"
    "unat (buf ! 1) \<le> 128" "readFull (unat (buf ! 1)) s1 = Some (ms, s2)" "2 \<in> set ms"
    "wok (length (sk_out s2))" "t = s2\<lparr>sk_out := sk_out s2 @ [[5, 2]]\<rparr>"
    by (auto simp: greet_def Let_def sock_write_def list_ex_iff split: option.splits if_splits)
  then obtain b where "buf = [5, b]" by (auto simp: readFull_Some length_Suc_conv numeral_2_eq_2)
  with r byte_length[of ms b] show "wok (length (sk_out s)) \<and> sk_out t = sk_out s @ [[5, 2]]
     \<and> (\<exists>ms. sk_in s = 5 # word_of_nat (length ms) # ms @ sk_in t \<and> ms \<noteq> [] \<and> length ms \<le> 128 \<and> 2 \<in> set ms)"
    by (auto simp: readFull_Some intro!: exI[of _ ms])
next
  assume "wok (length (sk_out s)) \<and> sk_out t = sk_out s @ [[5, 2]]
     \<and> (\<exists>ms. sk_in s = 5 # word_of_nat (length ms) # ms @ sk_in t \<and> ms \<noteq> [] \<and> length ms \<le> 128 \<and> 2 \<in> set ms)"
  then obtain ms where ms: "wok (length (sk_out s))" "sk_out t = sk_out s @ [[5, 2]]"
    "sk_in s = 5 # word_of_nat (length ms) # ms @ sk_in t" "ms \<noteq> []" "length ms \<le> 128" "2 \<in> set ms" by blast
  let ?s1 = "s\<lparr>sk_in := ms @ sk_in t\<rparr>" and ?s2 = "s\<lparr>sk_in := sk_in t\<rparr>"
  have "readFull 2 s = Some ([5, word_of_nat (length ms)], ?s1)" "readFull (length ms) ?s1 = Some (ms, ?s2)"
    using ms(3) by (simp_all add: readFull_Some)
  moreover have "unat (word_of_nat (length ms) :: byte) = length ms" using ms(5) by (simp add: unat_word_length)
  moreover have "?s2\<lparr>sk_out := sk_out s @ [[5, 2]]\<rparr> = t" using ms(2) by (cases t) simp
  ultimately show "greet wok s = Inr t"
    using ms(1,4-6) by (simp add: greet_def sock_write_def list_ex_iff)
qed

lemma userpass_Inr:
  "userpass s = Inr (u, q, t) \<longleftrightarrow> (\<exists>v. sk_in s = v # enc_string u @ enc_string q @ sk_in t)
     \<and> length u \<le> 255 \<and> length q \<le> 255 \<and> sk_out t = sk_out s"
proof
  assume "userpass s = Inr (u, q, t)"
  then show "(\<exists>v. sk_in s = v # enc_string u @ enc_string q @ sk_in t)
     \<and> length u \<le> 255 \<and> length q \<le> 255 \<and> sk_out t = sk_out s"
    by (auto simp: userpass_def counted_string_iff split: option.splits)
next
  assume *: "(\<exists>v. sk_in s = v # enc_string u @ enc_string q @ sk_in t)
     \<and> length u \<le> 255 \<and> length q \<le> 255 \<and> sk_out t = sk_out s"
  let ?s1 = "s\<lparr>sk_in := enc_string q @ sk_in t\<rparr>"
  have "counted_string 2 1 s = Some (u, ?s1)" "counted_string 1 0 ?s1 = Some (q, t)"
    using * by (auto simp: counted_string_iff)
  then show "userpass s = Inr (u, q, t)" by (simp add: userpass_def)
qed

lemma port_word: "push_bit 8 (ucast (a :: byte)) OR ucast b = (q :: u16) \<longleftrightarrow> [a, b] = port_bytes q"
proof
  assume q: "push_bit 8 (ucast a) OR ucast b = q"
  have "ucast (drop_bit 8 q) = a" "ucast q = b"
    unfolding q[symmetric] by (rule bit_word_eqI; auto simp: bit_simps dest: bit_imp_le_length)+
  then show "[a, b] = port_bytes q" by (simp add: port_bytes_def)
next
  assume "[a, b] = port_bytes q"
  then show "push_bit 8 (ucast a) OR ucast b = q"
    by (intro bit_word_eqI) (auto simp: port_bytes_def bit_simps)
qed


lemma read_host_Inr:
  "read_host wok atyp s = Inr (h, t) \<longleftrightarrow>
     (\<exists>d. dest_ok d \<and> dest_atyp d = atyp \<and> dest_host d = h \<and> sk_in s = dest_bytes d @ sk_in t) \<and> sk_out t = sk_out s"
proof
  assume *: "read_host wok atyp s = Inr (h, t)"
  then consider (v4) "atyp = 1" | (nm) "atyp = 3" | (v6) "atyp = 4" by (auto simp: read_host_def split: if_splits)
  then show "(\<exists>d. dest_ok d \<and> dest_atyp d = atyp \<and> dest_host d = h \<and> sk_in s = dest_bytes d @ sk_in t)
      \<and> sk_out t = sk_out s"
  proof cases
    case v4
    with * obtain bs where "readFull 4 s = Some (bs, t)" "h = IP_String bs"
      by (auto simp: read_host_def split: option.splits)
    with v4 show ?thesis by (auto simp: readFull_Some intro!: exI[of _ "V4 bs"])
  next
    case nm
    with * have "counted_string 1 0 s = Some (h, t)" by (auto simp: read_host_def split: option.splits)
    with nm show ?thesis by (auto simp: counted_string_iff intro!: exI[of _ "Name h"])
  next
    case v6
    with * obtain bs where "readFull 16 s = Some (bs, t)" "h = IP_String bs"
      by (auto simp: read_host_def split: option.splits)
    with v6 show ?thesis by (auto simp: readFull_Some intro!: exI[of _ "V6 bs"])
  qed
next
  assume "(\<exists>d. dest_ok d \<and> dest_atyp d = atyp \<and> dest_host d = h \<and> sk_in s = dest_bytes d @ sk_in t)
      \<and> sk_out t = sk_out s"
  then obtain d where d: "dest_ok d" "dest_atyp d = atyp" "dest_host d = h" "sk_in s = dest_bytes d @ sk_in t"
    "sk_out t = sk_out s" by blast
  show "read_host wok atyp s = Inr (h, t)"
  proof (cases d)
    case (V4 bs)
    then have "readFull 4 s = Some (bs, t)" using d by (simp add: readFull_Some)
    then show ?thesis using d V4 by (auto simp: read_host_def)
  next
    case (V6 bs)
    then have "readFull 16 s = Some (bs, t)" using d by (simp add: readFull_Some)
    then show ?thesis using d V6 by (auto simp: read_host_def)
  next
    case (Name u)
    then have "counted_string 1 0 s = Some (u, t)" using d by (simp add: counted_string_iff)
    then show ?thesis using d Name by (auto simp: read_host_def)
  qed
qed

lemma read_request_Inr:
  "read_request wok s = Inr (cmd, h, q, t) \<longleftrightarrow>
     (\<exists>rsv d. dest_ok d \<and> dest_host d = h
        \<and> sk_in s = [5, cmd, rsv, dest_atyp d] @ dest_bytes d @ port_bytes q @ sk_in t) \<and> sk_out t = sk_out s"
proof
  assume "read_request wok s = Inr (cmd, h, q, t)"
  then obtain buf s1 s2 pt where r: "readFull 4 s = Some (buf, s1)" "buf ! 0 = 5" "buf ! 1 = cmd"
    "read_host wok (buf ! 3) s1 = Inr (h, s2)" "readFull 2 s2 = Some (pt, t)"
    "push_bit 8 (ucast (pt ! 0)) OR ucast (pt ! 1) = q"
    by (auto simp: read_request_def split: option.splits if_splits sum.splits)
  obtain rsv atyp where b: "buf = [5, cmd, rsv, atyp]"
    using r(1-3) by (auto simp: readFull_Some length_Suc_conv eval_nat_numeral)
  obtain a b where "pt = [a, b]" using r(5) by (auto simp: readFull_Some length_Suc_conv numeral_2_eq_2)
  then have "pt = port_bytes q" using r(6) port_word by simp
  then show "(\<exists>rsv d. dest_ok d \<and> dest_host d = h
        \<and> sk_in s = [5, cmd, rsv, dest_atyp d] @ dest_bytes d @ port_bytes q @ sk_in t) \<and> sk_out t = sk_out s"
    using r(1,4,5) b by (auto simp: readFull_Some read_host_Inr intro!: exI[of _ rsv])
next
  assume "(\<exists>rsv d. dest_ok d \<and> dest_host d = h
        \<and> sk_in s = [5, cmd, rsv, dest_atyp d] @ dest_bytes d @ port_bytes q @ sk_in t) \<and> sk_out t = sk_out s"
  then obtain rsv d where d: "dest_ok d" "dest_host d = h"
    "sk_in s = [5, cmd, rsv, dest_atyp d] @ dest_bytes d @ port_bytes q @ sk_in t" "sk_out t = sk_out s" by blast
  let ?s1 = "s\<lparr>sk_in := dest_bytes d @ port_bytes q @ sk_in t\<rparr>" and ?s2 = "s\<lparr>sk_in := port_bytes q @ sk_in t\<rparr>"
  have len: "length (port_bytes q) = 2" by (simp add: port_bytes_def)
  have "readFull 4 s = Some ([5, cmd, rsv, dest_atyp d], ?s1)" using d by (simp add: readFull_Some)
  moreover have "read_host wok (dest_atyp d) ?s1 = Inr (h, ?s2)" using d by (auto simp: read_host_Inr)
  moreover have "readFull 2 ?s2 = Some (port_bytes q, t)" using d len by (simp add: readFull_Some)
  moreover have "push_bit 8 (ucast (port_bytes q ! 0)) OR ucast (port_bytes q ! 1) = q"
    unfolding port_word by (simp add: port_bytes_def)
  ultimately show "read_request wok s = Inr (cmd, h, q, t)" by (simp add: read_request_def)
qed

section \<open>The handler is its phases\<close>

text \<open>A run of the handler up to its dial, on the bytes of a client.\<close>

lemma HandleSOCKS5_client:
  assumes "client_ok c" "wok 0" "wok 1" "authenticate (nd_px n) (c_user c) (c_pass c) = Some (acct, key)"
    "inp = hello_bytes c @ login_bytes c @ request_bytes c @ rest"
  shows "HandleSOCKS5 dial wok se inp n =
    socks_connect dial se acct key (c_cmd c, dest_host (c_dest c), c_port c) [[5, 2], [1, 0]]
      (on_stats (\<lambda>st. st\<lparr>SOCKSConns := SOCKSConns st + 1\<rparr>) n)"
proof -
  let ?s = "\<lambda>bs out. \<lparr>sk_in = bs, sk_out = out\<rparr>"
  have "greet wok (?s inp []) = Inr (?s (login_bytes c @ request_bytes c @ rest) [[5, 2]])"
    using assms(1,2) unfolding greet_Inr by (auto simp: assms(5) hello_bytes_def client_ok_def intro!: exI[of _ "c_methods c"])
  moreover have "userpass (?s (login_bytes c @ request_bytes c @ rest) [[5, 2]])
      = Inr (c_user c, c_pass c, ?s (request_bytes c @ rest) [[5, 2]])"
    using assms(1) unfolding userpass_Inr by (simp add: login_bytes_def client_ok_def)
  moreover have "read_request wok (?s (request_bytes c @ rest) [[5, 2], [1, 0]])
      = Inr (c_cmd c, dest_host (c_dest c), c_port c, ?s rest [[5, 2], [1, 0]])"
    using assms(1) unfolding read_request_Inr by (auto simp: request_bytes_def client_ok_def)
  ultimately show ?thesis using assms(3,4) by (simp add: HandleSOCKS5_def sock_write_def)
qed

text \<open>Every other run ends before the dial.\<close>

lemma HandleSOCKS5_cases:
  obtains (client) c rest acct key where "client_ok c" "wok 0" "wok 1"
      "authenticate (nd_px n) (c_user c) (c_pass c) = Some (acct, key)"
      "inp = hello_bytes c @ login_bytes c @ request_bytes c @ rest"
  | (stop) out k where "k \<le> 1" "\<And>dial se. HandleSOCKS5 dial wok se inp n
      = Some ((out, None), on_stats (\<lambda>st. st\<lparr>SOCKSConns := SOCKSConns st + 1, Rejected := Rejected st + k\<rparr>) n)"
proof -
  note D = HandleSOCKS5_def Let_def
  have stop0: thesis if "\<And>dial se. HandleSOCKS5 dial wok se inp n
      = Some ((out, None), on_stats (\<lambda>st. st\<lparr>SOCKSConns := SOCKSConns st + 1\<rparr>) n)" for out
    by (rule stop[of 0 out]) (simp_all add: that)
  show thesis
  proof (cases "greet wok \<lparr>sk_in = inp, sk_out = []\<rparr>")
    case (Inl s)
    then show ?thesis by (intro stop0) (simp add: D)
  next
    case g: (Inr s1)
    show ?thesis
    proof (cases "userpass s1")
      case (Inl s)
      then show ?thesis using g by (intro stop0) (simp add: D)
    next
      case (Inr x)
      obtain u q s2 where u: "userpass s1 = Inr (u, q, s2)" using Inr by (cases x) auto
      show ?thesis
      proof (cases "authenticate (nd_px n) u q")
        case None
        then show ?thesis using g u by (intro stop[of 1]) (simp_all add: D)
      next
        case (Some ak)
        obtain acct key where ak: "ak = (acct, key)" by fastforce
        obtain ok s3 where w: "sock_write wok [1, 0] s2 = (ok, s3)" by fastforce
        show ?thesis
        proof (cases "ok \<and> (\<exists>y. read_request wok s3 = Inr y)")
          case False
          then consider "\<not> ok" | s4 where "ok" "read_request wok s3 = Inl s4" by (meson sum.exhaust)
          then show ?thesis
            by cases (use g u Some ak w in \<open>intro stop0, simp add: D\<close>)+
        next
          case True
          then obtain cmd h port s4 where r: "ok" "read_request wok s3 = Inr (cmd, h, port, s4)" by (metis prod_cases4)
          from g obtain ms where ms: "wok 0" "sk_out s1 = [[5, 2]]"
            "inp = 5 # word_of_nat (length ms) # ms @ sk_in s1" "ms \<noteq> []" "length ms \<le> 128" "2 \<in> set ms"
            by (auto simp: greet_Inr)
          from u obtain v where v: "sk_in s1 = v # enc_string u @ enc_string q @ sk_in s2" "length u \<le> 255"
            "length q \<le> 255" "sk_out s2 = sk_out s1" by (auto simp: userpass_Inr)
          from r(2) obtain rsv d where d: "dest_ok d"
            "sk_in s3 = [5, cmd, rsv, dest_atyp d] @ dest_bytes d @ port_bytes port @ sk_in s4"
            by (auto simp: read_request_Inr)
          have s3: "sk_in s3 = sk_in s2" "wok 1" using w r(1) v(4) ms(2) by (auto simp: sock_write_def)
          show ?thesis
            by (rule client[of "\<lparr>c_methods = ms, c_ver = v, c_user = u, c_pass = q, c_cmd = cmd, c_rsv = rsv,
                c_dest = d, c_port = port\<rparr>" acct key "sk_in s4"])
              (use ms v d s3 Some ak in \<open>auto simp: client_ok_def hello_bytes_def login_bytes_def request_bytes_def\<close>)
        qed
      qed
    qed
  qed
qed

section \<open>The handler returns\<close>

context upstream
begin

lemma socks_connect_returns:
  assumes "ok n"
  obtains out m where "socks_connect dial se acct key req outs n = Some (out, m)" "ok m"
    "served (case snd out of None \<Rightarrow> 0 | Some up \<Rightarrow> 1) n m"
proof -
  obtain cmd host port where req: "req = (cmd, host, port)" by (cases req)
  show ?thesis
  proof (cases "cmd = 1")
    case False
    then show ?thesis using assms(1)
      by (intro that[of "(outs @ [socksReply 7 []], None)" n]) (simp_all add: socks_connect_def req)
  next
    case True
    let ?addr = "JoinHostPort host (dec (unat port))"
    obtain x n1 where n1: "dial ''tcp'' ?addr acct key n = Some (x, n1)" "ok n1" "same_site (nd_px n) (nd_px n1)"
      "nd_relays n1 = nd_relays n"
      by (rule dialE[OF assms(1)])
    have s1: "served 0 n n1" using served_site n1 by blast
    show ?thesis
    proof (cases x)
      case (Inl e)
      then show ?thesis using n1 True served_log[OF s1]
        by (intro that[of "(outs @ [socksReply 5 []], None)", OF _ ok_write_log[OF n1(2)]])
          (auto simp: socks_connect_def req)
    next
      case (Inr up)
      then show ?thesis using n1(1) True served_start[OF served_log[OF s1]]
        by (intro that[of "(outs @ [socksReply 0 (local_ip (se_laddr se up))], Some up)",
              OF _ start_relay_ok[OF ok_write_log[OF n1(2)]]])
          (auto simp: socks_connect_def req Let_def)
    qed
  qed
qed

lemma HandleSOCKS5_returns:
  assumes "ok n"
  obtains out m k where "HandleSOCKS5 dial wok se inp n = Some (out, m)" "ok m" "k \<le> 1"
    "served (case snd out of None \<Rightarrow> 0 | Some up \<Rightarrow> 1)
       (on_stats (\<lambda>st. st\<lparr>SOCKSConns := SOCKSConns st + 1, Rejected := Rejected st + k\<rparr>) n) m"
proof -
  have n1: "ok (on_stats (\<lambda>st. st\<lparr>SOCKSConns := SOCKSConns st + 1\<rparr>) n)" using ok_counted(2)[OF assms(1)] .
  show ?thesis
  proof (rule HandleSOCKS5_cases[of wok n inp])
    fix c rest acct key
    assume c: "client_ok c" "wok 0" "wok 1" "authenticate (nd_px n) (c_user c) (c_pass c) = Some (acct, key)"
      "inp = hello_bytes c @ login_bytes c @ request_bytes c @ rest"
    obtain out m where s: "socks_connect dial se acct key (c_cmd c, dest_host (c_dest c), c_port c) [[5, 2], [1, 0]]
        (on_stats (\<lambda>st. st\<lparr>SOCKSConns := SOCKSConns st + 1\<rparr>) n) = Some (out, m)" "ok m"
      "served (case snd out of None \<Rightarrow> 0 | Some up \<Rightarrow> 1) (on_stats (\<lambda>st. st\<lparr>SOCKSConns := SOCKSConns st + 1\<rparr>) n) m"
      by (rule socks_connect_returns[OF n1])
    show thesis by (rule that[of out m 0]) (use HandleSOCKS5_client[OF c] s in simp_all)
  next
    fix out k
    assume k: "k \<le> 1" "\<And>dial se. HandleSOCKS5 dial wok se inp n
      = Some ((out, None), on_stats (\<lambda>st. st\<lparr>SOCKSConns := SOCKSConns st + 1, Rejected := Rejected st + k\<rparr>) n)"
    have "ok (on_stats (\<lambda>st. st\<lparr>SOCKSConns := SOCKSConns st + 1, Rejected := Rejected st + k\<rparr>) n)"
      using ok_on_stats[OF assms(1)] by simp
    with k show thesis by (intro that[of "(out, None)" _ k, OF k(2)]) simp_all
  qed
qed

end

section \<open>Properties\<close>

text \<open>C7. The handshake accepts what clients send: for every list of offered methods with username/password,
  every credentials of at most 255 bytes each that authenticate, every destination and port, the
  handler, whatever follows the request, goes on with exactly the destination the client encoded,
  as the client's account and session: the greeting, login and request messages round trip.\<close>

theorem socks_client_accepted:
  assumes "client_ok c" "wok 0" "wok 1" "authenticate (nd_px n) (c_user c) (c_pass c) = Some (acct, key)"
  shows "HandleSOCKS5 dial wok se (hello_bytes c @ login_bytes c @ request_bytes c @ rest) n =
    socks_connect dial se acct key (c_cmd c, dest_host (c_dest c), c_port c) [[5, 2], [1, 0]]
      (on_stats (\<lambda>st. st\<lparr>SOCKSConns := SOCKSConns st + 1\<rparr>) n)"
  by (rule HandleSOCKS5_client[OF assms refl])

definition sample_client :: socks_client where
  "sample_client = \<lparr>c_methods = [0, 2], c_ver = 1, c_user = ''u'', c_pass = ''p'', c_cmd = 1, c_rsv = 0,
     c_dest = Name ''example.org'', c_port = 443\<rparr>"

definition sample_senv :: "nat senv" where
  "sample_senv = \<lparr>se_laddr = (\<lambda>c. ''''), se_dur = 5000000, se_tunnel = sample_tunnel\<rparr>"

theorem socks_client_accepted_witness:
  "HandleSOCKS5 dial_node (\<lambda>_. True) sample_senv
     ([5, 2, 0, 2, 1, 1, 117, 1, 112, 5, 1, 0, 3, 11] @ bytes_of ''example.org'' @ [1, 187, 22, 3]) sample_node
   = socks_connect dial_node sample_senv sample_acct '''' (1, ''example.org'', 443) [[5, 2], [1, 0]]
       (on_stats (\<lambda>st. st\<lparr>SOCKSConns := SOCKSConns st + 1\<rparr>) sample_node)"
proof -
  have b: "hello_bytes sample_client = [5, 2, 0, 2]" "login_bytes sample_client = [1, 1, 117, 1, 112]"
    "request_bytes sample_client = [5, 1, 0, 3, 11] @ bytes_of ''example.org'' @ [1, 187]"
    by (simp_all add: hello_bytes_def login_bytes_def request_bytes_def sample_client_def enc_string_def
        port_bytes_def bytes_of_def byte_of_def)
  have "client_ok sample_client" by (simp add: client_ok_def sample_client_def)
  from socks_client_accepted[OF this, of "\<lambda>_. True" sample_node sample_acct "''''" dial_node sample_senv "[22, 3]"]
  show ?thesis unfolding b by (simp add: sample_client_def)
qed

text \<open>C6. Nobody else reaches the dialer: unless the input is the well-formed handshake of a client whose
  credentials authenticate, the handler ends with no upstream and a node that differs from the one
  before in the connection counter and at most one rejection, whatever the dialer would do.\<close>

theorem socks_auth_gate:
  assumes "\<And>c rest. client_ok c \<Longrightarrow> inp = hello_bytes c @ login_bytes c @ request_bytes c @ rest \<Longrightarrow>
      authenticate (nd_px n) (c_user c) (c_pass c) = None"
  shows "\<exists>out k. k \<le> 1 \<and> (\<forall>dial. HandleSOCKS5 dial wok se inp n =
    Some ((out, None), on_stats (\<lambda>st. st\<lparr>SOCKSConns := SOCKSConns st + 1, Rejected := Rejected st + k\<rparr>) n))"
  by (rule HandleSOCKS5_cases[of wok n inp]) (use assms in force, blast)

theorem socks_auth_gate_witness:
  "\<exists>out k. HandleSOCKS5 dial_node (\<lambda>_. True) sample_senv [5, 1, 0, 5, 1, 0, 1, 9, 9, 9, 9, 0, 80] sample_node =
    Some ((out, None), on_stats (\<lambda>st. st\<lparr>SOCKSConns := SOCKSConns st + 1, Rejected := Rejected st + k\<rparr>) sample_node)"
proof -
  let ?inp = "[5, 1, 0, 5, 1, 0, 1, 9, 9, 9, 9, 0, 80] :: byte list"
  have "authenticate (nd_px sample_node) (c_user c) (c_pass c) = None"
    if c: "client_ok c" "?inp = hello_bytes c @ login_bytes c @ request_bytes c @ rest" for c rest
  proof -
    have "unat (word_of_nat (length (c_methods c)) :: byte) = length (c_methods c)"
      using c(1) by (simp add: client_ok_def unat_word_length)
    moreover have "word_of_nat (length (c_methods c)) = (1 :: byte)" using c(2) by (simp add: hello_bytes_def)
    ultimately have "length (c_methods c) = 1" by simp
    then have "c_methods c = [0]" using c(2) by (cases "c_methods c") (auto simp: hello_bytes_def)
    with c(1) show ?thesis by (simp add: client_ok_def)
  qed
  then have "\<exists>out k. k \<le> 1 \<and> (\<forall>dial. HandleSOCKS5 dial (\<lambda>_. True) sample_senv ?inp sample_node =
      Some ((out, None), on_stats (\<lambda>st. st\<lparr>SOCKSConns := SOCKSConns st + 1, Rejected := Rejected st + k\<rparr>) sample_node))"
    by (rule socks_auth_gate)
  then show ?thesis by blast
qed

text \<open>The client's side of a reply: its code, bind address and port, and what follows.\<close>

fun parse_reply :: "byte list \<Rightarrow> (byte \<times> ip \<times> u16) option" where
  "parse_reply (v # code # rsv # atyp # bs) =
     (let k = (if atyp = 1 then 4 else 16)
      in if v = 5 \<and> (atyp = 1 \<or> atyp = 4) \<and> length bs = k + 2
         then Some (code, take k bs, push_bit 8 (ucast (bs ! k)) OR ucast (bs ! (k + 1)))
         else None)"
| "parse_reply _ = None"

text \<open>C38. Replies are well-formed: for a nil, IPv4 or IPv6 bind address of the right length a client reads
  back the code and the address (the zero address for nil), in the short form for IPv4, and port 0
  always.\<close>

theorem socksReply_roundtrip:
  assumes "length bind = 0 \<or> length bind = 4 \<or> length bind = 16"
  shows "\<exists>x. parse_reply (socksReply code bind) = Some (code, x, 0)
    \<and> (if bind = [] then x = [0, 0, 0, 0] else To16 x = To16 bind)
    \<and> length (socksReply code bind) = (if To4 bind = [] \<and> bind \<noteq> [] then 22 else 10)"
proof (cases "To4 bind = []")
  case True
  consider "bind = []" | "length bind = 16" using assms True by (auto simp: To4_def)
  then show ?thesis by cases (use True in \<open>auto simp: socksReply_def To16_def Let_def nth_append\<close>)
next
  case False
  then have l: "length (To4 bind) = 4" "bind \<noteq> []" by (auto simp: To4_def split: if_splits)
  moreover have "To16 (To4 bind) = To16 bind"
    using False by (auto simp: To4_def To16_def split: if_splits) (metis append_take_drop_id)
  ultimately show ?thesis using False by (auto simp: socksReply_def Let_def nth_append)
qed

theorem socksReply_roundtrip_witness:
  "\<exists>x. parse_reply (socksReply 0 (0x20 # replicate 15 1)) = Some (0, x, 0) \<and> To16 x = 0x20 # replicate 15 1"
proof -
  have "To16 (0x20 # replicate 15 1) = 0x20 # replicate 15 1" by (simp add: To16_def)
  then show ?thesis using socksReply_roundtrip[of "0x20 # replicate 15 1" 0] by auto
qed

text \<open>Every SOCKS connection is handled and accounted for: from a consistent node, whatever the client sends
  and whichever writes fail, the handler goes to its last reply or to the start of its relay, the node
  is consistent again, one connection and at most one rejection are counted, and the gauge of active
  connections grows exactly when an upstream was dialled and is relayed to.\<close>

theorem HandleSOCKS5_counts:
  assumes "node_ok n"
  shows "\<exists>out m. HandleSOCKS5 dial_node wok se inp n = Some (out, m) \<and> node_ok m
    \<and> SOCKSConns (px_stats (nd_px m)) = SOCKSConns (px_stats (nd_px n)) + 1
    \<and> HTTPReqs (px_stats (nd_px m)) = HTTPReqs (px_stats (nd_px n))
    \<and> ActiveConns (px_stats (nd_px m)) = ActiveConns (px_stats (nd_px n)) + (if snd out = None then 0 else 1)
    \<and> Rejected (px_stats (nd_px m)) - Rejected (px_stats (nd_px n)) \<le> 1"
  by (rule direct.HandleSOCKS5_returns[OF assms, of wok se inp]) (auto simp: served_def split: option.splits)

theorem HandleSOCKS5_counts_witness:
  "\<exists>out m. HandleSOCKS5 dial_node (\<lambda>_. True) sample_senv
      (hello_bytes sample_client @ login_bytes sample_client @ request_bytes sample_client) sample_node = Some (out, m)
     \<and> node_ok m \<and> SOCKSConns (px_stats (nd_px m)) = 1"
  using HandleSOCKS5_counts[OF sample_node_ok]
  by (fastforce simp: sample_node_def pool_proxy_def sample_proxy_def New_stats_def)

end
