(* ===== verification/Stats_Http.thy ===== *)
theory Stats_Http
  imports Http
begin

text \<open>
  \<open>internal/proxy/stats.go\<close>: the statistics endpoints and their token.  Of \<open>net/url\<close> the query string
  is modelled (pairs, percent and plus escapes; a pair that does not decode is dropped); a request
  for another path is answered by the mux, a parameter, and so is the JSON encoder.
\<close>

section \<open>Query strings\<close>

fun query_unescape :: "string \<Rightarrow> string option" where
  "query_unescape [] = Some []"
| "query_unescape (c # s) =
     (if c = CHR ''%''
      then (case s of
              a # b # r \<Rightarrow>
                (case (hex_val a, hex_val b, query_unescape r) of
                   (Some i, Some j, Some t) \<Rightarrow> Some (char_of (16 * i + j) # t)
                 | _ \<Rightarrow> None)
            | _ \<Rightarrow> None)
      else map_option (Cons (if c = CHR ''+'' then CHR '' '' else c)) (query_unescape s))"

definition cut :: "char \<Rightarrow> string \<Rightarrow> string \<times> string" where
  "cut sep s = (case IndexByte s sep of None \<Rightarrow> (s, '''') | Some i \<Rightarrow> (take i s, drop (i + 1) s))"

definition query_pair :: "string \<Rightarrow> (string \<times> string) list" where
  "query_pair s =
     (if s = '''' \<or> CHR '';'' \<in> set s then []
      else let (k, v) = cut (CHR ''='') s
        in case (query_unescape k, query_unescape v) of (Some k, Some v) \<Rightarrow> [(k, v)] | _ \<Rightarrow> [])"

definition query_pairs :: "string \<Rightarrow> (string \<times> string) list" where
  "query_pairs q = concat (map query_pair (split_at (CHR ''&'') q))"

definition Query_Get :: "string \<Rightarrow> string \<Rightarrow> string" where
  "Query_Get q key = (case map_of (query_pairs q) key of None \<Rightarrow> '''' | Some v \<Rightarrow> v)"

section \<open>The handler\<close>

record stats_request =
  sq_path :: string
  sq_query :: string
  sq_header :: header

definition tokenOK :: "string \<Rightarrow> stats_request \<Rightarrow> bool" where
  "tokenOK token r =
     (if token = '''' then True
      else if ConstantTimeEqual token (Query_Get (sq_query r) ''token'') then True
      else let h = Header_Get (sq_header r) ''Authorization''
        in if length h > length ''Bearer '' \<and> take (length ''Bearer '') h = ''Bearer ''
           then ConstantTimeEqual token (drop (length ''Bearer '') h)
           else False)"

text \<open>\<open>proxy.version\<close>, which the build flags do not set (they set \<open>main.version\<close>).\<close>

definition version :: string where
  "version = ''dev''"

text \<open>The surroundings: the answer of the mux for other paths, the JSON encoder (None when it fails), the
  roundings of the exposition and the table of printable characters, the order of \<open>range\<close> over the
  accounts, the clock.\<close>

record stats_env =
  sv_other :: "stats_request \<Rightarrow> writer"
  sv_json :: "(string \<times> json) list \<Rightarrow> byte list option"
  sv_secs :: "int \<Rightarrow> int"
  sv_print :: "nat \<Rightarrow> bool"
  sv_g :: "int \<Rightarrow> string"
  sv_order :: "string list"
  sv_now :: int

definition typed_reply :: "string \<Rightarrow> byte list \<Rightarrow> writer" where
  "typed_reply ctype body = write_body body (new_writer\<lparr>wr_header := Header_Set ''Content-Type'' ctype []\<rparr>)"

definition serve_stats :: "stats_env \<Rightarrow> string \<Rightarrow> stats_request \<Rightarrow> proxy \<Rightarrow> writer" where
  "serve_stats sv token r p =
     (if \<not> tokenOK token r then http_Error ''forbidden'' 403 new_writer
      else typed_reply ''application/json''
             (case sv_json sv (JSON (sv_secs sv) (sv_now sv) (px_stats p)) of None \<Rightarrow> [] | Some bs \<Rightarrow> bs))"

definition serve_metrics :: "stats_env \<Rightarrow> string \<Rightarrow> stats_request \<Rightarrow> proxy \<Rightarrow> writer" where
  "serve_metrics sv token r p =
     (if \<not> tokenOK token r then http_Error ''forbidden'' 403 new_writer
      else typed_reply ''text/plain; version=0.0.4; charset=utf-8''
             (bytes_of (WritePrometheus (sv_print sv) (sv_g sv) (sv_order sv) (sv_now sv) (px_stats p)
                version (PoolMode p))))"

definition StatsHandler :: "stats_env \<Rightarrow> string \<Rightarrow> stats_request \<Rightarrow> proxy \<Rightarrow> writer" where
  "StatsHandler sv token r p =
     (if sq_path r = ''/stats'' then serve_stats sv token r p
      else if sq_path r = ''/metrics'' then serve_metrics sv token r p
      else sv_other sv r)"

section \<open>Escapes\<close>

text \<open>What a client sends for a string: \<open>url.QueryEscape\<close>.\<close>

definition unreserved :: "char \<Rightarrow> bool" where
  "unreserved c \<longleftrightarrow>
     (let n = of_char c :: nat in 48 \<le> n \<and> n \<le> 57 \<or> 65 \<le> n \<and> n \<le> 90 \<or> 97 \<le> n \<and> n \<le> 122)
     \<or> c \<in> {CHR ''-'', CHR ''_'', CHR ''.'', CHR ''~''}"

definition upper_digit :: "nat \<Rightarrow> char" where
  "upper_digit d = (if d < 10 then char_of (48 + d) else char_of (55 + d))"

fun query_escape :: "string \<Rightarrow> string" where
  "query_escape [] = []"
| "query_escape (c # s) =
     (if unreserved c then [c] else if c = CHR '' '' then [CHR ''+'']
      else [CHR ''%'', upper_digit (of_char c div 16), upper_digit (of_char c mod 16)]) @ query_escape s"

lemma of_char_upper_digit: "d < 16 \<Longrightarrow> of_char (upper_digit d) = (if d < 10 then 48 + d else 55 + d)"
  by (auto simp: upper_digit_def)

lemma hex_val_upper_digit [simp]: "d < 16 \<Longrightarrow> hex_val (upper_digit d) = Some d"
  by (auto simp: hex_val_def of_char_upper_digit Let_def)

lemma unreserved_not_special: "unreserved c \<Longrightarrow> c \<noteq> CHR ''%'' \<and> c \<noteq> CHR ''+''"
  by (auto simp: unreserved_def Let_def)

lemma char_digits: "(of_char c :: nat) div 16 < 16" "(of_char c :: nat) mod 16 < 16"
proof -
  have "(of_char c :: nat) < 256" by simp
  then show "(of_char c :: nat) div 16 < 16" "(of_char c :: nat) mod 16 < 16" by linarith+
qed

lemma query_unescape_escape: "query_unescape (query_escape s) = Some s"
proof (induction s)
  case (Cons c s)
  have "char_of (16 * (of_char c div 16) + of_char c mod 16 :: nat) = c" by simp
  then show ?case using Cons unreserved_not_special[of c] char_digits[of c] by auto
qed simp

interpretation query: codec query_escape query_unescape "\<lambda>_. True"
  by unfold_locales (rule query_unescape_escape)

lemma query_escape_plain: "c \<in> set (query_escape s) \<Longrightarrow> unreserved c \<or> c = CHR ''+'' \<or> c = CHR ''%''"
proof (induction s)
  case (Cons d s)
  have "unreserved (upper_digit k)" if "k < 16" for k
    using that by (auto simp: unreserved_def of_char_upper_digit Let_def)
  then have "unreserved (upper_digit (of_char d div 16))" "unreserved (upper_digit (of_char d mod 16))"
    using char_digits[of d] by blast+
  with Cons show ?case by (auto split: if_splits)
qed simp

lemma query_escape_no: "\<not> unreserved c \<Longrightarrow> c \<noteq> CHR ''+'' \<Longrightarrow> c \<noteq> CHR ''%'' \<Longrightarrow> c \<notin> set (query_escape s)"
  using query_escape_plain by blast

lemma split_at_absent: "c \<notin> set s \<Longrightarrow> split_at c s = [s]"
  by (induction s) auto

lemma Query_Get_escape: "Query_Get (''token='' @ query_escape s) ''token'' = s"
proof -
  have n: "c \<notin> set (query_escape s)" if "c \<in> {CHR ''&'', CHR '';'', CHR ''=''}" for c
    by (rule query_escape_no) (use that in \<open>auto simp: unreserved_def Let_def\<close>)
  have "split_at (CHR ''&'') (''token='' @ query_escape s) = [''token='' @ query_escape s]"
    using n by (intro split_at_absent) simp
  moreover have "cut (CHR ''='') (''token='' @ query_escape s) = (''token'', query_escape s)"
    by (simp add: cut_def)
  moreover have "query_unescape ''token'' = Some ''token''" by simp
  ultimately show ?thesis using n
    by (simp add: Query_Get_def query_pairs_def query_pair_def query_unescape_escape)
qed

section \<open>Properties\<close>

text \<open>C18. Without the token nothing is disclosed: when a token is configured and the request carries it
  neither as the query parameter nor as the bearer token, both endpoints answer 403, and the answer
  is the same whatever the state of the proxy.\<close>

theorem stats_gate:
  assumes "token \<noteq> ''''" "Query_Get (sq_query r) ''token'' \<noteq> token"
    "Header_Get (sq_header r) ''Authorization'' \<noteq> ''Bearer '' @ token"
  shows "StatsHandler sv token r p = StatsHandler sv token r q
    \<and> (if sq_path r \<in> {''/stats'', ''/metrics''} then map_option fst (wr_sent (StatsHandler sv token r p)) = Some 403 else True)"
proof -
  let ?h = "Header_Get (sq_header r) ''Authorization''"
  have "?h = ''Bearer '' @ token" if "take (length ''Bearer '') ?h = ''Bearer ''" "token = drop (length ''Bearer '') ?h"
    using that append_take_drop_id[of "length ''Bearer ''" ?h] by simp
  then have no: "\<not> tokenOK token r" using assms by (auto simp: tokenOK_def Let_def)
  have "map_option fst (wr_sent (http_Error ''forbidden'' 403 new_writer)) = Some 403"
    by (simp add: http_Error_def put_status_def write_body_def new_writer_def bytes_of_def body_allowed_def Let_def)
  then show ?thesis using no by (simp add: StatsHandler_def serve_stats_def serve_metrics_def)
qed

definition sample_stats_env :: stats_env where
  "sample_stats_env = \<lparr>sv_other = (\<lambda>r. http_Error ''404 page not found'' 404 new_writer), sv_json = (\<lambda>j. Some [123, 125]),
     sv_secs = id, sv_print = (\<lambda>r. True), sv_g = dec_int, sv_order = [], sv_now = 9\<rparr>"

theorem stats_gate_witness:
  "StatsHandler sample_stats_env ''t0k'' \<lparr>sq_path = ''/stats'', sq_query = ''token=t0x'', sq_header = []\<rparr> (sample_proxy 2)
   = StatsHandler sample_stats_env ''t0k'' \<lparr>sq_path = ''/stats'', sq_query = ''token=t0x'', sq_header = []\<rparr> (sample_proxy 3)"
proof -
  have "Query_Get ''token=t0x'' ''token'' = ''t0x''" by code_simp
  then show ?thesis
    using stats_gate[of "''t0k''" "\<lparr>sq_path = ''/stats'', sq_query = ''token=t0x'', sq_header = []\<rparr>" sample_stats_env
        "sample_proxy 2" "sample_proxy 3"]
    by (simp add: Header_Get_def)
qed

text \<open>With the token the statistics are served: whatever bytes the token has, a request that carries it
  escaped in the query, or as a bearer token, gets the exposition of the proxy's counters.\<close>

theorem stats_token_accepted:
  assumes "sq_path r = ''/metrics''"
    "sq_query r = ''token='' @ query_escape token \<or> Header_Get (sq_header r) ''Authorization'' = ''Bearer '' @ token"
  shows "StatsHandler sv token r p = typed_reply ''text/plain; version=0.0.4; charset=utf-8''
    (bytes_of (WritePrometheus (sv_print sv) (sv_g sv) (sv_order sv) (sv_now sv) (px_stats p) ''dev'' (PoolMode p)))"
proof -
  have "Query_Get (sq_query r) ''token'' = token \<or> Header_Get (sq_header r) ''Authorization'' = ''Bearer '' @ token"
    using assms(2) Query_Get_escape by metis
  then have "tokenOK token r" by (auto simp: tokenOK_def)
  then show ?thesis using assms(1) by (simp add: StatsHandler_def serve_metrics_def version_def)
qed

theorem stats_token_accepted_witness:
  "StatsHandler sample_stats_env ''a b&c'' \<lparr>sq_path = ''/metrics'', sq_query = ''token=a+b%26c'', sq_header = []\<rparr> (sample_proxy 2)
   = typed_reply ''text/plain; version=0.0.4; charset=utf-8''
       (bytes_of (WritePrometheus (\<lambda>r. True) dec_int [] 9 (px_stats (sample_proxy 2)) ''dev'' (PoolMode (sample_proxy 2))))"
proof -
  have "query_escape ''a b&c'' = ''a+b%26c''" by code_simp
  then show ?thesis
    using stats_token_accepted[of "\<lparr>sq_path = ''/metrics'', sq_query = ''token=a+b%26c'', sq_header = []\<rparr>" "''a b&c''"
        sample_stats_env "sample_proxy 2"]
    by (simp add: sample_stats_env_def)
qed

end
