(* ===== verification/Main_Loop.thy ===== *)
theory Main_Loop
  imports Socks5 Stats_Http
begin

text \<open>
  \<open>cmd/v6pool/main.go\<close>: start-up, the periodic sweep and the life of the process, with
  \<open>SweepClaims\<close> of \<open>proxy.go\<close>.  What the running program meets is a list of events: requests of the three
  listeners, single actions of the relays that are running, ticks of the sweep, a signal, a listener
  that fails.  A request is handled up to its reply or to the start of its relay before the next event;
  from then on its relay's actions interleave with everything else, for ever if its peers keep it alive.
  The operations a request shares with others hold the proxy's lock or are atomic counters; the finer
  interleavings of sessions and cycles are the subject of their own theories.
\<close>

section \<open>Start-up\<close>

datatype service = HTTPService | SOCKSService | StatsService

datatype run_error = ConfigError config_error | SeedError seed_error | ListenError service go_error
  | ServeError go_error

type_synonym listen = "service \<Rightarrow> string \<Rightarrow> go_error option"

text \<open>One of the three blocks: the services listening so far, the switch and the address.\<close>

definition listen_on :: "listen \<Rightarrow> service \<Rightarrow> bool \<Rightarrow> string \<Rightarrow> service list \<Rightarrow> run_error + service list" where
  "listen_on listen s enabled addr ss =
     (if enabled \<and> addr \<noteq> ''''
      then (case listen s addr of Some e \<Rightarrow> Inl (ListenError s e) | None \<Rightarrow> Inr (ss @ [s]))
      else Inr ss)"

definition start_listeners :: "listen \<Rightarrow> config \<Rightarrow> run_error + service list" where
  "start_listeners listen c =
     (case listen_on listen HTTPService (EnableHTTP c) (HTTPListen c) [] of
        Inl e \<Rightarrow> Inl e
      | Inr ss \<Rightarrow>
          (case listen_on listen SOCKSService (EnableSOCKS5 c) (SOCKS5Listen c) ss of
             Inl e \<Rightarrow> Inl e
           | Inr ss \<Rightarrow> listen_on listen StatsService (EnableStats c) (StatsListen c) ss))"

section \<open>Events\<close>

text \<open>What one sweep meets: the clock readings, the order of \<open>range\<close>, the \<open>ip\<close> command.\<close>

record sweep_env =
  sw_sessions :: int
  sw_claims1 :: "string \<Rightarrow> int"
  sw_claims2 :: "string \<Rightarrow> int"
  sw_order :: "string list"
  sw_exec :: exec
  sw_rng :: "table \<Rightarrow> table"
  sw_streams :: "string \<Rightarrow> int"

definition SweepClaims :: "sweep_env \<Rightarrow> 'c node \<Rightarrow> 'c node" where
  "SweepClaims sw n =
     (let (env, c) = Sweep_claims (sw_exec sw) (sw_claims1 sw) (sw_claims2 sw) (sw_order sw)
                       (nd_env n, px_claimer (nd_px n))
      in n\<lparr>nd_env := env, nd_px := (nd_px n)\<lparr>px_claimer := c\<rparr>\<rparr>)"

text \<open>A tick: sessions, claims, cycles.\<close>

definition sweep_tick :: "sweep_env \<Rightarrow> 'c node \<Rightarrow> 'c node option" where
  "sweep_tick sw n =
     (let n = n\<lparr>nd_px := SweepSessions (sw_sessions sw) (nd_px n)\<rparr>;
          n = SweepClaims sw n
      in map_option (\<lambda>p. n\<lparr>nd_px := p\<rparr>) (SweepStreams (sw_rng sw) (sw_streams sw) (nd_px n)))"

datatype 'c event =
  HttpRequest "'c henv" request
| SocksConn "nat \<Rightarrow> bool" "'c senv" "byte list"
| StatsRequest stats_env stats_request
| RelayAct nat relay_label
| Tick sweep_env
| Signal
| ServeFails go_error

text \<open>The accept loop of the SOCKS5 listener: the connections handed to the handler, and the error it
  returns (None: still accepting).\<close>

fun serveSOCKS5 :: "(go_error + 'a) list \<Rightarrow> 'a list \<times> go_error option" where
  "serveSOCKS5 [] = ([], None)"
| "serveSOCKS5 (Inl e # as) = ([], Some e)"
| "serveSOCKS5 (Inr conn # as) = (let (cs, e) = serveSOCKS5 as in (conn # cs, e))"

text \<open>Does a service that listens receive the event?\<close>

fun receives :: "service list \<Rightarrow> 'c event \<Rightarrow> bool" where
  "receives ss (HttpRequest he r) = (HTTPService \<in> set ss)"
| "receives ss (SocksConn wok se inp) = (SOCKSService \<in> set ss)"
| "receives ss (StatsRequest sv r) = (StatsService \<in> set ss)"
| "receives ss e = True"

text \<open>The effect of an event on the node; the statistics only read it.\<close>

fun handle_event :: "'c dial \<Rightarrow> 'c event \<Rightarrow> 'c node \<Rightarrow> 'c node option" where
  "handle_event dial (HttpRequest he r) n = map_option snd (handleHTTP dial he r n)"
| "handle_event dial (SocksConn wok se inp) n = map_option snd (HandleSOCKS5 dial wok se inp n)"
| "handle_event dial (RelayAct i l) n = Some (relay_act i l n)"
| "handle_event dial (Tick sw) n = sweep_tick sw n"
| "handle_event dial e n = Some n"

datatype exit = Running | Version string | Stopped | Failed run_error

fun event_exit :: "'c event \<Rightarrow> exit option" where
  "event_exit Signal = Some Stopped"
| "event_exit (ServeFails e) = Some (Failed (ServeError e))"
| "event_exit e = None"

fun serve :: "'c dial \<Rightarrow> service list \<Rightarrow> 'c event list \<Rightarrow> 'c node \<Rightarrow> (exit \<times> 'c node) option" where
  "serve dial ss [] n = Some (Running, n)"
| "serve dial ss (e # es) n =
     (if \<not> receives ss e then serve dial ss es n
      else (case event_exit e of
              Some x \<Rightarrow> Some (x, n)
            | None \<Rightarrow> (case handle_event dial e n of None \<Rightarrow> None | Some n \<Rightarrow> serve dial ss es n)))"

section \<open>The process\<close>

text \<open>The command line, \<open>config.Load\<close>, the random source, the clock, \<open>net.Listen\<close>, and the node's
  surroundings.\<close>

record 'c process =
  pr_version :: bool
  pr_config :: string
  pr_load :: "string \<Rightarrow> config_error + config"
  pr_rand :: "string + byte list"
  pr_now :: int
  pr_listen :: listen
  pr_env :: netenv
  pr_sr :: "nat \<Rightarrow> surround"
  pr_nw :: "nat \<Rightarrow> 'c netw"

definition new_node :: "'c process \<Rightarrow> proxy \<Rightarrow> 'c node" where
  "new_node pr p = \<lparr>nd_px = p, nd_env = pr_env pr, nd_at = 0, nd_sr = pr_sr pr, nd_nw = pr_nw pr, nd_log = [],
     nd_rec = [], nd_relays = []\<rparr>"

text \<open>\<open>main.version\<close>, set by the build flags.\<close>

definition run :: "string \<Rightarrow> 'c process \<Rightarrow> 'c event list \<Rightarrow> (exit \<times> 'c node option) option" where
  "run main_version pr es =
     (if pr_version pr then Some (Version (''v6pool '' @ main_version @ nl), None)
      else let path = (if pr_config pr = '''' then ''/etc/v6pool/config.yaml'' else pr_config pr)
        in case pr_load pr path of
             Inl e \<Rightarrow> Some (Failed (ConfigError e), None)
           | Inr cfg \<Rightarrow>
               (case New_proxy (pr_rand pr) (pr_now pr) cfg of
                  Inl e \<Rightarrow> Some (Failed (SeedError e), None)
                | Inr p \<Rightarrow>
                    (case start_listeners (pr_listen pr) cfg of
                       Inl e \<Rightarrow> Some (Failed e, None)
                     | Inr ss \<Rightarrow> map_option (\<lambda>(x, n). (x, Some n)) (serve dial_node ss es (new_node pr p)))))"

definition exit_code :: "exit \<Rightarrow> int" where
  "exit_code x = (case x of Failed e \<Rightarrow> 1 | _ \<Rightarrow> 0)"

section \<open>A tick\<close>

definition session_frame :: "proxy \<Rightarrow> proxy \<Rightarrow> bool" where
  "session_frame p q \<longleftrightarrow> (\<exists>ss n. q = p\<lparr>px_sessions := ss, px_stats := (px_stats p)\<lparr>SessionsCur := n\<rparr>\<rparr>)"

lemma session_frame_refl [simp]: "session_frame p p"
  unfolding session_frame_def by (intro exI[of _ "px_sessions p"] exI[of _ "SessionsCur (px_stats p)"]) simp

lemma session_frame_drop: "session_frame p q \<Longrightarrow> session_frame p (dropSessionLocked k q)"
  unfolding session_frame_def dropSessionLocked_def by (elim exE) (simp, blast)

lemma SweepSessions_frame: "session_frame p (SweepSessions now p)"
proof -
  have "session_frame p q \<Longrightarrow>
      session_frame p (fold (\<lambda>(k, s) p. if now > ses_expire s then dropSessionLocked k p else p) ss q)" for ss q
    by (induction ss arbitrary: q) (auto simp: session_frame_drop)
  from this[OF session_frame_refl] show ?thesis unfolding SweepSessions_def .
qed

lemma session_frame_keeps:
  assumes "session_frame p q"
  shows "proxy_ok q = proxy_ok p" "stats_wf (px_stats q) = stats_wf (px_stats p)"
    "traffic (px_stats q) = traffic (px_stats p)" "px_streams q = px_streams p"
    "px_cfg q = px_cfg p" "px_accounts q = px_accounts p" "streamMax q = streamMax p"
    "px_pool q = px_pool p" "px_hosts q = px_hosts p"
  using assms by (auto simp: session_frame_def stats_wf_def proxy_ok_def cycles_fit_def streams_ok_def ring_wf_def
      fit_entry_def)

lemma same_rest_site: "same_rest p q \<Longrightarrow> same_site p q \<and> stats_wf (px_stats q) = stats_wf (px_stats p)
    \<and> px_sessions q = px_sessions p \<and> streamMax q = streamMax p"
proof -
  assume "same_rest p q"
  then have "q = p\<lparr>px_streams := px_streams q, px_stats := (px_stats p)\<lparr>HostsCur := HostsCur (px_stats q)\<rparr>\<rparr>"
    by (simp add: same_rest_def)
  then obtain s h where "q = p\<lparr>px_streams := s, px_stats := (px_stats p)\<lparr>HostsCur := h\<rparr>\<rparr>" by blast
  then show ?thesis by (simp add: same_site_def stats_wf_def)
qed

lemma SweepStreams_proxy_ok:
  assumes "proxy_ok p" "rng_ok rng"
  obtains q where "SweepStreams rng now p = Some q" "proxy_ok q" "same_rest p q"
    "\<forall>k e. map_of (px_streams q) k = Some e \<longrightarrow> map_of (px_streams p) k = Some e \<and> now k - e_seen e \<le> hostIdleTTL"
proof -
  have wf: "table_wf (px_streams p)" "0 < streamMax p"
    using assms(1) by (simp_all add: proxy_ok_def cycles_fit_def streams_ok_def)
  let ?t = "filter (\<lambda>ke. \<not> idle now ke) (px_streams p)"
  obtain q where q: "SweepStreams rng now p = Some q" "streams_ok q" "same_rest p q" "lru_part ?t (px_streams q)"
    by (rule SweepStreams_effect[OF assms(2) wf])
  have d: "distinct (map fst (px_streams p))" using wf(1) by (simp add: table_wf_def)
  have sub: "map_of (px_streams p) k = Some e \<and> now k - e_seen e \<le> hostIdleTTL"
    if "map_of (px_streams q) k = Some e" for k e
  proof -
    have "map_of (px_streams q) k \<in> {None, map_of ?t k}" using q(4) by (simp add: lru_part_def)
    then have "map_of ?t k = Some e" using that by auto
    then have "(k, e) \<in> set ?t" by (rule map_of_SomeD)
    then show ?thesis using d by (auto simp: idle_def)
  qed
  have "fit_entry q k s = fit_entry p k s" for k s
    using same_rest_keeps[OF q(3)] by (simp add: fit_entry_def cong: option.case_cong)
  moreover have "ring_wf q" using assms(1) same_rest_keeps[OF q(3)] by (simp add: proxy_ok_def ring_wf_def)
  ultimately have "proxy_ok q"
    using assms(1) sub q(2) same_rest_keeps[OF q(3)] by (auto simp: proxy_ok_def cycles_fit_iff)
  then show ?thesis using that q sub by blast
qed

lemma SweepClaims_px:
  obtains c where "nd_px (SweepClaims sw n) = (nd_px n)\<lparr>px_claimer := c\<rparr>" "nd_sr (SweepClaims sw n) = nd_sr n"
    "nd_log (SweepClaims sw n) = nd_log n" "nd_relays (SweepClaims sw n) = nd_relays n"
  by (cases "Sweep_claims (sw_exec sw) (sw_claims1 sw) (sw_claims2 sw) (sw_order sw) (nd_env n, px_claimer (nd_px n))")
    (simp add: SweepClaims_def)

lemma proxy_ok_claimer [simp]: "proxy_ok (p\<lparr>px_claimer := c\<rparr>) = proxy_ok p"
  by (simp add: proxy_ok_def cycles_fit_def streams_ok_def ring_wf_def fit_entry_def)

lemma sweep_tick_ok:
  assumes "node_ok n" "rng_ok (sw_rng sw)"
  obtains m where "sweep_tick sw n = Some m" "node_ok m" "same_site (nd_px n) (nd_px m)" "nd_log m = nd_log n"
    "nd_relays m = nd_relays n"
    "\<And>k. map_of (px_sessions (nd_px m)) k = (case map_of (px_sessions (nd_px n)) k of None \<Rightarrow> None
       | Some s \<Rightarrow> if sw_sessions sw > ses_expire s then None else Some s)"
    "\<And>k e. map_of (px_streams (nd_px m)) k = Some e \<Longrightarrow>
       map_of (px_streams (nd_px n)) k = Some e \<and> sw_streams sw k - e_seen e \<le> hostIdleTTL"
proof -
  let ?p = "SweepSessions (sw_sessions sw) (nd_px n)"
  let ?n = "n\<lparr>nd_px := ?p\<rparr>"
  have keys: "keys_ok (px_sessions (nd_px n))" using assms(1) by (simp add: node_ok_def)
  note s = SweepSessions_effect[OF keys, of "sw_sessions sw"]
    and f = session_frame_keeps[OF SweepSessions_frame[of "nd_px n" "sw_sessions sw"]]
  obtain c where c: "nd_px (SweepClaims sw ?n) = ?p\<lparr>px_claimer := c\<rparr>" "nd_sr (SweepClaims sw ?n) = nd_sr n"
    "nd_log (SweepClaims sw ?n) = nd_log n" "nd_relays (SweepClaims sw ?n) = nd_relays n"
    by (rule SweepClaims_px[of sw ?n]) simp
  have "proxy_ok (?p\<lparr>px_claimer := c\<rparr>)" using assms(1) f(1) by (simp add: node_ok_def)
  from SweepStreams_proxy_ok[OF this assms(2), of "sw_streams sw"] obtain q where
    q: "SweepStreams (sw_rng sw) (sw_streams sw) (?p\<lparr>px_claimer := c\<rparr>) = Some q" "proxy_ok q"
      "same_rest (?p\<lparr>px_claimer := c\<rparr>) q"
      "\<forall>k e. map_of (px_streams q) k = Some e \<longrightarrow>
         map_of (px_streams (?p\<lparr>px_claimer := c\<rparr>)) k = Some e \<and> sw_streams sw k - e_seen e \<le> hostIdleTTL" by blast
  note r = same_rest_site[OF q(3)]
  let ?m = "(SweepClaims sw ?n)\<lparr>nd_px := q\<rparr>"
  have "stats_wf (px_stats q) = stats_wf (px_stats (nd_px n))" using r f(2) by simp
  moreover have "keys_ok (px_sessions q)" using r s(1) by simp
  ultimately have "node_ok ?m" using assms(1) q(2) c(2) by (simp add: node_ok_def)
  moreover have "same_site (nd_px n) q" using r f s(1) by (simp add: same_site_def)
  moreover have "sweep_tick sw n = Some ?m" using q(1) c(1) by (simp add: sweep_tick_def)
  ultimately show ?thesis using that[of ?m] r q(4) s(4) f(4) c(3,4) by simp
qed

section \<open>Serving\<close>

text \<open>The one thing asked of an event: the order in which a sweep meets the cycles is an order.\<close>

fun event_fine :: "'c event \<Rightarrow> bool" where
  "event_fine (Tick sw) = rng_ok (sw_rng sw)"
| "event_fine e = True"

fun is_http :: "'c event \<Rightarrow> bool" where
  "is_http (HttpRequest he r) = True"
| "is_http e = False"

fun is_socks :: "'c event \<Rightarrow> bool" where
  "is_socks (SocksConn wok se inp) = True"
| "is_socks e = False"

text \<open>The events a process serves before it exits.\<close>

definition served_events :: "service list \<Rightarrow> 'c event list \<Rightarrow> 'c event list" where
  "served_events ss es = takeWhile (\<lambda>e. event_exit e = None) (filter (receives ss) es)"

definition counts :: "'c node \<Rightarrow> 'c node \<Rightarrow> nat \<Rightarrow> nat \<Rightarrow> bool" where
  "counts n m h s \<longleftrightarrow> HTTPReqs (px_stats (nd_px m)) = HTTPReqs (px_stats (nd_px n)) + of_nat h
     \<and> SOCKSConns (px_stats (nd_px m)) = SOCKSConns (px_stats (nd_px n)) + of_nat s
     \<and> (relays_counted n \<longrightarrow> relays_counted m)"

lemma counts_site: "same_site (nd_px n) (nd_px m) \<Longrightarrow> nd_relays m = nd_relays n \<Longrightarrow> counts n m 0 0"
  using relays_counted_cong[of m n] by (simp add: same_site_def traffic_def counts_def)

lemma counts_relay_act: "counts n (relay_act i l n) 0 0"
  using relay_act_buckets[of n i l] relays_counted_act[of n i l] by (simp add: counts_def same_buckets_def)

lemma counts_served:
  "served k (on_stats f n) m \<Longrightarrow> (\<And>st. traffic (f st) = ((HTTPReqs st + of_nat h, SOCKSConns st + of_nat s, ActiveConns st),
      (Rejected (f st), BytesIn st, BytesOut st))) \<Longrightarrow> counts n m h s"
  using relays_counted_cong[of "on_stats f n" n] by (simp add: counts_def served_def traffic_def)

text \<open>The dialer's contract with a tick that keeps its invariant.\<close>

locale ticking = upstream +
  assumes tick_returns: "ok n \<Longrightarrow> rng_ok (sw_rng sw) \<Longrightarrow>
    \<exists>m. sweep_tick sw n = Some m \<and> ok m \<and> same_site (nd_px n) (nd_px m) \<and> nd_relays m = nd_relays n"
begin

lemma handle_event_ok:
  assumes "ok n" "event_fine e"
  obtains m where "handle_event dial e n = Some m" "ok m"
    "counts n m (if is_http e then 1 else 0) (if is_socks e then 1 else 0)"
proof (cases e)
  case (HttpRequest he r)
  obtain out m where m: "handleHTTP dial he r n = Some (out, m)" "ok m"
    "served (tunnels out) (on_stats (\<lambda>st. st\<lparr>HTTPReqs := HTTPReqs st + 1, Rejected := Rejected st + reject_count r n\<rparr>) n) m"
    by (rule handleHTTP_returns[OF assms(1)])
  have "counts n m 1 0" by (rule counts_served[OF m(3)]) (simp add: traffic_def)
  then show ?thesis using that[of m] HttpRequest m by simp
next
  case (SocksConn wok se inp)
  obtain out m k where m: "HandleSOCKS5 dial wok se inp n = Some (out, m)" "ok m"
    "served (case snd out of None \<Rightarrow> 0 | Some up \<Rightarrow> 1)
       (on_stats (\<lambda>st. st\<lparr>SOCKSConns := SOCKSConns st + 1, Rejected := Rejected st + k\<rparr>) n) m"
    by (rule HandleSOCKS5_returns[OF assms(1)])
  have "counts n m 0 1" by (rule counts_served[OF m(3)]) (simp add: traffic_def)
  then show ?thesis using that[of m] SocksConn m by simp
next
  case (RelayAct i l)
  then show ?thesis using that[of "relay_act i l n"] relay_act_ok[OF assms(1)] by (simp add: counts_relay_act)
next
  case (Tick sw)
  then have "rng_ok (sw_rng sw)" using assms(2) by simp
  from tick_returns[OF assms(1) this] obtain m where
    "sweep_tick sw n = Some m" "ok m" "same_site (nd_px n) (nd_px m)" "nd_relays m = nd_relays n" by blast
  then show ?thesis using that[of m] Tick by (simp add: counts_site)
qed (use assms(1) that[of n] in \<open>simp_all add: counts_def\<close>)

lemma serve_ok:
  "ok n \<Longrightarrow> list_all event_fine es \<Longrightarrow>
   \<exists>x m. serve dial ss es n = Some (x, m) \<and> ok m
     \<and> counts n m (length (filter is_http (served_events ss es))) (length (filter is_socks (served_events ss es)))"
proof (induction es arbitrary: n)
  case (Cons e es)
  show ?case
  proof (cases "receives ss e \<and> event_exit e = None")
    case True
    obtain m where m: "handle_event dial e n = Some m" "ok m"
      "counts n m (if is_http e then 1 else 0) (if is_socks e then 1 else 0)"
      by (rule handle_event_ok[OF Cons.prems(1), of e]) (use Cons.prems(2) in simp_all)
    from Cons.IH[OF m(2)] Cons.prems(2) obtain x m' where
      m': "serve dial ss es m = Some (x, m')" "ok m'"
        "counts m m' (length (filter is_http (served_events ss es)))
           (length (filter is_socks (served_events ss es)))" by auto
    have "served_events ss (e # es) = e # served_events ss es" using True by (simp add: served_events_def)
    then show ?thesis using True m m' by (auto simp: counts_def)
  next
    case False
    then consider "\<not> receives ss e" | x where "receives ss e" "event_exit e = Some x"
      by (cases "event_exit e") auto
    then show ?thesis
    proof cases
      case 1
      then have "served_events ss (e # es) = served_events ss es" by (simp add: served_events_def)
      then show ?thesis using 1 Cons by simp
    next
      case 2
      then have "served_events ss (e # es) = []" by (simp add: served_events_def)
      then show ?thesis using 2 Cons.prems by (simp add: counts_def)
    qed
  qed
qed (simp add: served_events_def counts_def)

end

interpretation process: ticking dial_node node_ok
  by unfold_locales (blast elim: sweep_tick_ok)

lemma new_node_ok:
  assumes "New_proxy rand now c = Inr p" "\<forall>i. rng_ok (sr_rng (pr_sr pr i))"
  shows "node_ok (new_node pr p)"
proof -
  have "stats_wf (px_stats p)" "px_sessions p = []"
    using assms(1) stats_wf_cong[of "New_stats now us\<lparr>SeedFP := f\<rparr>" "New_stats now us" for us f]
    by (auto simp: New_proxy_def Let_def split: sum.splits)
  with New_proxy_ok[OF assms(1)] assms(2) show ?thesis by (simp add: node_ok_def new_node_def keys_ok_def)
qed

section \<open>Properties\<close>

lemma applyDefaults_listens: "HTTPListen (applyDefaults c) \<noteq> ''''" "SOCKS5Listen (applyDefaults c) \<noteq> ''''"
  by (simp_all add: applyDefaults_def DefaultHTTPListen_def DefaultSOCKS5Listen_def Let_def)

text \<open>The accept loop serves every connection up to the first failure of the listener.\<close>

lemma serveSOCKS5_all:
  "serveSOCKS5 as = (map projr (takeWhile (\<lambda>a. \<not> isl a) as),
     case dropWhile (\<lambda>a. \<not> isl a) as of [] \<Rightarrow> None | a # _ \<Rightarrow> Some (projl a))"
  by (induction as rule: serveSOCKS5.induct) (simp_all add: case_prod_beta)

lemma bytes_sums:
  "sum_list (map bytes_out cs) = (\<Sum>c\<leftarrow>cs. if r_outDone (cn_relay c) then of_nat (r_out (cn_relay c)) else 0)"
  "sum_list (map bytes_in cs) = (\<Sum>c\<leftarrow>cs. if r_inDone (cn_relay c) then of_nat (r_in (cn_relay c)) else 0)"
  by (induction cs) (simp_all add: bytes_out_def bytes_in_def)

text \<open>C3. The whole process is sound: for every configuration, every way the system answers and every
  sequence of requests, connections, statistics queries, single actions of the relays that are running,
  sweeps and exits, whatever clients and upstreams do, no event hangs: it fails at start-up or
  serves, and when it serves, its state is consistent at the end, the gauge of active connections is the
  number of relays that are not over (some may never be), the byte counters are the bytes of the
  copies that have ended and the request counters are the numbers of the events the started services
  received (the counters modulo \<open>2^64\<close>).  The two hypotheses say that ranging over the cycle table
  visits every entry once.\<close>

theorem run_sound:
  assumes "\<And>i. rng_ok (sr_rng (pr_sr pr i))" "list_all event_fine es"
  shows "\<exists>x on. run v pr es = Some (x, on) \<and>
    (case on of
       None \<Rightarrow> (if pr_version pr then x = Version (''v6pool '' @ v @ nl) else exit_code x = 1)
     | Some n \<Rightarrow> node_ok n
         \<and> ActiveConns (px_stats (nd_px n)) = int (length (filter (\<lambda>c. \<not> r_over (cn_relay c)) (nd_relays n)))
         \<and> BytesOut (px_stats (nd_px n))
             = (\<Sum>c\<leftarrow>nd_relays n. if r_outDone (cn_relay c) then of_nat (r_out (cn_relay c)) else 0)
         \<and> BytesIn (px_stats (nd_px n))
             = (\<Sum>c\<leftarrow>nd_relays n. if r_inDone (cn_relay c) then of_nat (r_in (cn_relay c)) else 0)
         \<and> (\<exists>cfg ss. pr_load pr (if pr_config pr = '''' then ''/etc/v6pool/config.yaml'' else pr_config pr) = Inr cfg
              \<and> start_listeners (pr_listen pr) cfg = Inr ss
              \<and> HTTPReqs (px_stats (nd_px n)) = of_nat (length (filter is_http (served_events ss es)))
              \<and> SOCKSConns (px_stats (nd_px n)) = of_nat (length (filter is_socks (served_events ss es)))))"
proof (cases "pr_version pr")
  case False
  let ?path = "if pr_config pr = '''' then ''/etc/v6pool/config.yaml'' else pr_config pr"
  show ?thesis
  proof (cases "pr_load pr ?path")
    case (Inl e)
    then show ?thesis using False by (simp add: run_def exit_code_def)
  next
    case cfg: (Inr cfg)
    show ?thesis
    proof (cases "New_proxy (pr_rand pr) (pr_now pr) cfg")
      case (Inl e)
      then show ?thesis using False cfg by (simp add: run_def exit_code_def)
    next
      case p: (Inr p)
      show ?thesis
      proof (cases "start_listeners (pr_listen pr) cfg")
        case (Inl e)
        then show ?thesis using False cfg p by (simp add: run_def exit_code_def)
      next
        case ss: (Inr ss)
        have "node_ok (new_node pr p)" using new_node_ok[OF p] assms(1) by blast
        from process.serve_ok[OF this assms(2), of ss] obtain x m where m: "serve dial_node ss es (new_node pr p) = Some (x, m)" "node_ok m"
          "counts (new_node pr p) m (length (filter is_http (served_events ss es)))
             (length (filter is_socks (served_events ss es)))" by blast
        have z: "HTTPReqs (px_stats p) = 0" "SOCKSConns (px_stats p) = 0" "ActiveConns (px_stats p) = 0"
          "BytesOut (px_stats p) = 0" "BytesIn (px_stats p) = 0"
          using p by (auto simp: New_proxy_def New_stats_def Let_def split: sum.splits)
        then have "relays_counted (new_node pr p)" by (simp add: relays_counted_def new_node_def)
        then have "relays_counted m" using m(3) by (simp add: counts_def)
        then show ?thesis using False cfg p ss m z
          by (intro exI[of _ x] exI[of _ "Some m"])
            (simp add: run_def counts_def new_node_def relays_counted_def active_sum bytes_sums)
      qed
    qed
  qed
qed (simp add: run_def)

definition sample_sweep :: sweep_env where
  "sample_sweep = \<lparr>sw_sessions = 50, sw_claims1 = (\<lambda>_. 50), sw_claims2 = (\<lambda>_. 50), sw_order = [], sw_exec = sample_exec,
     sw_rng = rev, sw_streams = (\<lambda>_. 50)\<rparr>"

definition sample_process :: "nat process" where
  "sample_process = \<lparr>pr_version = False, pr_config = '''', pr_load = (\<lambda>path. Inr (sample_config\<lparr>EnableSOCKS5 := True,
       SOCKS5Listen := '':1080''\<rparr>)), pr_rand = Inl '''', pr_now = 0, pr_listen = (\<lambda>s addr. None),
     pr_env = sample_env [], pr_sr = (\<lambda>_. sample_surround), pr_nw = (\<lambda>_. sample_netw)\<rparr>"

definition sample_events :: "nat event list" where
  "sample_events = [SocksConn (\<lambda>_. True) sample_senv [5, 1, 2, 1], HttpRequest sample_henv (sample_request ''GET'' ''''),
     RelayAct 0 (ReadOut 4), Tick sample_sweep, SocksConn (\<lambda>_. False) sample_senv [5, 1, 2, 1], Signal, SocksConn (\<lambda>_. True) sample_senv []]"

theorem run_sound_witness:
  "\<exists>x n. run ''1.0'' sample_process sample_events = Some (x, Some n) \<and> SOCKSConns (px_stats (nd_px n)) = 2
     \<and> HTTPReqs (px_stats (nd_px n)) = 0"
proof -
  let ?c = "sample_config\<lparr>EnableSOCKS5 := True, SOCKS5Listen := '':1080''\<rparr>"
  have fine: "list_all event_fine sample_events" "rng_ok (sr_rng (pr_sr sample_process i))" for i
    by (simp_all add: sample_events_def sample_senv_def sample_henv_def sample_sweep_def sample_process_def
        sample_surround_def rng_ok_def)
  have ss: "start_listeners (\<lambda>s addr. None) ?c = Inr [SOCKSService]"
    by (simp add: start_listeners_def listen_on_def sample_config_def)
  have "PoolSeed ?c = ''00ff''" by (simp add: sample_config_def)
  then obtain p where "New_proxy (Inl '''') 0 ?c = Inr p" by (simp add: New_proxy_def parseSeed_sample Let_def)
  then have started: "run ''1.0'' sample_process sample_events \<noteq> Some (x, None)" for x
    using ss by (auto simp: run_def sample_process_def)
  obtain x on where r: "run ''1.0'' sample_process sample_events = Some (x, on)"
    "\<And>n. on = Some n \<Longrightarrow> (\<exists>cfg ss. pr_load sample_process ''/etc/v6pool/config.yaml'' = Inr cfg
       \<and> start_listeners (pr_listen sample_process) cfg = Inr ss
       \<and> HTTPReqs (px_stats (nd_px n)) = of_nat (length (filter is_http (served_events ss sample_events)))
       \<and> SOCKSConns (px_stats (nd_px n)) = of_nat (length (filter is_socks (served_events ss sample_events))))"
    using run_sound[OF fine(2,1), of "''1.0''"] by (fastforce simp: sample_process_def split: option.splits)
  obtain n where n: "on = Some n" using r(1) started by (cases on) auto
  from r(2)[OF n] ss r(1) n show ?thesis by (auto simp: sample_process_def sample_events_def served_events_def)
qed

text \<open>C39. With a loaded configuration the listeners are exactly the enabled ones: HTTP and SOCKS5 when they
  are enabled, since loading gives them an address, and the statistics when enabled with an address,
  so without \<open>stats_listen\<close> they are off although enabled.  Start-up succeeds with all of these
  exactly when none of them fails to listen; otherwise it fails with the error of the first that does.\<close>

theorem listeners_of_loaded:
  assumes "Load readFile decode nodes path = Inr c"
  shows "start_listeners listen c =
    (let want = (if EnableHTTP c then [(HTTPService, HTTPListen c)] else [])
           @ (if EnableSOCKS5 c then [(SOCKSService, SOCKS5Listen c)] else [])
           @ (if EnableStats c \<and> StatsListen c \<noteq> '''' then [(StatsService, StatsListen c)] else [])
     in case filter (\<lambda>(s, a). listen s a \<noteq> None) want of
          [] \<Rightarrow> Inr (map fst want)
        | (s, a) # _ \<Rightarrow> Inl (ListenError s (the (listen s a))))"
proof -
  have "HTTPListen c \<noteq> ''''" "SOCKS5Listen c \<noteq> ''''"
    using assms by (auto simp: Load_def applyDefaults_listens Let_def split: sum.splits option.splits)
  then show ?thesis by (auto simp: start_listeners_def listen_on_def Let_def split: option.splits sum.splits if_splits)
qed

definition refusal :: go_error where
  "refusal = \<lparr>err_msg = ''address already in use'', err_net = None, err_op = True\<rparr>"

theorem listeners_of_loaded_witness:
  "start_listeners (\<lambda>s a. None) (applyDefaults (applyEnableDefaults sample_config [])) = Inr [HTTPService, SOCKSService]
   \<and> start_listeners (\<lambda>s a. if s = SOCKSService then Some refusal else None)
       (applyDefaults (applyEnableDefaults sample_config [])) = Inl (ListenError SOCKSService refusal)"
proof -
  have e: "EnableHTTP (applyDefaults (applyEnableDefaults sample_config []))"
    "EnableSOCKS5 (applyDefaults (applyEnableDefaults sample_config []))"
    "StatsListen (applyDefaults (applyEnableDefaults sample_config [])) = ''''"
    by (simp_all add: applyDefaults_def applyEnableDefaults_def sample_config_def Let_def)
  note l = listeners_of_loaded[OF sample_Load[of "[]"]]
  show ?thesis
    using l[of "\<lambda>s a. None"] l[of "\<lambda>s a. if s = SOCKSService then Some refusal else None"] e
    by (simp add: presentKeys_def)
qed

text \<open>C40. A tick cleans the state: it always returns, keeps the state consistent, and afterwards holds exactly
  the sessions that had not expired, and no cycle that was not looked up in the last hour; it
  forgets nothing else of the configuration, the accounts and the traffic counters.\<close>

theorem tick_cleans:
  assumes "node_ok n" "rng_ok (sw_rng sw)"
  shows "\<exists>m. sweep_tick sw n = Some m \<and> node_ok m \<and> same_site (nd_px n) (nd_px m)
    \<and> map_of (px_sessions (nd_px m)) k = (case map_of (px_sessions (nd_px n)) k of None \<Rightarrow> None
         | Some s \<Rightarrow> if sw_sessions sw > ses_expire s then None else Some s)
    \<and> (case map_of (px_streams (nd_px m)) j of None \<Rightarrow> True
       | Some e \<Rightarrow> map_of (px_streams (nd_px n)) j = Some e \<and> sw_streams sw j - e_seen e \<le> 3600000000000)"
proof -
  have ttl: "hostIdleTTL = 3600000000000" by (simp add: hostIdleTTL_def seconds_def)
  show ?thesis
    by (rule sweep_tick_ok[OF assms]) (auto simp: ttl split: option.split)
qed

theorem tick_cleans_witness:
  "\<exists>m. sweep_tick sample_sweep (sample_node\<lparr>nd_px := (nd_px sample_node)\<lparr>px_sessions :=
      [(''a'', \<lparr>ses_ip = [], ses_acct = ''u'', ses_expire = 40\<rparr>), (''b'', \<lparr>ses_ip = [], ses_acct = ''u'', ses_expire = 60\<rparr>)]\<rparr>\<rparr>) = Some m
     \<and> map_of (px_sessions (nd_px m)) ''a'' = None"
proof -
  let ?ss = "[(''a'', \<lparr>ses_ip = [], ses_acct = ''u'', ses_expire = 40\<rparr>), (''b'', \<lparr>ses_ip = [], ses_acct = ''u'', ses_expire = 60\<rparr>)]"
  let ?n = "sample_node\<lparr>nd_px := (nd_px sample_node)\<lparr>px_sessions := ?ss\<rparr>\<rparr>"
  have px: "proxy_ok (p\<lparr>px_sessions := ?ss\<rparr>) = proxy_ok p" for p
    by (simp add: proxy_ok_def cycles_fit_def streams_ok_def ring_wf_def fit_entry_def)
  have "proxy_ok (nd_px sample_node)" "stats_wf (px_stats (nd_px sample_node))"
    "\<And>i. rng_ok (sr_rng (nd_sr sample_node i))" using sample_node_ok unfolding node_ok_def by blast+
  moreover have "keys_ok ?ss" by (simp add: keys_ok_def)
  ultimately have ok: "node_ok ?n" by (simp add: node_ok_def px del: sample_node_ok)
  have "rng_ok (sw_rng sample_sweep)" by (simp add: sample_sweep_def rng_ok_def)
  from tick_cleans[OF ok this, of "''a''"] show ?thesis by (auto simp: sample_sweep_def)
qed

end
