(* ===== verification/Egress.thy ===== *)
theory Egress
  imports Main_Loop
begin

text \<open>
  Where connections leave from, over the whole process.  A fence around the network refuses every dial
  that is neither bound to an address of the pool's prefix nor an unbound IPv4 dial.  With a static
  pool the process cannot tell the fenced network from the real one, whatever its clients do: it
  never asks the system to dial IPv6 from anywhere else.
\<close>

section \<open>The fence\<close>

definition allowed :: "pool \<Rightarrow> dialer \<Rightarrow> string \<Rightarrow> bool" where
  "allowed pl d network =
     (case d_local d of
        Some src \<Rightarrow> in_prefix (nat (p_bits pl)) (p_prefix pl) src
      | None \<Rightarrow> network = ''tcp4'')"

definition refused :: go_error where
  "refused = \<lparr>err_msg = ''refused by the fence'', err_net = None, err_op = False\<rparr>"

definition fence :: "pool \<Rightarrow> 'c netw \<Rightarrow> 'c netw" where
  "fence pl nw = nw\<lparr>nw_dial := (\<lambda>i d network addr.
     if allowed pl d network then nw_dial nw i d network addr else Inl refused)\<rparr>"

text \<open>The dialer of the proxy, on the fenced network.\<close>

definition dial_fenced :: "pool \<Rightarrow> 'c dial" where
  "dial_fenced pl network addr acct key n =
     map_option (\<lambda>(r, env, p). (r, n\<lparr>nd_px := p, nd_env := env, nd_at := nd_at n + 1\<rparr>))
       (dialTarget (nd_sr n (nd_at n)) (fence pl (nd_nw n (nd_at n))) network addr acct key (nd_env n, nd_px n))"

lemma fence_simps [simp]:
  "allowed pl d network \<Longrightarrow> nw_dial (fence pl nw) i d network addr = nw_dial nw i d network addr"
  "nw_lookup (fence pl nw) = nw_lookup nw" "nw_ctx (fence pl nw) = nw_ctx nw"
  by (simp_all add: fence_def)

lemma dial_once_fence: "allowed pl d network \<Longrightarrow> dial_once (fence pl nw) i d network addr p = dial_once nw i d network addr p"
  by (simp add: dial_once_def)

lemma dial_v6_fence: "allowed pl d ''tcp6'' \<Longrightarrow> dial_v6 (fence pl nw) d port i xs p = dial_v6 nw d port i xs p"
  by (induction nw d port i xs p rule: dial_v6.induct) (auto split: sum.splits option.splits)

lemma dialTarget_fence:
  assumes "\<And>host port src q. SplitHostPort addr = Some (host, port) \<Longrightarrow>
      pickSource env (sr_rng sr) (sr_clock sr) acct key (normalizeHost (sr_lower sr) host) p = Some (src, q) \<Longrightarrow>
      in_prefix (nat (p_bits pl)) (p_prefix pl) src"
  shows "dialTarget sr (fence pl nw) network addr acct key (env, p) = dialTarget sr nw network addr acct key (env, p)"
proof (cases "SplitHostPort addr")
  case (Some hp)
  obtain host port where hp: "hp = (host, port)" by fastforce
  show ?thesis
  proof (cases "pickSource env (sr_rng sr) (sr_clock sr) acct key (normalizeHost (sr_lower sr) host) p")
    case ps: (Some sp)
    obtain src p1 where sp: "sp = (src, p1)" by fastforce
    have a: "allowed pl \<lparr>d_local = Some src, d_timeout = t\<rparr> network" "allowed pl \<lparr>d_local = None, d_timeout = t\<rparr> ''tcp4''"
      for t network using assms Some ps hp sp by (auto simp: allowed_def)
    show ?thesis
      by (simp add: dialTarget_def Some hp ps sp a dial_once_fence dial_v6_fence Let_def
          cong: option.case_cong sum.case_cong prod.case_cong if_cong)
  qed (simp add: dialTarget_def Some hp)
qed (simp add: dialTarget_def)

section \<open>Handlers depend on the dials they make\<close>

context upstream
begin

lemma run_trip_cong:
  assumes "\<And>network addr acct key m. ok m \<Longrightarrow> dial' network addr acct key m = dial network addr acct key m"
  shows "ok n \<Longrightarrow> run_trip dial' acct key t n = run_trip dial acct key t n"
proof (induction t arbitrary: n)
  case (Attempt network addr nxt)
  obtain r n1 where "dial network addr acct key n = Some (r, n1)" "ok n1" by (rule dialE[OF Attempt.prems])
  then show ?case using Attempt.IH[of "nxt r" n1] assms[OF Attempt.prems] by simp
qed simp

lemma handleHTTP_cong:
  assumes "\<And>network addr acct key m. ok m \<Longrightarrow> dial' network addr acct key m = dial network addr acct key m" "ok n"
  shows "handleHTTP dial' he r n = handleHTTP dial he r n"
proof -
  let ?n = "on_stats (\<lambda>st. st\<lparr>HTTPReqs := HTTPReqs st + 1\<rparr>) n"
  have n: "ok ?n" by (rule ok_counted(1)[OF assms(2)])
  have "handleCONNECT dial' he r acct key ?n = handleCONNECT dial he r acct key ?n" for acct key
    by (simp add: handleCONNECT_def Let_def assms(1)[OF n] cong: option.case_cong bool.case_cong)
  moreover have "forward dial' he r acct key ?n = forward dial he r acct key ?n" for acct key
    by (simp add: forward_def RoundTrip_def run_trip_cong[OF assms(1) ok_rec[OF n]])
  ultimately show ?thesis
    by (simp add: handleHTTP_def Let_def cong: option.case_cong prod.case_cong if_cong)
qed

lemma HandleSOCKS5_cong:
  assumes "\<And>network addr acct key m. ok m \<Longrightarrow> dial' network addr acct key m = dial network addr acct key m" "ok n"
  shows "HandleSOCKS5 dial' wok se inp n = HandleSOCKS5 dial wok se inp n"
proof -
  let ?n = "on_stats (\<lambda>st. st\<lparr>SOCKSConns := SOCKSConns st + 1\<rparr>) n"
  have "socks_connect dial' se acct key req out ?n = socks_connect dial se acct key req out ?n" for acct key req out
    by (cases req) (simp add: socks_connect_def Let_def assms(1)[OF ok_counted(2)[OF assms(2)]])
  then show ?thesis
    by (simp add: HandleSOCKS5_def Let_def cong: option.case_cong sum.case_cong prod.case_cong if_cong)
qed

end

context ticking
begin

lemma serve_cong:
  assumes "\<And>network addr acct key m. ok m \<Longrightarrow> dial' network addr acct key m = dial network addr acct key m"
  shows "ok n \<Longrightarrow> list_all event_fine es \<Longrightarrow> serve dial' ss es n = serve dial ss es n"
proof (induction es arbitrary: n)
  case (Cons e es)
  have e: "handle_event dial' e n = handle_event dial e n"
    by (cases e) (simp_all add: handleHTTP_cong[OF assms Cons.prems(1)] HandleSOCKS5_cong[OF assms Cons.prems(1)])
  have "event_fine e" using Cons.prems(2) by simp
  then obtain m where "handle_event dial e n = Some m" "ok m" by (rule handle_event_ok[OF Cons.prems(1)])
  then show ?case using Cons.IH[of m] Cons.IH[OF Cons.prems(1)] Cons.prems(2) e by (simp split: option.split)
qed simp

end

section \<open>A static pool\<close>

definition pooled_ok :: "pool \<Rightarrow> 'c node \<Rightarrow> bool" where
  "pooled_ok pl n \<longleftrightarrow> node_ok n \<and> static_pool pl (nd_px n) \<and> sessions_in pl (nd_px n)"

lemma static_pool_site: "same_site p q \<Longrightarrow> static_pool pl q = static_pool pl p"
  by (simp add: same_site_def static_pool_def)

lemma pooled_pick:
  assumes "pooled_ok pl n"
  obtains src q where "pickSource env (sr_rng (nd_sr n i)) clk acct key dest (nd_px n) = Some (src, q)"
    "in_prefix (nat (p_bits pl)) (p_prefix pl) src" "sessions_in pl q"
proof -
  have "proxy_ok (nd_px n)" "rng_ok (sr_rng (nd_sr n i))" "static_pool pl (nd_px n)" "sessions_in pl (nd_px n)"
    using assms by (simp_all add: pooled_ok_def node_ok_def)
  from pickSource_in_prefix[OF this] that show ?thesis by blast
qed

lemma pooled_dial:
  assumes "pooled_ok pl n"
  shows "\<exists>r m. dial_node network addr acct key n = Some (r, m) \<and> pooled_ok pl m"
proof -
  have "node_ok n" using assms by (simp add: pooled_ok_def)
  then obtain r m where m: "dial_node network addr acct key n = Some (r, m)" "node_ok m"
    using dial_node_ok by blast
  then obtain env where d: "dialTarget (nd_sr n (nd_at n)) (nd_nw n (nd_at n)) network addr acct key
      (nd_env n, nd_px n) = Some (r, env, nd_px m)" by (auto simp: dial_node_def)
  have "sessions_in pl (nd_px m)"
  proof (cases "SplitHostPort addr")
    case None
    then show ?thesis using d assms by (simp add: dialTarget_def pooled_ok_def)
  next
    case (Some hp)
    obtain host port where "hp = (host, port)" by fastforce
    with Some have sp: "SplitHostPort addr = Some (host, port)" by simp
    obtain src q where q: "pickSource (nd_env n) (sr_rng (nd_sr n (nd_at n))) (sr_clock (nd_sr n (nd_at n))) acct key
        (normalizeHost (sr_lower (nd_sr n (nd_at n))) host) (nd_px n) = Some (src, q)" "sessions_in pl q"
      by (rule pooled_pick[OF assms])
    from dialTarget_after_pick[OF d sp q(1)] q(2) show ?thesis by (simp add: after_pick_def sessions_in_def)
  qed
  then show ?thesis using m assms static_pool_site[OF dialTarget_site[OF d]] by (simp add: pooled_ok_def)
qed

lemma pooled_tick:
  assumes "pooled_ok pl n" "rng_ok (sw_rng sw)"
  shows "\<exists>m. sweep_tick sw n = Some m \<and> pooled_ok pl m \<and> same_site (nd_px n) (nd_px m) \<and> nd_relays m = nd_relays n"
proof -
  have "node_ok n" using assms(1) by (simp add: pooled_ok_def)
  then obtain m where m: "sweep_tick sw n = Some m" "node_ok m" "same_site (nd_px n) (nd_px m)" "nd_relays m = nd_relays n"
    "\<And>k. map_of (px_sessions (nd_px m)) k = (case map_of (px_sessions (nd_px n)) k of None \<Rightarrow> None
       | Some s \<Rightarrow> if sw_sessions sw > ses_expire s then None else Some s)"
    by (rule sweep_tick_ok[OF _ assms(2)]) blast
  have "in_prefix (nat (p_bits pl)) (p_prefix pl) (ses_ip s)" if "(k, s) \<in> set (px_sessions (nd_px m))" for k s
  proof -
    have "map_of (px_sessions (nd_px m)) k = Some s" using that m(2) by (simp add: node_ok_def keys_ok_def)
    then have "map_of (px_sessions (nd_px n)) k = Some s" using m(5)[of k] by (auto split: option.splits if_splits)
    then have "(k, s) \<in> set (px_sessions (nd_px n))" by (rule map_of_SomeD)
    then show ?thesis using assms(1) by (auto simp: pooled_ok_def sessions_in_def list_all_iff)
  qed
  then have "sessions_in pl (nd_px m)" by (auto simp: sessions_in_def list_all_iff)
  then show ?thesis using m assms(1) static_pool_site[OF m(3)] by (auto simp: pooled_ok_def)
qed

interpretation pooled: ticking dial_node "pooled_ok pl"
proof unfold_locales
  fix n :: "'c node" and f :: "stats \<Rightarrow> stats"
  assume "pooled_ok pl n" "DialErrors (f (px_stats (nd_px n))) = DialErrors (px_stats (nd_px n))"
    "HostsCur (f (px_stats (nd_px n))) = HostsCur (px_stats (nd_px n))"
  then show "pooled_ok pl (on_stats f n)"
    using direct.ok_on_stats[of n f] by (simp add: pooled_ok_def static_pool_def sessions_in_def) (simp add: on_stats_def)
next
  fix n :: "'c node" and ls ip cs
  assume ok: "pooled_ok pl n"
  then show "pooled_ok pl (write_log ls n)" using direct.ok_write_log[of n ls] by (simp add: pooled_ok_def)
  from ok show "pooled_ok pl (n\<lparr>nd_rec := ip\<rparr>)" using direct.ok_rec[of n ip] by (simp add: pooled_ok_def)
  from ok show "pooled_ok pl (n\<lparr>nd_relays := cs\<rparr>)" using direct.ok_relays[of n cs] by (simp add: pooled_ok_def)
qed (simp_all add: pooled_dial pooled_tick direct.dial_keeps)

lemma dial_fenced_eq:
  assumes "pooled_ok pl n"
  shows "dial_fenced pl network addr acct key n = dial_node network addr acct key n"
proof -
  have "dialTarget (nd_sr n (nd_at n)) (fence pl (nd_nw n (nd_at n))) network addr acct key (nd_env n, nd_px n)
      = dialTarget (nd_sr n (nd_at n)) (nd_nw n (nd_at n)) network addr acct key (nd_env n, nd_px n)"
    by (rule dialTarget_fence) (use pooled_pick[OF assms] in \<open>metis option.inject prod.inject\<close>)
  then show ?thesis by (simp add: dial_fenced_def dial_node_def)
qed

section \<open>Properties\<close>

text \<open>C2. Nothing leaves over IPv6 from outside the pool.  For a process whose configuration has a static pool
  and nothing that overrides it, every sequence of requests, connections and sweeps, with whatever
  accounts, sessions and destinations, goes exactly as on the network that refuses every dial but
  those bound to an address of the configured prefix and unbound IPv4 ones.\<close>

theorem egress_in_prefix:
  assumes "New_proxy rand now c = Inr p" "px_pool p = Some pl" "px_hosts p = []" "\<not> AutoPool c" "FixedSource c = ''''"
    "SourceIface c = ''''" "\<And>i. rng_ok (sr_rng (pr_sr pr i))" "list_all event_fine es"
  shows "serve dial_node ss es (new_node pr p) = serve (dial_fenced pl) ss es (new_node pr p)"
proof -
  have c: "px_cfg p = c" "px_sessions p = []" using assms(1) by (auto simp: New_proxy_def Let_def split: sum.splits)
  have "node_ok (new_node pr p)" using new_node_ok[OF assms(1)] assms(7) by blast
  then have "pooled_ok pl (new_node pr p)"
    using assms(2-6) c by (simp add: pooled_ok_def static_pool_def sessions_in_def new_node_def)
  from pooled.serve_cong[OF dial_fenced_eq this assms(8)] show ?thesis by simp
qed

theorem egress_in_prefix_witness:
  "\<exists>p pl. New_proxy (Inl '''') 0 sample_config = Inr p \<and> px_pool p = Some pl
     \<and> serve dial_node [HTTPService, SOCKSService] sample_events (new_node sample_process p)
       = serve (dial_fenced pl) [HTTPService, SOCKSService] sample_events (new_node sample_process p)"
proof -
  have "PoolSeed sample_config = ''00ff''" "PoolPrefix sample_config \<noteq> ''''"
    by (simp_all add: sample_config_def)
  then obtain p pl where p: "New_proxy (Inl '''') 0 sample_config = Inr p" "px_pool p = Some pl" "px_hosts p = []"
    by (simp add: New_proxy_def parseSeed_sample Let_def) (simp add: sample_config_def)
  have c: "\<not> AutoPool sample_config" "FixedSource sample_config = ''''" "SourceIface sample_config = ''''"
    by (simp_all add: sample_config_def)
  have fine: "rng_ok (sr_rng (pr_sr sample_process i))" "list_all event_fine sample_events" for i
    by (simp_all add: sample_events_def sample_senv_def sample_henv_def sample_sweep_def sample_process_def
        sample_surround_def rng_ok_def)
  from egress_in_prefix[OF p c fine] p show ?thesis by blast
qed

end
