(* ===== verification/Spec2Isabelle.thy ===== *)
theory Spec2Isabelle
  imports Pool_Cycle Ifaceutil Codec IP_Text Config Metrics Claim Sessions Dial Relay Upstream Http Socks5
    Stats_Http Main_Loop Egress
begin

text \<open>
  v6pool, a rotating IPv6 proxy for HTTP and SOCKS5: a verification development.

  \<^bold>\<open>The program.\<close>  \<open>cmd/v6pool/main.go\<close> loads a configuration (\<open>internal/config\<close>), builds a proxy
  (\<open>internal/proxy\<close>), opens up to three listeners and sweeps the proxy's tables every 30 seconds.  An HTTP
  or SOCKS5 client authenticates as an account, perhaps with a session token; for each upstream
  connection the proxy picks a source address out of an IPv6 prefix (\<open>internal/pool\<close>), makes the
  interface own it (\<open>internal/claim\<close>, \<open>internal/ifaceutil\<close>), dials the destination from it, relays the
  two connections and counts what it did (\<open>internal/metrics\<close>).

  \<^bold>\<open>Theories, bottom up.\<close>  A byte is an \<open>8 word\<close>, an address a byte list (nil is the empty list), a Go string a
  list of bytes as \<open>char\<close>, a time or duration an \<open>int\<close> of nanoseconds, \<open>uint64\<close> a \<open>64 word\<close>; a Go map is an
  association list whose iteration order is a parameter where the code ranges over it; a pointer to a
  table entry is its key.  A failure is a value (Inl or None); a loop that need not end is a
  \<open>partial_function\<close> whose None is excluded by the theorems.

  \<^item> \<open>Prelude\<close>, \<open>Go_Text\<close>, \<open>Net_IP\<close>, \<open>Codec\<close>, \<open>IP_Text\<close>: bits and bytes of addresses, and what the program uses of
    \<open>strings\<close>, \<open>strconv\<close>, \<open>net\<close>, \<open>encoding/hex\<close> and \<open>encoding/base64\<close>.  The locale \<open>codec\<close> is the contract of an
    encoder and its decoder; it is interpreted for hexadecimal, base64, host and port, printed IPv6
    addresses, quoted labels, Basic credentials and query strings.
  \<^item> \<open>Pool\<close>, \<open>Pool_Cycle\<close>: \<open>pool.go\<close>.  The keyed mapping stays in the prefix and its slice and avoids reserved
    host values; a rotation cycle visits every aggregate once per period at every length, and its
    skips are exactly the positions that need them.
  \<^item> \<open>Ifaceutil\<close>, \<open>Config\<close>, \<open>Metrics\<close>: \<open>iface.go\<close>, \<open>config.go\<close>, \<open>metrics.go\<close>.  Loading is characterised exactly; the
    Prometheus text has the intended lines whatever the labels contain.
  \<^item> \<open>Expiring\<close>, \<open>Claim\<close>: the locales \<open>expiring\<close> and \<open>keeping\<close> state a store whose entries a sweep removes once
    their deadline has passed; the claims, the cycle table and the sessions interpret them.
  \<^item> \<open>Proxy_State\<close>, \<open>Recent_Ring\<close>, \<open>Stream_Table\<close>, \<open>Fresh\<close>, \<open>Sessions\<close>: \<open>proxy.go\<close> up to \<open>SweepStreams\<close>.
    Construction and authentication; the ring of recent addresses refines a bounded queue; the cycle
    table evicts least recently used cycles and its loops end; a fresh pick lies in the prefix of its
    pool (locale \<open>pick_source\<close>); sessions pin their address under every interleaving of requests
    (\<open>sess_step\<close>).
  \<^item> \<open>Dial\<close>: \<open>ensureClaimed\<close>, \<open>logReq\<close>, \<open>dialTarget\<close>.  A dial returns, keeps the invariants, uses the picked source for
    every IPv6 connection and counts its failures.
  \<^item> \<open>Relay\<close>: \<open>keepAlive\<close> and \<open>relay\<close> as interleaved actions, each copy reading and writing on its own: the gauge
    and the byte counters balance in every run, the idle deadline never fires, and an upstream that has
    closed ends the relay once the bytes in flight have run out, if no write blocks for ever.
  \<^item> \<open>Upstream\<close>: the node the handlers run in, with the relays they have started, which go on one action at a
    time beside everything else (\<open>relay_act\<close>) and stay accounted for (\<open>relays_counted\<close>), and the locale
    \<open>upstream\<close>, the contract of the dialer; its interpretation \<open>direct\<close> is \<open>dialTarget\<close>.
  \<^item> \<open>Http\<close>, \<open>Socks5\<close>, \<open>Stats_Http\<close>: \<open>http.go\<close>, \<open>socks5.go\<close>, \<open>stats.go\<close>.  Nobody reaches the dialer without an
    account's credentials, every well-formed client does, credentials are not forwarded, what a forwarded
    request is answered is given exactly, replies can be read back, and the statistics need the token.
  \<^item> \<open>Main_Loop\<close>: \<open>main.go\<close>.  Start-up, the events of a running process, the sweep; the theorem \<open>run_sound\<close>
    composes all components (locale \<open>ticking\<close>, which extends \<open>upstream\<close> by the sweep).
  \<^item> \<open>Egress\<close>: with a static pool no run of the process dials IPv6 from outside the configured prefix.

  \<^bold>\<open>Bounds.\<close>  The hygiene loops of the pool run at most 8 times each, as in the code; eviction loops have no
  bound and are proved to end.  Counters wrap modulo \<open>2^64\<close> as in Go, and gauges are unbounded integers
  where the code has \<open>int64\<close>.

  \<^bold>\<open>Parameters.\<close>  The operating system's answers about interfaces and routes, the \<open>ip\<close> command, the network, the
  resolver, \<open>crypto/rand\<close>, the clock, map iteration order, the HTTP transport (a tree of dials with an
  answer at the end of every branch: a round trip makes finitely many), the YAML and JSON
  libraries, lower-casing of non-ASCII text, the Unicode table of printable characters, \<open>%g\<close> and \<open>Seconds()\<close> rounding.

  \<^bold>\<open>Not modelled.\<close>  Data races: an operation that holds the proxy's mutex is atomic.  The process handles a
  request up to its reply or to the start of its relay before its next event, while relays interleave
  with everything, one action at a time, and need not end; the interleavings of requests with each other
  are covered by step relations of their own where state is shared across them (sessions, cycles).
  Each relay has its own clock, whose ticks are served when due.  Goroutines that outlive \<open>main\<close>.  The structured log but for the request
  lines.  The HTTP server's own parsing and its timeouts.  Tests, scripts, container and CI files.
\<close>

end
